(* ===== verification/Prelude.thy ===== *)
theory Prelude
  imports Main "HOL-Library.Word" "HOL-Library.Sublist"
begin

text \<open>
  Shared vocabulary of the development: bytes, results with errors as values, the
  collections of facts that the component proofs use, and the generic lemmas on lists,
  options and maps that several components share.
\<close>

section \<open>Types and collections\<close>

type_synonym byte = "8 word"

type_synonym bytes = "byte list"

text \<open>
  Fact collections. \<open>js_simps\<close>: characteristic equations of the JavaScript library
  functions of \<open>JsString\<close> and \<open>JsNumber\<close>. \<open>codec_simps\<close>: equations of the byte
  encoders. \<open>step_simps\<close>: unfolding of the stateful operations.
\<close>

named_theorems js_simps
named_theorems codec_simps
named_theorems step_simps

section \<open>Results\<close>

text \<open>
  What a call can throw or a promise can reject with: an \<open>Error\<close> the program builds (with its
  message), the \<open>RangeError\<close> and \<open>TypeError\<close> of the Buffer and language operations, the
  authentication failure of a decipher, and the error event of a socket.
\<close>

datatype error =
    Error string
  | RangeError
  | TypeError
  | CryptoError
  | SocketError string

text \<open>\<open>error.message\<close>.\<close>

fun error_message :: "error \<Rightarrow> string" where
  "error_message (Error s) = s"
| "error_message (SocketError s) = s"
| "error_message RangeError = ''RangeError''"
| "error_message TypeError = ''TypeError''"
| "error_message CryptoError = ''CryptoError''"

text \<open>
  A call that may throw (or a promise that may reject) returns \<open>'e + 'a\<close>: \<open>Inl\<close> is the
  exception, \<open>Inr\<close> the value. \<open>bind_res\<close> is the sequencing of \<open>await\<close>s, with the exception
  leaving the rest of the function unexecuted.
\<close>

definition bind_res :: "'e + 'a \<Rightarrow> ('a \<Rightarrow> 'e + 'b) \<Rightarrow> 'e + 'b" where
  "bind_res r f = (case r of Inl e \<Rightarrow> Inl e | Inr a \<Rightarrow> f a)"

lemma bind_res_simps [simp]:
  "bind_res (Inl e) f = Inl e"
  "bind_res (Inr a) f = f a"
  by (simp_all add: bind_res_def)

lemma bind_res_Inr_iff: "bind_res r f = Inr b \<longleftrightarrow> (\<exists>a. r = Inr a \<and> f a = Inr b)"
  by (cases r) auto

lemma bind_res_Inl_iff:
  "bind_res r f = Inl e \<longleftrightarrow> r = Inl e \<or> (\<exists>a. r = Inr a \<and> f a = Inl e)"
  by (cases r) auto

lemma bind_res_assoc: "bind_res (bind_res r f) g = bind_res r (\<lambda>a. bind_res (f a) g)"
  by (cases r) auto

definition guard_res :: "bool \<Rightarrow> 'e \<Rightarrow> 'e + unit" where
  "guard_res b e = (if b then Inr () else Inl e)"

lemma guard_res_simps [simp]:
  "guard_res True e = Inr ()"
  "guard_res False e = Inl e"
  "guard_res b e = Inr u \<longleftrightarrow> b"
  by (simp_all add: guard_res_def)

section \<open>Lists\<close>

lemma suffix_iff_drop: "suffix xs ys \<longleftrightarrow> length xs \<le> length ys \<and> drop (length ys - length xs) ys = xs"
  by (auto simp: suffix_def) (metis append_take_drop_id)

lemma prefix_iff_take: "prefix xs ys \<longleftrightarrow> take (length xs) ys = xs"
  by (metis append_eq_conv_conj append_take_drop_id prefix_def)

lemma take_append_exact [simp]: "n = length xs \<Longrightarrow> take n (xs @ ys) = xs"
  by simp

lemma drop_append_exact [simp]: "n = length xs \<Longrightarrow> drop n (xs @ ys) = ys"
  by simp

text \<open>\<open>find\<close> returns the first element that satisfies the predicate.\<close>

lemma find_append: "find P (xs @ ys) = (case find P xs of Some x \<Rightarrow> Some x | None \<Rightarrow> find P ys)"
  by (induction xs) auto

lemma find_Some_split:
  "find P xs = Some x \<Longrightarrow> \<exists>ys zs. xs = ys @ x # zs \<and> P x \<and> (\<forall>y \<in> set ys. \<not> P y)"
proof (induction xs)
  case (Cons a xs)
  show ?case
  proof (cases "P a")
    case True
    with Cons.prems have "a # xs = [] @ x # xs \<and> P x \<and> (\<forall>y \<in> set []. \<not> P y)" by simp
    then show ?thesis by blast
  next
    case False
    with Cons obtain ys zs where "xs = ys @ x # zs" "P x" "\<forall>y \<in> set ys. \<not> P y" by auto
    with False have "a # xs = (a # ys) @ x # zs \<and> P x \<and> (\<forall>y \<in> set (a # ys). \<not> P y)" by simp
    then show ?thesis by blast
  qed
qed simp

lemma find_None: "find P xs = None \<longleftrightarrow> (\<forall>x \<in> set xs. \<not> P x)"
  by (induction xs) auto

section \<open>Bytes as numbers\<close>

lemma byte_less: "unat (b :: byte) < 256"
  using unsigned_less [of b] by simp

lemma byte_le: "unat (b :: byte) \<le> 255"
  using byte_less [of b] by linarith

lemma unat_of_nat_byte [simp]: "n < 256 \<Longrightarrow> unat (of_nat n :: byte) = n"
  by (simp add: unat_of_nat take_bit_nat_eq_self)

lemma of_nat_unat_byte [simp]: "of_nat (unat (b :: byte)) = b"
  by simp

section \<open>Big-endian numbers\<close>

text \<open>The \<open>k\<close> low bytes of \<open>n\<close>, most significant first (\<open>writeUInt16BE\<close>, \<open>writeBigUInt64BE\<close>), and back.\<close>

fun be_bytes :: "nat \<Rightarrow> nat \<Rightarrow> bytes" where
  "be_bytes 0 n = []"
| "be_bytes (Suc k) n = be_bytes k (n div 256) @ [of_nat n]"

definition be_nat :: "bytes \<Rightarrow> nat" where
  "be_nat bs = foldl (\<lambda>n b. n * 256 + unat b) 0 bs"

lemma length_be_bytes [simp]: "length (be_bytes k n) = k"
  by (induction k arbitrary: n) auto

lemma be_nat_append: "be_nat (bs @ [b]) = be_nat bs * 256 + unat b"
  by (simp add: be_nat_def)

lemma be_nat_be_bytes_mod: "be_nat (be_bytes k n) = n mod 256 ^ k"
proof (induction k arbitrary: n)
  case 0
  then show ?case by (simp add: be_nat_def)
next
  case (Suc k)
  have "n mod 256 ^ Suc k = n div 256 mod 256 ^ k * 256 + n mod 256"
    by (simp add: mod_mult2_eq mult.commute)
  then show ?case by (simp add: Suc be_nat_append unsigned_of_nat take_bit_eq_mod)
qed

lemma be_nat_be_bytes [simp]: "n < 256 ^ k \<Longrightarrow> be_nat (be_bytes k n) = n"
  by (simp add: be_nat_be_bytes_mod)

lemma be_nat_less: "be_nat bs < 256 ^ length bs"
proof (induction bs rule: rev_induct)
  case (snoc b bs)
  then have "be_nat bs * 256 + 256 \<le> 256 ^ length bs * 256" by (metis Suc_leI add.commute mult.commute mult_Suc_right mult_le_mono1)
  then show ?case using byte_less[of b] by (simp add: be_nat_append mult.commute)
qed (simp add: be_nat_def)

section \<open>Slices of a buffer\<close>

text \<open>
  \<open>for (offset = 0; offset < data.length; offset += 0x3fff) data.subarray(offset, min(length, offset + 0x3fff))\<close>,
  the chunking of both chunk writers.
\<close>

function slices :: "'a list \<Rightarrow> 'a list list" where
  "slices xs = (if xs = [] then [] else take 0x3fff xs # slices (drop 0x3fff xs))"
  by pat_completeness auto
termination
  by (relation "measure length") auto

declare slices.simps [simp del]

lemma slices_Nil [simp]: "slices [] = []"
  by (simp add: slices.simps)

lemma slices_small: "xs \<noteq> [] \<Longrightarrow> length xs \<le> 0x3fff \<Longrightarrow> slices xs = [xs]"
  by (simp add: slices.simps[of xs])

lemma concat_slices [simp]: "concat (slices xs) = xs"
proof (induction xs rule: slices.induct)
  case (1 xs)
  then show ?case by (cases "xs = []") (simp_all add: slices.simps[of xs])
qed

lemma slices_bounds: "p \<in> set (slices xs) \<Longrightarrow> p \<noteq> [] \<and> length p \<le> 0x3fff"
proof (induction xs rule: slices.induct)
  case (1 xs)
  then show ?case by (cases "xs = []") (auto simp: slices.simps[of xs])
qed

text \<open>\<open>buf.subarray(i, j)\<close>: a negative index counts from the end, indices are clamped.\<close>

definition clamp_index :: "nat \<Rightarrow> int \<Rightarrow> nat" where
  "clamp_index len i = (if i < 0 then nat (int len + i) else min (nat i) len)"

definition subarray :: "'a list \<Rightarrow> int \<Rightarrow> int \<Rightarrow> 'a list" where
  "subarray xs i j =
     (let a = clamp_index (length xs) i; b = clamp_index (length xs) j in take (b - a) (drop a xs))"

lemma subarray_inside:
  "i \<le> j \<Longrightarrow> j \<le> length xs \<Longrightarrow> subarray xs (int i) (int j) = take (j - i) (drop i xs)"
  by (simp add: subarray_def clamp_index_def min_def)

section \<open>Bits of integers\<close>

text \<open>Two integers agree on the bits from \<open>k\<close> on exactly when their quotients by \<open>2 ^ k\<close> agree.\<close>

lemma div_eq_iff_bits:
  fixes x y :: int
  shows "x div 2 ^ k = y div 2 ^ k \<longleftrightarrow> (\<forall>n. k \<le> n \<longrightarrow> bit x n = bit y n)"
proof -
  have "x div 2 ^ k = y div 2 ^ k \<longleftrightarrow> (\<forall>n. bit x (k + n) = bit y (k + n))"
    by (simp add: bit_eq_iff [of "drop_bit k x" "drop_bit k y"] bit_drop_bit_eq flip: drop_bit_eq_div)
  also have "\<dots> \<longleftrightarrow> (\<forall>n. k \<le> n \<longrightarrow> bit x n = bit y n)"
    by (auto simp: le_iff_add)
  finally show ?thesis .
qed

lemma bit_above_bound:
  fixes x :: int
  assumes "0 \<le> x" "x < 2 ^ k" "k \<le> n"
  shows "\<not> bit x n"
proof -
  have "x = take_bit k x" using assms by (simp add: take_bit_int_eq_self)
  then show ?thesis using assms(3) by (metis bit_take_bit_iff not_le)
qed

section \<open>Lists of workers\<close>

lemma sum_list_map_update:
  fixes f :: "'a \<Rightarrow> 'b::comm_monoid_add"
  shows "w < length ws \<Longrightarrow> sum_list (map f (ws[w := x])) + f (ws ! w) = sum_list (map f ws) + f x"
  by (induction ws arbitrary: w) (auto simp: nth_Cons ac_simps split: nat.splits)

section \<open>Runs that end\<close>

text \<open>
  What a pool of workers owes its caller: every step makes what is left smaller, and only a state in which all
  work is over has no step. Then every run is finite, with a bound on its length, and can be brought to its end.
\<close>

locale run_down =
  fixes step :: "'s \<Rightarrow> 's \<Rightarrow> bool" and left_to_do :: "'s \<Rightarrow> nat" and over :: "'s \<Rightarrow> bool"
  assumes decreases: "step s t \<Longrightarrow> left_to_do t < left_to_do s"
    and progress: "\<not> over s \<Longrightarrow> \<exists>t. step s t"
    and over_rests: "step s t \<Longrightarrow> \<not> over s"
begin

lemma runs_end: "wfP (\<lambda>t s. step s t)"
  by (rule wfp_if_convertible_to_nat[of _ left_to_do]) (rule decreases)

lemma stuck_iff_over: "(\<nexists>t. step s t) \<longleftrightarrow> over s"
  using progress over_rests by blast

lemma run_bound: "(step ^^ n) s t \<Longrightarrow> n + left_to_do t \<le> left_to_do s"
proof (induction n arbitrary: t)
  case (Suc n)
  then obtain u where "(step ^^ n) s u" "step u t" by auto
  then show ?case using Suc.IH decreases[of u t] by fastforce
qed simp

lemma can_finish: "\<exists>t. step\<^sup>*\<^sup>* s t \<and> over t"
proof (induction "left_to_do s" arbitrary: s rule: less_induct)
  case less
  show ?case
  proof (cases "over s")
    case False
    then obtain u where u: "step s u" using progress by blast
    then obtain t where "step\<^sup>*\<^sup>* u t" "over t" using less decreases by blast
    then show ?thesis using u by (blast intro: converse_rtranclp_into_rtranclp)
  qed blast
qed

end

end
