(* ===== verification/JsString.thy ===== *)
theory JsString
  imports Prelude
begin

text \<open>
  The JavaScript string operations the program uses. A JavaScript string is modelled as a
  Isabelle \<open>string\<close>: a list of code units restricted to U+0000..U+00FF (Latin-1). The HTTP
  head, the WebSocket handshake and every rule keyword are exactly such strings (the code
  decodes the heads with \<open>toString("latin1")\<close>); code units above U+00FF are outside the model.

  Where a Latin-1 code unit has a case mapping outside Latin-1 (\<open>toUpperCase\<close> of U+00B5 and
  U+00FF) the model leaves it unchanged; the program only compares upper-cased strings with
  ASCII keywords, and both variants differ from every ASCII letter.
\<close>

section \<open>Characters\<close>

definition code_unit :: "char \<Rightarrow> nat" where
  "code_unit c = of_char c"

definition unit_char :: "nat \<Rightarrow> char" where
  "unit_char n = char_of n"

lemma unit_char_code_unit [simp]: "unit_char (code_unit c) = c"
  by (simp add: unit_char_def code_unit_def)

lemma code_unit_unit_char [simp]: "n < 256 \<Longrightarrow> code_unit (unit_char n) = n"
  by (simp add: unit_char_def code_unit_def)

lemma code_unit_less [simp]: "code_unit c < 256"
  using nat_of_char_less_256 by (simp add: code_unit_def)

text \<open>The white space and line terminators of \<open>String.prototype.trim\<close> and of the class \<open>\s\<close>.\<close>

definition is_space :: "char \<Rightarrow> bool" where
  "is_space c \<longleftrightarrow> code_unit c \<in> {9, 10, 11, 12, 13, 32, 160}"

definition is_digit :: "char \<Rightarrow> bool" where
  "is_digit c \<longleftrightarrow> 48 \<le> code_unit c \<and> code_unit c \<le> 57"

definition lower_char :: "char \<Rightarrow> char" where
  "lower_char c =
     (let n = code_unit c
      in if (65 \<le> n \<and> n \<le> 90) \<or> (192 \<le> n \<and> n \<le> 222 \<and> n \<noteq> 215) then unit_char (n + 32) else c)"

definition upper_char :: "char \<Rightarrow> string" where
  "upper_char c =
     (let n = code_unit c
      in if (97 \<le> n \<and> n \<le> 122) \<or> (224 \<le> n \<and> n \<le> 254 \<and> n \<noteq> 247) then [unit_char (n - 32)]
         else if n = 223 then ''SS'' else [c])"

definition toLowerCase :: "string \<Rightarrow> string" where
  "toLowerCase s = map lower_char s"

definition toUpperCase :: "string \<Rightarrow> string" where
  "toUpperCase s = concat (map upper_char s)"

definition trimStart :: "string \<Rightarrow> string" where
  "trimStart s = dropWhile is_space s"

definition trim :: "string \<Rightarrow> string" where
  "trim s = rev (dropWhile is_space (rev (dropWhile is_space s)))"

section \<open>Searching and splitting\<close>

definition startsWith :: "string \<Rightarrow> string \<Rightarrow> bool" where
  "startsWith s p \<longleftrightarrow> prefix p s"

definition endsWith :: "string \<Rightarrow> string \<Rightarrow> bool" where
  "endsWith s p \<longleftrightarrow> suffix p s"

definition includes_str :: "string \<Rightarrow> string \<Rightarrow> bool" where
  "includes_str s p \<longleftrightarrow> sublist p s"

text \<open>\<open>s.split(c)\<close> for a one-character separator; the result is never empty.\<close>

fun split_char :: "char \<Rightarrow> string \<Rightarrow> string list" where
  "split_char c [] = [[]]"
| "split_char c (x # xs) =
     (if x = c then [] # split_char c xs
      else case split_char c xs of [] \<Rightarrow> [[x]] | w # ws \<Rightarrow> (x # w) # ws)"

text \<open>\<open>s.split("ab")\<close> for a two-character separator (\<open>"::"\<close> and \<open>"\r\n"\<close>).\<close>

fun split_two :: "char \<Rightarrow> char \<Rightarrow> string \<Rightarrow> string list" where
  "split_two a b [] = [[]]"
| "split_two a b [x] = [[x]]"
| "split_two a b (x # y # xs) =
     (if x = a \<and> y = b then [] # split_two a b xs
      else case split_two a b (y # xs) of [] \<Rightarrow> [[x]] | w # ws \<Rightarrow> (x # w) # ws)"

text \<open>\<open>parts.join(sep)\<close>.\<close>

fun join :: "string \<Rightarrow> string list \<Rightarrow> string" where
  "join sep [] = []"
| "join sep [w] = w"
| "join sep (w # ws) = w @ sep @ join sep ws"

text \<open>
  \<open>s.indexOf(c)\<close>, with \<open>None\<close> for -1, and \<open>s.lastIndexOf(c)\<close>.
\<close>

fun index_of :: "char \<Rightarrow> string \<Rightarrow> nat option" where
  "index_of c [] = None"
| "index_of c (x # xs) = (if x = c then Some 0 else map_option Suc (index_of c xs))"

definition last_index_of :: "char \<Rightarrow> string \<Rightarrow> nat option" where
  "last_index_of c s = map_option (\<lambda>i. length s - 1 - i) (index_of c (rev s))"

text \<open>
  \<open>s.slice(0, i)\<close> and \<open>s.slice(i + 1)\<close> around an \<open>indexOf\<close>. When the character is absent the
  index is -1, so \<open>slice(0, -1)\<close> drops the last character and \<open>slice(0)\<close> is the whole string.
\<close>

definition slice_before :: "string \<Rightarrow> nat option \<Rightarrow> string" where
  "slice_before s i = (case i of Some n \<Rightarrow> take n s | None \<Rightarrow> butlast s)"

definition slice_after :: "string \<Rightarrow> nat option \<Rightarrow> string" where
  "slice_after s i = (case i of Some n \<Rightarrow> drop (Suc n) s | None \<Rightarrow> s)"

text \<open>\<open>[...new Set(xs)]\<close>: the first occurrence of each.\<close>

fun set_order :: "'a list \<Rightarrow> 'a list" where
  "set_order [] = []"
| "set_order (x # xs) = x # filter (\<lambda>y. y \<noteq> x) (set_order xs)"

section \<open>Facts\<close>

lemma split_char_nonempty [simp]: "split_char c s \<noteq> []"
  by (induction s) (auto split: list.splits)

lemma split_two_nonempty [simp]: "split_two a b s \<noteq> []"
  by (induction a b s rule: split_two.induct) (auto split: list.splits)

lemma split_char_no_sep: "c \<notin> set s \<Longrightarrow> split_char c s = [s]"
  by (induction s) auto

lemma split_char_pieces: "w \<in> set (split_char c s) \<Longrightarrow> c \<notin> set w"
proof (induction s arbitrary: w)
  case (Cons x xs)
  then show ?case
    by (cases "split_char c xs") (auto split: if_splits)
qed simp

lemma split_char_append_sep: "split_char c (s @ c # t) = split_char c s @ split_char c t"
proof (induction s)
  case (Cons x xs)
  then show ?case by (cases "split_char c xs") auto
qed simp

lemma join_Cons: "ws \<noteq> [] \<Longrightarrow> join sep (w # ws) = w @ sep @ join sep ws"
  by (cases ws) auto

lemma join_Cons_char: "join sep ((x # w) # ws) = x # join sep (w # ws)"
  by (cases ws) auto

lemma set_join: "set (join sep ws) \<subseteq> set sep \<union> \<Union> (set ` set ws)"
  by (induction sep ws rule: join.induct) auto

lemma join_split_char: "join [c] (split_char c s) = s"
proof (induction s)
  case (Cons x xs)
  then show ?case
    by (cases "split_char c xs") (auto simp: join_Cons join_Cons_char)
qed simp

lemma split_char_join:
  "ws \<noteq> [] \<Longrightarrow> \<forall>w \<in> set ws. c \<notin> set w \<Longrightarrow> split_char c (join [c] ws) = ws"
proof (induction ws)
  case (Cons w ws)
  show ?case
  proof (cases "ws = []")
    case True
    with Cons.prems show ?thesis by (simp add: split_char_no_sep)
  next
    case False
    with Cons show ?thesis by (simp add: join_Cons split_char_append_sep split_char_no_sep)
  qed
qed simp

lemma split_char_inj: "split_char c s = split_char c t \<Longrightarrow> s = t"
  by (metis join_split_char)

lemma index_of_Some:
  "index_of c s = Some n \<longleftrightarrow> n < length s \<and> s ! n = c \<and> c \<notin> set (take n s)"
proof (induction s arbitrary: n)
  case (Cons x xs)
  then show ?case by (cases n) auto
qed simp

lemma index_of_None: "index_of c s = None \<longleftrightarrow> c \<notin> set s"
  by (induction s) auto

lemma index_of_append_sep: "c \<notin> set s \<Longrightarrow> index_of c (s @ c # t) = Some (length s)"
  by (simp add: index_of_Some)

lemma last_index_of_append_sep: "c \<notin> set t \<Longrightarrow> last_index_of c (s @ c # t) = Some (length s)"
  by (simp add: last_index_of_def index_of_append_sep)

lemma last_index_of_None: "last_index_of c s = None \<longleftrightarrow> c \<notin> set s"
  by (simp add: last_index_of_def index_of_None)

lemma slice_around:
  "c \<notin> set s \<Longrightarrow> slice_before (s @ c # t) (index_of c (s @ c # t)) = s"
  "c \<notin> set s \<Longrightarrow> slice_after (s @ c # t) (index_of c (s @ c # t)) = t"
  by (simp_all add: index_of_append_sep slice_before_def slice_after_def)

text \<open>Trimming a string that neither starts nor ends with white space changes nothing.\<close>

lemma trim_id:
  assumes "s \<noteq> [] \<Longrightarrow> \<not> is_space (hd s) \<and> \<not> is_space (last s)"
  shows "trim s = s"
proof (cases "s = []")
  case False
  with assms have "\<not> is_space (hd s)" "\<not> is_space (last s)" by auto
  moreover from False obtain x xs where "s = x # xs" by (cases s) auto
  ultimately have "dropWhile is_space s = s" by simp
  moreover have "dropWhile is_space (rev s) = rev s"
    using False \<open>\<not> is_space (last s)\<close> by (cases "rev s") (auto simp: last_rev hd_rev dest: arg_cong [where f = hd])
  ultimately show ?thesis by (simp add: trim_def)
qed (simp add: trim_def)

lemma trim_no_space: "\<forall>c \<in> set s. \<not> is_space c \<Longrightarrow> trim s = s"
  by (rule trim_id) auto

lemma dropWhile_all_not: "\<forall>c \<in> set s. \<not> P c \<Longrightarrow> dropWhile P s = s"
  by (cases s) auto

lemma set_set_order [simp]: "set (set_order xs) = set xs"
  by (induction xs) auto

lemma distinct_set_order: "distinct (set_order xs)"
  by (induction xs) auto

lemma set_order_append: "set_order (xs @ ys) = set_order xs @ filter (\<lambda>y. y \<notin> set xs) (set_order ys)"
  by (induction xs) (auto simp: filter_filter intro: filter_cong)

lemma set_order_distinct: "distinct xs \<Longrightarrow> set_order xs = xs"
  by (induction xs) (auto intro: filter_True)

end
