(* ===== verification/JsNumber.thy ===== *)
theory JsNumber
  imports JsString
begin

text \<open>
  JavaScript numbers as far as the program uses them: the values that \<open>Number(string)\<close> and
  \<open>parseInt(string, 16)\<close> produce (correctly rounded to binary64), the tests and comparisons
  made on them, and the conversion to 32-bit integers that the bitwise operators apply.
  A finite number is \<open>Fin m k\<close>, meaning \<open>m / 2 ^ k\<close>; \<open>k = 0\<close> exactly for the integers that
  the constructor functions build. Negative zero is identified with zero, which no operation
  of the program distinguishes.
\<close>

section \<open>Values and rounding\<close>

datatype jsnum = NaN | PosInf | NegInf | Fin int nat

text \<open>Number of binary digits.\<close>

function bit_count :: "int \<Rightarrow> int" where
  "bit_count n = (if n \<le> 0 then 0 else bit_count (n div 2) + 1)"
  by pat_completeness auto
termination
  by (relation "measure nat") auto

declare bit_count.simps [simp del]

text \<open>\<open>a / b\<close> rounded to the nearest integer, ties to even (\<open>b > 0\<close>).\<close>

definition round_half_even :: "int \<Rightarrow> int \<Rightarrow> int" where
  "round_half_even a b =
     (let q = a div b; r = a mod b
      in if 2 * r < b \<or> (2 * r = b \<and> even q) then q else q + 1)"

text \<open>\<open>m / 2 ^ k\<close>, as an integer where it is one.\<close>

definition mk_fin :: "int \<Rightarrow> nat \<Rightarrow> jsnum" where
  "mk_fin m k = (if 2 ^ k dvd m then Fin (m div 2 ^ k) 0 else Fin m k)"

text \<open>
  The binary64 value nearest to \<open>a / b\<close> (\<open>0 \<le> a\<close>, \<open>0 < b\<close>): \<open>exp_of\<close> is the binary exponent of
  the quotient, \<open>u\<close> the exponent of the last place (at least -1074).
\<close>

definition exp_of :: "int \<Rightarrow> int \<Rightarrow> int" where
  "exp_of a b =
     (let l = bit_count a - bit_count b
      in if (if 0 \<le> l then b * 2 ^ nat l \<le> a else b \<le> a * 2 ^ nat (- l)) then l else l - 1)"

definition to_double :: "int \<Rightarrow> int \<Rightarrow> jsnum" where
  "to_double a b =
     (let u = max (exp_of a b - 52) (- 1074)
      in if 0 \<le> u
         then let n = round_half_even a (b * 2 ^ nat u) * 2 ^ nat u
              in if 2 ^ 1024 \<le> n then PosInf else Fin n 0
         else mk_fin (round_half_even (a * 2 ^ nat (- u)) b) (nat (- u)))"

fun num_neg :: "jsnum \<Rightarrow> jsnum" where
  "num_neg NaN = NaN"
| "num_neg PosInf = NegInf"
| "num_neg NegInf = PosInf"
| "num_neg (Fin m k) = Fin (- m) k"

definition num_of_int :: "int \<Rightarrow> jsnum" where
  "num_of_int n = (if 0 \<le> n then to_double n 1 else num_neg (to_double (- n) 1))"

section \<open>Tests, comparisons, bitwise view\<close>

text \<open>\<open>Number.isInteger\<close>, \<open>Number.isNaN\<close>, \<open>===\<close>, \<open><\<close>.\<close>

fun isInteger :: "jsnum \<Rightarrow> bool" where
  "isInteger (Fin m k) \<longleftrightarrow> 2 ^ k dvd m"
| "isInteger _ \<longleftrightarrow> False"

definition isNaN :: "jsnum \<Rightarrow> bool" where
  "isNaN x \<longleftrightarrow> x = NaN"

fun num_eq :: "jsnum \<Rightarrow> jsnum \<Rightarrow> bool" where
  "num_eq (Fin m k) (Fin n l) \<longleftrightarrow> m * 2 ^ l = n * 2 ^ k"
| "num_eq PosInf PosInf \<longleftrightarrow> True"
| "num_eq NegInf NegInf \<longleftrightarrow> True"
| "num_eq _ _ \<longleftrightarrow> False"

fun num_less :: "jsnum \<Rightarrow> jsnum \<Rightarrow> bool" where
  "num_less (Fin m k) (Fin n l) \<longleftrightarrow> m * 2 ^ l < n * 2 ^ k"
| "num_less NegInf (Fin _ _) \<longleftrightarrow> True"
| "num_less NegInf PosInf \<longleftrightarrow> True"
| "num_less (Fin _ _) PosInf \<longleftrightarrow> True"
| "num_less _ _ \<longleftrightarrow> False"

text \<open>The integer part, rounding toward zero; NaN and the infinities give 0.\<close>

fun num_trunc :: "jsnum \<Rightarrow> int" where
  "num_trunc (Fin m k) = (if 0 \<le> m then m div 2 ^ k else - ((- m) div 2 ^ k))"
| "num_trunc _ = 0"

text \<open>ToInt32, the conversion the bitwise operators and the shifts apply.\<close>

definition to_int32 :: "jsnum \<Rightarrow> 32 word" where
  "to_int32 x = word_of_int (num_trunc x)"

text \<open>ToUint8, the conversion of \<open>Buffer.from(array)\<close> and of indexed stores to a Buffer.\<close>

definition to_uint8 :: "int \<Rightarrow> byte" where
  "to_uint8 n = word_of_int n"

section \<open>Parsing\<close>

definition digit_val :: "char \<Rightarrow> int" where
  "digit_val c = int (code_unit c) - 48"

definition hex_val :: "char \<Rightarrow> int option" where
  "hex_val c =
     (let n = int (code_unit c)
      in if 48 \<le> n \<and> n \<le> 57 then Some (n - 48)
         else if 65 \<le> n \<and> n \<le> 70 then Some (n - 55)
         else if 97 \<le> n \<and> n \<le> 102 then Some (n - 87) else None)"

definition is_hex :: "char \<Rightarrow> bool" where
  "is_hex c \<longleftrightarrow> hex_val c \<noteq> None"

definition digits_value :: "int \<Rightarrow> int list \<Rightarrow> int" where
  "digits_value b ds = foldl (\<lambda>a d. a * b + d) 0 ds"

definition dec_value :: "string \<Rightarrow> int" where
  "dec_value s = digits_value 10 (map digit_val s)"

definition hex_value :: "string \<Rightarrow> int" where
  "hex_value s = digits_value 16 (map (\<lambda>c. case hex_val c of Some d \<Rightarrow> d | None \<Rightarrow> 0) s)"

text \<open>The exponent part of a decimal literal, after the \<open>e\<close>.\<close>

definition parse_exponent :: "string \<Rightarrow> int option" where
  "parse_exponent s =
     (let neg = startsWith s ''-'';
          ds = (if startsWith s ''-'' \<or> startsWith s ''+'' then tl s else s)
      in if ds \<noteq> [] \<and> (\<forall>c \<in> set ds. is_digit c)
         then Some (if neg then - dec_value ds else dec_value ds) else None)"

text \<open>
  An unsigned decimal literal: digits, an optional fraction, an optional exponent. The result
  is the mantissa and the power of ten.
\<close>

definition parse_decimal :: "string \<Rightarrow> (int \<times> int) option" where
  "parse_decimal s =
     (let ip = takeWhile is_digit s; r = dropWhile is_digit s;
          fp = (if startsWith r ''.'' then takeWhile is_digit (tl r) else []);
          r2 = (if startsWith r ''.'' then dropWhile is_digit (tl r) else r);
          m = dec_value (ip @ fp); sh = - int (length fp)
      in if ip = [] \<and> fp = [] then None
         else if r2 = [] then Some (m, sh)
         else if hd r2 = CHR ''e'' \<or> hd r2 = CHR ''E''
              then map_option (\<lambda>x. (m, sh + x)) (parse_exponent (tl r2))
              else None)"

definition decimal_double :: "int \<times> int \<Rightarrow> jsnum" where
  "decimal_double me =
     (case me of (m, x) \<Rightarrow>
        if 0 \<le> x then to_double (m * 10 ^ nat x) 1 else to_double m (10 ^ nat (- x)))"

text \<open>A literal with a base prefix, \<open>0x\<close>, \<open>0o\<close> or \<open>0b\<close>.\<close>

definition parse_prefixed :: "string \<Rightarrow> jsnum option" where
  "parse_prefixed s =
     (let ds = drop 2 s;
          radix = (if startsWith s ''0x'' \<or> startsWith s ''0X'' then 16
                   else if startsWith s ''0o'' \<or> startsWith s ''0O'' then 8
                   else if startsWith s ''0b'' \<or> startsWith s ''0B'' then 2 else 0);
          vals = map hex_val ds
      in if radix = 0 then None
         else if ds = [] \<or> (\<exists>v \<in> set vals. v = None \<or> radix \<le> the v) then Some NaN
         else Some (to_double (digits_value radix (map the vals)) 1))"

text \<open>\<open>Number(s)\<close>.\<close>

definition js_Number :: "string \<Rightarrow> jsnum" where
  "js_Number s =
     (let t = trim s;
          neg = startsWith t ''-'';
          u = (if startsWith t ''-'' \<or> startsWith t ''+'' then tl t else t)
      in if t = [] then Fin 0 0
         else case parse_prefixed t of Some v \<Rightarrow> v
         | None \<Rightarrow>
             (let v = (if u = ''Infinity'' then PosInf
                       else case parse_decimal u of None \<Rightarrow> NaN | Some me \<Rightarrow> decimal_double me)
              in if neg then num_neg v else v))"

text \<open>\<open>parseInt(s, 16)\<close>: the longest prefix of hex digits counts, the rest is ignored.\<close>

definition parseInt16 :: "string \<Rightarrow> jsnum" where
  "parseInt16 s =
     (let t = trimStart s;
          neg = startsWith t ''-'';
          u = (if startsWith t ''-'' \<or> startsWith t ''+'' then tl t else t);
          v = (if startsWith u ''0x'' \<or> startsWith u ''0X'' then drop 2 u else u);
          ds = takeWhile is_hex v
      in if ds = [] then NaN
         else (if neg then num_neg (to_double (hex_value ds) 1) else to_double (hex_value ds) 1))"

section \<open>Printing\<close>

text \<open>\<open>String(n)\<close> for a natural number below \<open>10 ^ 21\<close>.\<close>

fun show_nat :: "nat \<Rightarrow> string" where
  "show_nat n = (if n < 10 then [unit_char (48 + n)] else show_nat (n div 10) @ [unit_char (48 + n mod 10)])"

declare show_nat.simps [simp del]

definition hex_char :: "nat \<Rightarrow> char" where
  "hex_char d = unit_char (if d < 10 then 48 + d else 87 + d)"

text \<open>\<open>buffer.toString("hex")\<close>.\<close>

definition show_hex :: "bytes \<Rightarrow> string" where
  "show_hex bs = concat (map (\<lambda>b. [hex_char (unat b div 16), hex_char (unat b mod 16)]) bs)"

section \<open>Facts\<close>

text \<open>Integers below \<open>2 ^ 53\<close> are exact.\<close>

lemma bit_count_le: "n < 2 ^ k \<Longrightarrow> bit_count n \<le> int k"
proof (induction k arbitrary: n)
  case 0
  then show ?case by (subst bit_count.simps) simp
next
  case (Suc k)
  then have "n div 2 < 2 ^ k" by simp
  then have "bit_count (n div 2) \<le> int k" by (rule Suc.IH)
  then show ?case by (subst bit_count.simps) simp
qed

lemma exp_of_le: "exp_of a b \<le> bit_count a - bit_count b"
  by (simp add: exp_of_def Let_def)

lemma round_half_even_one [simp]: "round_half_even n 1 = n"
  by (simp add: round_half_even_def)

lemma mk_fin_mult: "mk_fin (n * 2 ^ k) k = Fin n 0"
  by (simp add: mk_fin_def)

lemma to_double_small:
  assumes "0 \<le> n" "n < 2 ^ 53"
  shows "to_double n 1 = Fin n 0"
proof -
  have one: "bit_count 1 = 1" by (subst bit_count.simps, subst bit_count.simps) simp
  have "bit_count n \<le> 53" using bit_count_le [of n 53] assms by simp
  then have e: "exp_of n 1 \<le> 52" using exp_of_le [of n 1] one by linarith
  define u where "u = max (exp_of n 1 - 52) (- 1074)"
  have "u \<le> 0" using e by (simp add: u_def)
  have "n < 2 ^ 1024" using assms(2) by (rule less_le_trans) simp
  show ?thesis
  proof (cases "u = 0")
    case True
    with \<open>n < 2 ^ 1024\<close> show ?thesis by (simp add: to_double_def u_def [symmetric])
  next
    case False
    with \<open>u \<le> 0\<close> show ?thesis by (simp add: to_double_def u_def [symmetric] mk_fin_mult)
  qed
qed

lemma num_of_int_small:
  assumes "\<bar>n\<bar> < 2 ^ 53"
  shows "num_of_int n = Fin n 0"
  using assms to_double_small [of n] to_double_small [of "- n"] by (simp add: num_of_int_def)

lemma isInteger_Fin0 [simp]: "isInteger (Fin n 0)" by simp

lemma num_eq_Fin0 [simp]: "num_eq (Fin m 0) (Fin n 0) \<longleftrightarrow> m = n" by simp

lemma num_less_Fin0 [simp]: "num_less (Fin m 0) (Fin n 0) \<longleftrightarrow> m < n" by simp

lemma num_trunc_Fin0 [simp]: "num_trunc (Fin n 0) = n" by simp

lemma to_int32_Fin0 [simp]: "to_int32 (Fin n 0) = word_of_int n"
  by (simp add: to_int32_def)

text \<open>Decimal text and \<open>Number\<close> are inverse on the naturals below \<open>2 ^ 53\<close>.\<close>

lemma digits_value_snoc: "digits_value b (ds @ [d]) = digits_value b ds * b + d"
  by (simp add: digits_value_def)

lemma digits_value_nonneg: "0 \<le> b \<Longrightarrow> \<forall>d \<in> set ds. 0 \<le> d \<Longrightarrow> 0 \<le> digits_value b ds"
  by (induction ds rule: rev_induct) (auto simp: digits_value_snoc digits_value_def)

lemma digit_char:
  "d < 10 \<Longrightarrow> is_digit (unit_char (48 + d))"
  "d < 10 \<Longrightarrow> digit_val (unit_char (48 + d)) = int d"
  by (simp_all add: is_digit_def digit_val_def)

lemma show_nat_nonempty [simp]: "show_nat n \<noteq> []"
  by (subst show_nat.simps) simp

lemma show_nat_digits: "\<forall>c \<in> set (show_nat n). is_digit c"
proof (induction n rule: show_nat.induct)
  case (1 n)
  show ?case
  proof (cases "n < 10")
    case True
    then show ?thesis by (subst show_nat.simps) (simp add: digit_char)
  next
    case False
    with 1 show ?thesis by (subst show_nat.simps) (auto simp: digit_char)
  qed
qed

lemma dec_value_show_nat: "dec_value (show_nat n) = int n"
proof (induction n rule: show_nat.induct)
  case (1 n)
  show ?case
  proof (cases "n < 10")
    case True
    then show ?thesis
      by (subst show_nat.simps) (simp add: dec_value_def digits_value_def digit_char)
  next
    case False
    with 1 have "dec_value (show_nat (n div 10)) = int (n div 10)" by simp
    moreover have "dec_value (show_nat n) = dec_value (show_nat (n div 10)) * 10 + int (n mod 10)"
      using False by (subst show_nat.simps) (simp add: dec_value_def digits_value_snoc digit_char)
    ultimately show ?thesis by (simp add: zdiv_int zmod_int)
  qed
qed

lemma digit_not_special:
  assumes "is_digit c"
  shows "\<not> is_space c" "c \<noteq> CHR ''.''" "c \<noteq> CHR ''-''" "c \<noteq> CHR ''+''" "c \<noteq> CHR '':''"
    "c \<notin> set ''xXoObB''"
  using assms by (auto simp: is_digit_def is_space_def code_unit_def)

lemma parse_decimal_digits:
  assumes "s \<noteq> []" "\<forall>c \<in> set s. is_digit c"
  shows "parse_decimal s = Some (dec_value s, 0)"
proof -
  have tw: "takeWhile is_digit s = s" and dw: "dropWhile is_digit s = []"
    using assms(2) by (simp_all add: takeWhile_eq_all_conv)
  from assms(1) show ?thesis by (simp add: parse_decimal_def startsWith_def Let_def tw dw)
qed

lemma parse_prefixed_digits:
  assumes "\<forall>c \<in> set s. is_digit c"
  shows "parse_prefixed s = None"
proof -
  have "\<not> startsWith s [a, b]" if "b \<in> set ''xXoObB''" for a b
    using that assms digit_not_special(6) by (cases s; cases "tl s") (auto simp: startsWith_def)
  then show ?thesis by (simp add: parse_prefixed_def)
qed

lemma js_Number_digits:
  assumes "s \<noteq> []" "\<forall>c \<in> set s. is_digit c"
  shows "js_Number s = to_double (dec_value s) 1"
proof -
  have t: "trim s = s" using assms(2) digit_not_special(1) by (intro trim_no_space) auto
  have sg: "\<not> startsWith s ''-''" "\<not> startsWith s ''+''"
    using assms digit_not_special(3,4) by (cases s; auto simp: startsWith_def)+
  have inf: "s \<noteq> ''Infinity''"
    using assms by (auto simp: is_digit_def code_unit_def)
  show ?thesis
    using assms t sg inf
    by (simp add: js_Number_def Let_def parse_prefixed_digits parse_decimal_digits decimal_double_def)
qed

lemma js_Number_show_nat:
  "n < 2 ^ 53 \<Longrightarrow> js_Number (show_nat n) = Fin (int n) 0"
  using to_double_small [of "int n"]
  by (simp add: js_Number_digits show_nat_digits dec_value_show_nat)

text \<open>Octets in dotted notation.\<close>

definition dotted :: "nat list \<Rightarrow> string" where
  "dotted ns = join ''.'' (map show_nat ns)"

lemma dotted_split: "ns \<noteq> [] \<Longrightarrow> split_char (CHR ''.'') (dotted ns) = map show_nat ns"
  unfolding dotted_def
  by (rule split_char_join) (use show_nat_digits digit_not_special(2) in \<open>fastforce+\<close>)

lemma show_nat_length: "n < 256 \<Longrightarrow> length (show_nat n) \<le> 3"
  by (subst show_nat.simps, subst show_nat.simps, subst show_nat.simps) auto

text \<open>Hexadecimal text and \<open>parseInt\<close>.\<close>

lemma hex_char_cases: "d < 16 \<Longrightarrow> code_unit (hex_char d) = (if d < 10 then 48 + d else 87 + d)"
  by (simp add: hex_char_def)

lemma hex_val_hex_char [simp]: "d < 16 \<Longrightarrow> hex_val (hex_char d) = Some (int d)"
  by (simp add: hex_val_def hex_char_cases)

lemma hex_char_plain:
  assumes "d < 16"
  shows "\<not> is_space (hex_char d)" "hex_char d \<noteq> CHR ''-''" "hex_char d \<noteq> CHR ''+''"
    "hex_char d \<noteq> CHR ''x''" "hex_char d \<noteq> CHR ''X''" "hex_char d \<noteq> CHR '':''"
proof -
  have "code_unit (hex_char d) \<noteq> n" if "n \<in> {9, 10, 11, 12, 13, 32, 43, 45, 58, 88, 120, 160}" for n
    using that assms by (auto simp: hex_char_cases)
  from this [of 9] this [of 10] this [of 11] this [of 12] this [of 13] this [of 32] this [of 160]
    this [of 45] this [of 43] this [of 120] this [of 88] this [of 58]
  show "\<not> is_space (hex_char d)" "hex_char d \<noteq> CHR ''-''" "hex_char d \<noteq> CHR ''+''"
    "hex_char d \<noteq> CHR ''x''" "hex_char d \<noteq> CHR ''X''" "hex_char d \<noteq> CHR '':''"
    by (auto simp: is_space_def code_unit_def)
qed

definition hex16 :: "byte \<Rightarrow> byte \<Rightarrow> string" where
  "hex16 a b = show_hex [a, b]"

lemma nibbles: "unat (b :: byte) div 16 < 16" "unat b mod 16 < 16"
  using byte_less [of b] by auto

lemma parseInt16_hex16: "parseInt16 (hex16 a b) = Fin (int (unat a) * 256 + int (unat b)) 0"
proof -
  define s where "s = hex16 a b"
  have s: "s = [hex_char (unat a div 16), hex_char (unat a mod 16), hex_char (unat b div 16), hex_char (unat b mod 16)]"
    by (simp add: s_def hex16_def show_hex_def)
  have "trimStart s = s" using hex_char_plain(1) nibbles by (simp add: s trimStart_def)
  moreover have "\<not> startsWith s ''-''" "\<not> startsWith s ''+''" "\<not> startsWith s ''0x''" "\<not> startsWith s ''0X''"
    using hex_char_plain(2-5) nibbles by (auto simp: s startsWith_def simp del: hex_char_plain) (metis nibbles hex_char_plain)+
  moreover have "takeWhile is_hex s = s" using nibbles by (simp add: s is_hex_def)
  moreover have "hex_value s = int (unat a) * 256 + int (unat b)"
    using nibbles by (simp add: s hex_value_def digits_value_def zdiv_int zmod_int algebra_simps)
  moreover have "int (unat a) * 256 + int (unat b) < 2 ^ 53"
    using uint_bounded [of a] uint_bounded [of b] by simp
  ultimately show ?thesis
    unfolding s_def [symmetric]
    by (simp add: parseInt16_def Let_def to_double_small s)
qed

end
