(* ===== verification/JsValue.thy ===== *)
theory JsValue
  imports JsNumber
begin

text \<open>
  Untyped JavaScript values as they leave \<open>yaml.load\<close>, \<open>JSON.parse\<close> and the settings
  service: the subscription document, its nodes and groups, and request bodies. An object is
  an association list in insertion order. Only own properties are modelled: a lookup of an
  absent key is \<open>undefined\<close>, also for the names every object inherits.
\<close>

datatype jsval =
    JUndef
  | JNull
  | JBool bool
  | JNum jsnum
  | JStr string
  | JArr "jsval list"
  | JObj "(string \<times> jsval) list"

text \<open>\<open>v === undefined || v === null\<close>, the test of \<open>??\<close> and \<open>?.\<close>.\<close>

definition is_nullish :: "jsval \<Rightarrow> bool" where
  "is_nullish v \<longleftrightarrow> v = JUndef \<or> v = JNull"

text \<open>
  \<open>v?.key\<close>: properties of an object. Every other value the program indexes (strings, numbers,
  booleans, arrays) has none of the keys it asks for, and \<open>?.\<close> on null or undefined is
  undefined.
\<close>

definition get_prop :: "jsval \<Rightarrow> string \<Rightarrow> jsval" where
  "get_prop v k =
     (case v of JObj ps \<Rightarrow> (case map_of ps k of Some x \<Rightarrow> x | None \<Rightarrow> JUndef) | _ \<Rightarrow> JUndef)"

text \<open>\<open>a ?? b\<close>.\<close>

definition or_else :: "jsval \<Rightarrow> jsval \<Rightarrow> jsval" where
  "or_else a b = (if is_nullish a then b else a)"

definition is_str :: "jsval \<Rightarrow> bool" where
  "is_str v = (case v of JStr _ \<Rightarrow> True | _ \<Rightarrow> False)"

definition str_of :: "jsval \<Rightarrow> string" where
  "str_of v = (case v of JStr s \<Rightarrow> s | _ \<Rightarrow> [])"

definition is_arr :: "jsval \<Rightarrow> bool" where
  "is_arr v = (case v of JArr _ \<Rightarrow> True | _ \<Rightarrow> False)"

definition elems :: "jsval \<Rightarrow> jsval list" where
  "elems v = (case v of JArr xs \<Rightarrow> xs | _ \<Rightarrow> [])"

text \<open>\<open>typeof v === "object"\<close> (true of null and of arrays).\<close>

definition is_object :: "jsval \<Rightarrow> bool" where
  "is_object v = (case v of JNull \<Rightarrow> True | JArr _ \<Rightarrow> True | JObj _ \<Rightarrow> True | _ \<Rightarrow> False)"

text \<open>The strings among some values, as \<open>filter((x) => typeof x === "string")\<close> keeps them.\<close>

definition strings_of :: "jsval list \<Rightarrow> string list" where
  "strings_of vs = map str_of (filter is_str vs)"

lemma strings_of_simps [simp]:
  "strings_of [] = []"
  "strings_of (JStr s # vs) = s # strings_of vs"
  "strings_of (vs @ ws) = strings_of vs @ strings_of ws"
  "\<not> is_str v \<Longrightarrow> strings_of (v # vs) = strings_of vs"
  by (simp_all add: strings_of_def is_str_def str_of_def)

lemma strings_of_map_JStr [simp]: "strings_of (map JStr ss) = ss"
  by (induction ss) auto

lemma set_strings_of: "s \<in> set (strings_of vs) \<longleftrightarrow> JStr s \<in> set vs"
proof (induction vs)
  case (Cons v vs)
  then show ?case by (cases v) (auto simp: strings_of_def is_str_def str_of_def)
qed simp

lemma get_prop_simps [simp]:
  "get_prop (JObj []) k = JUndef"
  "get_prop (JObj ((k', v) # ps)) k = (if k = k' then v else get_prop (JObj ps) k)"
  "get_prop JNull k = JUndef"
  "get_prop JUndef k = JUndef"
  "get_prop (JStr s) k = JUndef"
  by (auto simp: get_prop_def)

text \<open>
  \<open>String(v)\<close>. \<open>num_str\<close> is the decimal representation the language gives a number
  (\<open>Number::toString\<close>, shortest round trip), which is left open here.
\<close>

fun js_String :: "(jsnum \<Rightarrow> string) \<Rightarrow> jsval \<Rightarrow> string" where
  "js_String num_str JUndef = ''undefined''"
| "js_String num_str JNull = ''null''"
| "js_String num_str (JBool b) = (if b then ''true'' else ''false'')"
| "js_String num_str (JNum n) = num_str n"
| "js_String num_str (JStr s) = s"
| "js_String num_str (JObj ps) = ''[object Object]''"
| "js_String num_str (JArr vs) =
     join '','' (map (\<lambda>v. if is_nullish v then [] else js_String num_str v) vs)"

text \<open>\<open>String(v ?? d)\<close> for a string default.\<close>

definition string_or :: "(jsnum \<Rightarrow> string) \<Rightarrow> jsval \<Rightarrow> string \<Rightarrow> string" where
  "string_or num_str v d = js_String num_str (or_else v (JStr d))"

lemma string_or_simps [simp]:
  "string_or f JUndef d = d" "string_or f JNull d = d" "string_or f (JStr s) d = s"
  by (simp_all add: string_or_def or_else_def is_nullish_def)

text \<open>The value as a condition.\<close>

fun truthy :: "jsval \<Rightarrow> bool" where
  "truthy JUndef = False"
| "truthy JNull = False"
| "truthy (JBool b) = b"
| "truthy (JNum n) = (n \<noteq> NaN \<and> \<not> num_eq n (Fin 0 0))"
| "truthy (JStr s) = (s \<noteq> [])"
| "truthy (JArr vs) = True"
| "truthy (JObj ps) = True"

text \<open>\<open>a ?? b ?? c\<close>.\<close>

fun first_of :: "jsval list \<Rightarrow> jsval" where
  "first_of [] = JUndef"
| "first_of [v] = v"
| "first_of (v # vs) = or_else v (first_of vs)"

end
