(* ===== verification/Rules.thy ===== *)
theory Rules
  imports JsValue
begin

text \<open>
  The rule engine of \<open>lib/core/rules.js\<close>: address parsing, the embedded tables, the rule
  compiler, the engine and its decision. The embedded tables are data files; they are the
  fields of \<open>cn_data\<close>, an argument of the functions that read them.

  First the definitions in the order of the file, then: rule lists as first-match lookups,
  IPv4 ranges, IPv6 prefixes, label-wise domain suffixes, and the decision as a whole.
\<close>

section \<open>Address literals\<close>

text \<open>\<open>ipv4ToInt\<close>: dotted string to uint32, \<open>None\<close> for null.\<close>

definition octet_ok :: "jsnum \<Rightarrow> bool" where
  "octet_ok x \<longleftrightarrow> isInteger x \<and> \<not> num_less x (Fin 0 0) \<and> \<not> num_less (Fin 255 0) x"

definition ipv4ToInt :: "string \<Rightarrow> int option" where
  "ipv4ToInt ip =
     (let parts = map js_Number (split_char (CHR ''.'') ip)
      in if length parts \<noteq> 4 \<or> (\<exists>p \<in> set parts. \<not> octet_ok p) then None
         else (let v = map num_trunc parts
               in Some (((v ! 0 * 256 + v ! 1) * 256 + v ! 2) * 256 + v ! 3)))"

definition parse_groups :: "string \<Rightarrow> jsnum list" where
  "parse_groups s = map parseInt16 (split_char (CHR '':'') s)"

text \<open>\<open>ipv6ToGroups\<close>: eight groups, \<open>None\<close> for null. A third piece after a second \<open>::\<close> is dropped.\<close>

definition ipv6ToGroups :: "string \<Rightarrow> jsnum list option" where
  "ipv6ToGroups ip =
     (if includes_str ip ''::''
      then (let pieces = split_two (CHR '':'') (CHR '':'') ip; left = pieces ! 0; right = pieces ! 1;
                leftGroups = (if left \<noteq> [] then parse_groups left else []);
                rightGroups = (if right \<noteq> [] then parse_groups right else [])
            in if length leftGroups + length rightGroups > 7
                  \<or> (\<exists>g \<in> set leftGroups. isNaN g) \<or> (\<exists>g \<in> set rightGroups. isNaN g)
               then None
               else Some (leftGroups
                          @ replicate (8 - length leftGroups - length rightGroups) (Fin 0 0)
                          @ rightGroups))
      else (let groups = parse_groups ip
            in if length groups \<noteq> 8 \<or> (\<exists>g \<in> set groups. isNaN g) then None else Some groups))"

section \<open>The embedded tables\<close>

text \<open>
  \<open>CN_SUFFIXES\<close>, \<open>CN_CIDRS4\<close> and the rows of \<open>CN_CIDRS6\<close> after parsing.
\<close>

record cidr6 =
  network :: "jsnum list"
  prefix6 :: jsnum

record cn_data =
  cn_suffixes :: "string list"
  cn_cidrs4 :: "(int \<times> int) list"
  cn_cidrs6 :: "cidr6 list"

text \<open>
  A store \<open>groups[i] = v\<close> into an array: a negative index is a property and no element, an
  index past the end leaves holes (read as \<open>undefined\<close>, here \<open>NaN\<close>).
\<close>

definition js_set :: "jsnum list \<Rightarrow> int \<Rightarrow> jsnum \<Rightarrow> jsnum list" where
  "js_set xs i v =
     (if i < 0 then xs
      else if nat i < length xs then xs[nat i := v]
      else xs @ replicate (nat i - length xs) NaN @ [v])"

definition store_groups :: "jsnum list \<Rightarrow> int \<Rightarrow> string list \<Rightarrow> jsnum list" where
  "store_groups groups off parts =
     fold (\<lambda>(i, part) gs. if part \<noteq> [] then js_set gs (off + int i) (parseInt16 part) else gs)
       (enumerate 0 parts) groups"

text \<open>One row \<open>"240e::/20"\<close> of the IPv6 table (lines 31 to 54).\<close>

definition parse_cidr6 :: "string \<Rightarrow> cidr6" where
  "parse_cidr6 cidr =
     (let slash = index_of (CHR ''/'') cidr;
          net = slice_before cidr slash;
          parts = split_char (CHR '':'') net;
          zero = replicate 8 (Fin 0 0);
          groups =
            (if [] \<in> set parts
             then (let left = takeWhile (\<lambda>p. p \<noteq> []) parts;
                       right = drop (Suc (length left)) parts
                   in store_groups (store_groups zero 0 left) (8 - int (length right)) right)
             else fold (\<lambda>(i, part) gs. js_set gs (int i) (parseInt16 part)) (enumerate 0 parts) zero)
      in \<lparr>network = groups, prefix6 = js_Number (slice_after cidr slash)\<rparr>)"

definition group_at :: "jsnum list \<Rightarrow> nat \<Rightarrow> jsnum" where
  "group_at gs i = (if i < length gs then gs ! i else NaN)"

text \<open>The comparator of the sort (lines 54 to 57) as the order it defines.\<close>

definition cidr6_le :: "cidr6 \<Rightarrow> cidr6 \<Rightarrow> bool" where
  "cidr6_le a b =
     (case find (\<lambda>i. \<not> num_eq (group_at (network a) i) (group_at (network b) i)) [0..<8] of
        Some i \<Rightarrow> num_less (group_at (network a) i) (group_at (network b) i)
      | None \<Rightarrow> \<not> num_less (prefix6 b) (prefix6 a))"

fun insert_row :: "cidr6 \<Rightarrow> cidr6 list \<Rightarrow> cidr6 list" where
  "insert_row x [] = [x]"
| "insert_row x (y # ys) = (if cidr6_le y x then y # insert_row x ys else x # y # ys)"

definition load_cidrs6 :: "string list \<Rightarrow> cidr6 list" where
  "load_cidrs6 rows = fold insert_row (map parse_cidr6 rows) []"

text \<open>
  The mask \<open>prefix === 0 ? 0 : (-1 << (32 - prefix)) >>> 0\<close>. The shift count is taken modulo
  32; the subtraction is a binary64 subtraction.
\<close>

definition mask32 :: "int \<Rightarrow> 32 word" where
  "mask32 p = (if p = 0 then 0 else push_bit (nat (num_trunc (num_of_int (32 - p)) mod 32)) (- 1))"

definition masked :: "int \<Rightarrow> int \<Rightarrow> 32 word" where
  "masked ip p = and (word_of_int ip) (mask32 p)"

text \<open>\<open>inCnCidr4\<close>.\<close>

fun inCnCidr4 :: "(int \<times> int) list \<Rightarrow> int \<Rightarrow> bool" where
  "inCnCidr4 [] ipInt = False"
| "inCnCidr4 ((base, pfx) # rows) ipInt =
     (if ipInt < base then False
      else if masked ipInt pfx = masked base pfx then True
      else inCnCidr4 rows ipInt)"

text \<open>\<open>(groups[bit >> 4] >> (15 - (bit & 15))) & 1\<close>.\<close>

definition group_bit :: "jsnum list \<Rightarrow> nat \<Rightarrow> bool" where
  "group_bit gs b = bit (to_int32 (group_at gs (b div 16))) (15 - b mod 16)"

definition bits_match :: "jsnum list \<Rightarrow> jsnum list \<Rightarrow> nat \<Rightarrow> bool" where
  "bits_match gs ns n \<longleftrightarrow> (\<forall>b \<in> set [0..<n]. group_bit gs b = group_bit ns b)"

text \<open>
  Iterations of \<open>for (let bit = 0; bit < prefix; bit++)\<close>. The bound of a table row is a decimal
  text, so it is finite (a loop to Infinity does not occur and is given no meaning here).
\<close>

fun loop_bound :: "jsnum \<Rightarrow> nat" where
  "loop_bound (Fin m k) = nat (- ((- m) div 2 ^ k))"
| "loop_bound _ = 0"

text \<open>\<open>inCnCidr6\<close>: rows before the address are skipped unless all eight groups are equal.\<close>

fun inCnCidr6 :: "cidr6 list \<Rightarrow> jsnum list \<Rightarrow> bool" where
  "inCnCidr6 [] groups = False"
| "inCnCidr6 (row # rows) groups =
     (case find (\<lambda>i. \<not> num_eq (group_at groups i) (group_at (network row) i)) [0..<8] of
        Some i \<Rightarrow>
          if num_less (group_at groups i) (group_at (network row) i) then False
          else inCnCidr6 rows groups
      | None \<Rightarrow>
          if bits_match groups (network row) (loop_bound (prefix6 row)) then True
          else inCnCidr6 rows groups)"

section \<open>The rule compiler\<close>

datatype action = Direct | Proxy | Reject

datatype host_matcher = HDomain string | HSuffix string | HKeyword string | HAny

datatype compiled =
    HostRule host_matcher action
  | IpRule "int \<times> 32 word" action
  | Ip6Rule "jsnum list \<times> int" action

fun match_host_rule :: "host_matcher \<Rightarrow> string \<Rightarrow> bool" where
  "match_host_rule (HDomain param) host \<longleftrightarrow> host = toLowerCase param"
| "match_host_rule (HSuffix param) host \<longleftrightarrow>
     host = toLowerCase param \<or> endsWith host (''.'' @ toLowerCase param)"
| "match_host_rule (HKeyword param) host \<longleftrightarrow> includes_str host (toLowerCase param)"
| "match_host_rule HAny host \<longleftrightarrow> True"

fun match_ip_rule :: "int \<times> 32 word \<Rightarrow> int \<Rightarrow> bool" where
  "match_ip_rule (base, msk) ipInt \<longleftrightarrow> and (word_of_int ipInt) msk = and (word_of_int base) msk"

fun match_ip6_rule :: "jsnum list \<times> int \<Rightarrow> jsnum list \<Rightarrow> bool" where
  "match_ip6_rule (groups, pfx) candidate \<longleftrightarrow> bits_match candidate groups (nat pfx)"

text \<open>The action named by the last field of a rule line.\<close>

definition rule_action :: "string \<Rightarrow> action option" where
  "rule_action target =
     (if target = ''DIRECT'' then Some Direct
      else if target = ''PROXY'' then Some Proxy
      else if target = ''REJECT'' \<or> target = ''REJECT-DROP'' then Some Reject else None)"

text \<open>\<open>compileRule\<close> on a string, \<open>None\<close> for null.\<close>

definition compile_typed :: "string \<Rightarrow> string \<Rightarrow> action \<Rightarrow> compiled option" where
  "compile_typed type param action =
     (let slash = index_of (CHR ''/'') param; pfx = js_Number (slice_after param slash) in
      if type = ''DOMAIN'' then Some (HostRule (HDomain param) action)
      else if type = ''DOMAIN-SUFFIX'' then Some (HostRule (HSuffix param) action)
      else if type = ''DOMAIN-KEYWORD'' then Some (HostRule (HKeyword param) action)
      else if type = ''IP-CIDR'' then
        (case ipv4ToInt (slice_before param slash) of
           None \<Rightarrow> None
         | Some base \<Rightarrow>
             if \<not> isInteger pfx then None
             else Some (IpRule (base, mask32 (num_trunc pfx)) action))
      else if type = ''IP-CIDR6'' then
        (case ipv6ToGroups (slice_before param slash) of
           None \<Rightarrow> None
         | Some groups \<Rightarrow>
             if \<not> isInteger pfx then None
             else Some (Ip6Rule (groups, num_trunc pfx) action))
      else if type = ''MATCH'' then Some (HostRule HAny action)
      else None)"

definition compileRule :: "string \<Rightarrow> compiled option" where
  "compileRule line =
     (let trimmed = trim line in
      if trimmed = [] \<or> startsWith trimmed ''#'' \<or> startsWith trimmed ''//'' then None
      else
        (let parts = map trim (split_char (CHR '','') trimmed);
             target = toUpperCase (last parts);
             rest = butlast parts;
             type = toUpperCase (case rest of [] \<Rightarrow> [] | t # _ \<Rightarrow> t);
             param = join '','' (tl rest)
         in case rule_action target of
              None \<Rightarrow> None
            | Some action \<Rightarrow> compile_typed type param action))"

section \<open>The engine\<close>

record engine =
  host_rules :: "(host_matcher \<times> action) list"
  ip_rules :: "((int \<times> 32 word) \<times> action) list"
  ip6_rules :: "((jsnum list \<times> int) \<times> action) list"

definition empty_engine :: engine where
  "empty_engine = \<lparr>host_rules = [], ip_rules = [], ip6_rules = []\<rparr>"

definition add_line :: "string \<Rightarrow> engine \<Rightarrow> engine" where
  "add_line line e =
     (case compileRule line of
        None \<Rightarrow> e
      | Some (IpRule m a) \<Rightarrow> e\<lparr>ip_rules := ip_rules e @ [(m, a)]\<rparr>
      | Some (Ip6Rule m a) \<Rightarrow> e\<lparr>ip6_rules := ip6_rules e @ [(m, a)]\<rparr>
      | Some (HostRule m a) \<Rightarrow> e\<lparr>host_rules := host_rules e @ [(m, a)]\<rparr>)"

definition rule_lines :: "jsval list \<Rightarrow> string list \<Rightarrow> jsval list \<Rightarrow> string list" where
  "rule_lines extraRules excludeRules subscriptionRules =
     strings_of extraRules
     @ filter (\<lambda>line. \<not> (\<exists>excluded \<in> set excludeRules. includes_str line excluded))
         (strings_of subscriptionRules)"

text \<open>The constructor.\<close>

definition mk_engine :: "jsval list \<Rightarrow> string list \<Rightarrow> jsval list \<Rightarrow> engine" where
  "mk_engine extraRules excludeRules subscriptionRules =
     fold add_line (rule_lines extraRules excludeRules subscriptionRules) empty_engine"

text \<open>The three loops \<open>for (const rule of rules) if (rule.match(x)) return rule.action\<close>.\<close>

fun host_lookup :: "(host_matcher \<times> action) list \<Rightarrow> string \<Rightarrow> action option" where
  "host_lookup [] host = None"
| "host_lookup ((m, a) # rules) host = (if match_host_rule m host then Some a else host_lookup rules host)"

fun ip_lookup :: "((int \<times> 32 word) \<times> action) list \<Rightarrow> int \<Rightarrow> action option" where
  "ip_lookup [] ipInt = None"
| "ip_lookup ((m, a) # rules) ipInt = (if match_ip_rule m ipInt then Some a else ip_lookup rules ipInt)"

fun ip6_lookup :: "((jsnum list \<times> int) \<times> action) list \<Rightarrow> jsnum list \<Rightarrow> action option" where
  "ip6_lookup [] groups = None"
| "ip6_lookup ((m, a) # rules) groups = (if match_ip6_rule m groups then Some a else ip6_lookup rules groups)"

definition matchHost :: "engine \<Rightarrow> string \<Rightarrow> action option" where
  "matchHost e host = host_lookup (host_rules e) host"

definition matchIp :: "cn_data \<Rightarrow> engine \<Rightarrow> int \<Rightarrow> action option" where
  "matchIp d e ipInt =
     (case ip_lookup (ip_rules e) ipInt of
        Some a \<Rightarrow> Some a
      | None \<Rightarrow> if inCnCidr4 (cn_cidrs4 d) ipInt then Some Direct else None)"

definition matchIp6 :: "cn_data \<Rightarrow> engine \<Rightarrow> jsnum list \<Rightarrow> action option" where
  "matchIp6 d e groups =
     (case ip6_lookup (ip6_rules e) groups of
        Some a \<Rightarrow> Some a
      | None \<Rightarrow> if inCnCidr6 (cn_cidrs6 d) groups then Some Direct else None)"

text \<open>The loop over the dots of a host name (lines 232 to 234).\<close>

function cn_parent :: "string list \<Rightarrow> string \<Rightarrow> bool" where
  "cn_parent sfxs host =
     (case index_of (CHR ''.'') host of
        None \<Rightarrow> False
      | Some dot \<Rightarrow>
          if drop (Suc dot) host \<in> set sfxs then True
          else cn_parent sfxs (drop (Suc dot) host))"
  by pat_completeness auto
termination
  by (relation "measure (\<lambda>(sfxs, host). length host)") (auto simp: index_of_Some)

declare cn_parent.simps [simp del]

text \<open>\<open>decide\<close>.\<close>

definition decide_name :: "cn_data \<Rightarrow> engine \<Rightarrow> string \<Rightarrow> action" where
  "decide_name d e host =
     (case matchHost e host of
        Some a \<Rightarrow> a
      | None \<Rightarrow>
          if host \<in> set (cn_suffixes d) \<or> endsWith host ''.cn'' then Direct
          else if cn_parent (cn_suffixes d) host then Direct else Proxy)"

definition decide :: "cn_data \<Rightarrow> engine \<Rightarrow> string \<Rightarrow> action" where
  "decide d e rawHost =
     (let host = trim (toLowerCase rawHost) in
      case ipv4ToInt host of
        Some ip4 \<Rightarrow> (case matchIp d e ip4 of Some a \<Rightarrow> a | None \<Rightarrow> Proxy)
      | None \<Rightarrow>
          (case ipv6ToGroups host of
             Some ip6 \<Rightarrow> (case matchIp6 d e ip6 of Some a \<Rightarrow> a | None \<Rightarrow> Proxy)
           | None \<Rightarrow> decide_name d e host))"

section \<open>Rule lists: the first match decides\<close>

text \<open>
  The contract the three loops share. The client lemmas (priority of what comes first, what
  shadows what) are proved once.
\<close>

locale first_match =
  fixes matches :: "'m \<Rightarrow> 'k \<Rightarrow> bool"
    and lookup :: "('m \<times> 'a) list \<Rightarrow> 'k \<Rightarrow> 'a option"
  assumes lookup_Nil: "lookup [] k = None"
    and lookup_Cons: "lookup ((m, a) # rs) k = (if matches m k then Some a else lookup rs k)"
begin

lemma lookup_append:
  "lookup (rs @ ss) k = (case lookup rs k of Some a \<Rightarrow> Some a | None \<Rightarrow> lookup ss k)"
  by (induction rs) (auto simp: lookup_Nil lookup_Cons split: option.splits)

lemma lookup_None: "lookup rs k = None \<longleftrightarrow> (\<forall>r \<in> set rs. \<not> matches (fst r) k)"
proof (induction rs)
  case (Cons r rs)
  then show ?case by (cases r) (simp add: lookup_Cons)
qed (simp add: lookup_Nil)

lemma lookup_SomeD:
  "lookup rs k = Some a \<Longrightarrow>
   \<exists>xs m ys. rs = xs @ (m, a) # ys \<and> matches m k \<and> (\<forall>r \<in> set xs. \<not> matches (fst r) k)"
proof (induction rs)
  case (Cons r rs)
  obtain m b where r: "r = (m, b)" by (cases r)
  show ?case
  proof (cases "matches m k")
    case True
    with Cons.prems r have "r # rs = [] @ (m, a) # rs" by (simp add: lookup_Cons)
    with True show ?thesis by fastforce
  next
    case False
    with Cons r obtain xs m' ys where "rs = xs @ (m', a) # ys" "matches m' k"
      "\<forall>r \<in> set xs. \<not> matches (fst r) k"
      by (auto simp: lookup_Cons)
    with False r have "r # rs = (r # xs) @ (m', a) # ys \<and> matches m' k
      \<and> (\<forall>r \<in> set (r # xs). \<not> matches (fst r) k)" by simp
    then show ?thesis by blast
  qed
qed (simp add: lookup_Nil)

lemma lookup_first:
  "matches m k \<Longrightarrow> \<forall>r \<in> set xs. \<not> matches (fst r) k \<Longrightarrow> lookup (xs @ (m, a) # ys) k = Some a"
  by (simp add: lookup_append lookup_Cons lookup_None [THEN iffD2])

text \<open>A rule that matches everything hides what follows it.\<close>

lemma lookup_catch_all: "(\<And>k. matches m k) \<Longrightarrow> lookup (xs @ (m, a) # ys) k = lookup (xs @ [(m, a)]) k"
  by (simp add: lookup_append lookup_Cons split: option.splits)

lemma lookup_catch_all_total: "(\<And>k. matches m k) \<Longrightarrow> (m, a) \<in> set rs \<Longrightarrow> lookup rs k \<noteq> None"
  by (metis fst_conv lookup_None)

end

interpretation host: first_match match_host_rule host_lookup
  by unfold_locales simp_all

interpretation ip: first_match match_ip_rule ip_lookup
  by unfold_locales simp_all

interpretation ip6: first_match match_ip6_rule ip6_lookup
  by unfold_locales simp_all

section \<open>What the constructor stores\<close>

definition host_rules_of :: "string list \<Rightarrow> (host_matcher \<times> action) list" where
  "host_rules_of ls =
     concat (map (\<lambda>l. case compileRule l of Some (HostRule m a) \<Rightarrow> [(m, a)] | _ \<Rightarrow> []) ls)"

definition ip_rules_of :: "string list \<Rightarrow> ((int \<times> 32 word) \<times> action) list" where
  "ip_rules_of ls =
     concat (map (\<lambda>l. case compileRule l of Some (IpRule m a) \<Rightarrow> [(m, a)] | _ \<Rightarrow> []) ls)"

definition ip6_rules_of :: "string list \<Rightarrow> ((jsnum list \<times> int) \<times> action) list" where
  "ip6_rules_of ls =
     concat (map (\<lambda>l. case compileRule l of Some (Ip6Rule m a) \<Rightarrow> [(m, a)] | _ \<Rightarrow> []) ls)"

lemmas rules_of_defs = host_rules_of_def ip_rules_of_def ip6_rules_of_def

lemma rules_of_append [simp]:
  "host_rules_of (ls @ ms) = host_rules_of ls @ host_rules_of ms"
  "ip_rules_of (ls @ ms) = ip_rules_of ls @ ip_rules_of ms"
  "ip6_rules_of (ls @ ms) = ip6_rules_of ls @ ip6_rules_of ms"
  by (simp_all add: rules_of_defs)

lemma add_line_rules:
  "host_rules (add_line l e) = host_rules e @ host_rules_of [l]"
  "ip_rules (add_line l e) = ip_rules e @ ip_rules_of [l]"
  "ip6_rules (add_line l e) = ip6_rules e @ ip6_rules_of [l]"
  by (auto simp: add_line_def rules_of_defs split: option.splits compiled.splits)

lemma fold_add_line:
  "host_rules (fold add_line ls e) = host_rules e @ host_rules_of ls
   \<and> ip_rules (fold add_line ls e) = ip_rules e @ ip_rules_of ls
   \<and> ip6_rules (fold add_line ls e) = ip6_rules e @ ip6_rules_of ls"
proof (induction ls arbitrary: e)
  case (Cons l ls)
  show ?case using Cons.IH [of "add_line l e"] by (simp add: add_line_rules rules_of_defs)
qed (simp add: rules_of_defs)

lemma mk_engine_rules:
  "host_rules (mk_engine xs ex ss) = host_rules_of (rule_lines xs ex ss)"
  "ip_rules (mk_engine xs ex ss) = ip_rules_of (rule_lines xs ex ss)"
  "ip6_rules (mk_engine xs ex ss) = ip6_rules_of (rule_lines xs ex ss)"
  by (simp_all add: mk_engine_def fold_add_line empty_engine_def)

lemma rule_line_origin:
  "l \<in> set (rule_lines xs ex ss) \<longleftrightarrow>
     JStr l \<in> set xs \<or> (JStr l \<in> set ss \<and> (\<forall>w \<in> set ex. \<not> includes_str l w))"
  by (auto simp: rule_lines_def set_strings_of)

section \<open>IPv4\<close>

lemma octet_ok_iff: "octet_ok (Fin n 0) \<longleftrightarrow> 0 \<le> n \<and> n \<le> 255"
  by (auto simp: octet_ok_def)

lemma ipv4ToInt_dotted:
  assumes "a < 256" "b < 256" "c < 256" "d < 256"
  shows "ipv4ToInt (dotted [a, b, c, d]) = Some (((int a * 256 + int b) * 256 + int c) * 256 + int d)"
  using assms by (simp add: ipv4ToInt_def dotted_split js_Number_show_nat octet_ok_iff)

lemma octet_trunc: "octet_ok x \<Longrightarrow> 0 \<le> num_trunc x \<and> num_trunc x \<le> 255"
proof (cases x)
  case (Fin m k)
  assume "octet_ok x"
  with Fin obtain q where "m = 2 ^ k * q" "0 \<le> m" "m \<le> 255 * 2 ^ k"
    by (auto simp: octet_ok_def elim: dvdE)
  moreover from this have "0 \<le> q \<and> q \<le> 255" by (simp add: zero_le_mult_iff mult.commute)
  ultimately show ?thesis using Fin by simp
qed (auto simp: octet_ok_def)

lemma ipv4ToInt_range: "ipv4ToInt s = Some n \<Longrightarrow> 0 \<le> n \<and> n < 2 ^ 32"
proof -
  assume s: "ipv4ToInt s = Some n"
  define ps where "ps = map js_Number (split_char (CHR ''.'') s)"
  from s have len: "length ps = 4" and ok: "\<forall>p \<in> set ps. octet_ok p"
    and n: "n = ((map num_trunc ps ! 0 * 256 + map num_trunc ps ! 1) * 256 + map num_trunc ps ! 2) * 256 + map num_trunc ps ! 3"
    by (auto simp: ipv4ToInt_def ps_def Let_def split: if_splits)
  have "0 \<le> num_trunc (ps ! i) \<and> num_trunc (ps ! i) \<le> 255" if "i < 4" for i
    using that len ok octet_trunc by (metis nth_mem)
  from this [of 0] this [of 1] this [of 2] this [of 3] show ?thesis using len n by simp
qed

text \<open>The mask of a prefix length selects the bits above \<open>32 - p\<close>.\<close>

lemma mask32_eq: "1 \<le> p \<Longrightarrow> p \<le> 32 \<Longrightarrow> mask32 p = push_bit (nat (32 - p)) (- 1)"
proof -
  assume p: "1 \<le> p" "p \<le> 32"
  then have "num_trunc (num_of_int (32 - p)) = 32 - p" by (simp add: num_of_int_small)
  moreover have "(32 - p) mod 32 = 32 - p" using p by (intro mod_pos_pos_trivial) auto
  ultimately show ?thesis using p by (simp only: mask32_def) auto
qed

lemma masked_eq_iff:
  assumes "0 \<le> p" "p \<le> 32" "0 \<le> x" "x < 2 ^ 32" "0 \<le> y" "y < 2 ^ 32"
  shows "masked x p = masked y p \<longleftrightarrow> x div 2 ^ nat (32 - p) = y div 2 ^ nat (32 - p)"
proof (cases "p = 0")
  case True
  with assms show ?thesis by (simp add: masked_def mask32_def)
next
  case False
  define k where "k = nat (32 - p)"
  have "masked x p = masked y p \<longleftrightarrow> (\<forall>n < 32. k \<le> n \<longrightarrow> bit x n = bit y n)"
    using False assms
    by (auto simp: masked_def mask32_eq k_def bit_eq_iff [where 'a = "32 word"] bit_and_iff
        bit_not_iff bit_mask_iff bit_word_of_int_iff)
  also have "\<dots> \<longleftrightarrow> (\<forall>n. k \<le> n \<longrightarrow> bit x n = bit y n)"
    using bit_above_bound assms by (metis leI)
  finally show ?thesis by (simp add: div_eq_iff_bits k_def)
qed


text \<open>The table of IPv4 ranges as \<open>build-cn-data.mjs\<close> writes it: sorted, network bits only.\<close>

definition table4_ok :: "(int \<times> int) list \<Rightarrow> bool" where
  "table4_ok t \<longleftrightarrow> sorted (map fst t)
     \<and> (\<forall>(b, p) \<in> set t. 0 \<le> p \<and> p \<le> 32 \<and> 0 \<le> b \<and> b < 2 ^ 32 \<and> 2 ^ nat (32 - p) dvd b)"

definition in_range4 :: "int \<Rightarrow> int \<times> int \<Rightarrow> bool" where
  "in_range4 ip r \<longleftrightarrow> fst r \<le> ip \<and> ip < fst r + 2 ^ nat (32 - snd r)"

lemma div_range:
  fixes b ip k :: int
  assumes "0 < k" "k dvd b"
  shows "ip div k = b div k \<longleftrightarrow> b \<le> ip \<and> ip < b + k"
proof -
  from assms obtain q where q: "b = k * q" by (auto elim: dvdE)
  with assms(1) have "b div k = q" by simp
  moreover have "ip div k = q \<longleftrightarrow> k * q \<le> ip \<and> ip < k * q + k"
  proof
    assume "ip div k = q"
    with pos_mod_sign [OF assms(1), of ip] pos_mod_bound [OF assms(1), of ip] mult_div_mod_eq [of k ip]
    show "k * q \<le> ip \<and> ip < k * q + k" by auto
  next
    assume "k * q \<le> ip \<and> ip < k * q + k"
    with assms(1) show "ip div k = q"
      by (intro int_div_pos_eq [of ip k q "ip - k * q"]) auto
  qed
  ultimately show ?thesis using q by simp
qed

lemma masked_range:
  assumes "0 \<le> p" "p \<le> 32" "0 \<le> ip" "ip < 2 ^ 32" "0 \<le> b" "b < 2 ^ 32" "2 ^ nat (32 - p) dvd b"
  shows "masked ip p = masked b p \<longleftrightarrow> in_range4 ip (b, p)"
  using assms by (simp add: masked_eq_iff in_range4_def div_range)

lemma inCnCidr4_sound:
  "inCnCidr4 t ip \<Longrightarrow> \<exists>(b, p) \<in> set t. b \<le> ip \<and> masked ip p = masked b p"
  by (induction t ip rule: inCnCidr4.induct) (auto split: if_splits)

lemma inCnCidr4_complete:
  "sorted (map fst t) \<Longrightarrow> (b, p) \<in> set t \<Longrightarrow> b \<le> ip \<Longrightarrow> masked ip p = masked b p \<Longrightarrow> inCnCidr4 t ip"
  by (induction t ip rule: inCnCidr4.induct) fastforce+

lemma inCnCidr4_iff:
  assumes "table4_ok t" "0 \<le> ip" "ip < 2 ^ 32"
  shows "inCnCidr4 t ip \<longleftrightarrow> (\<exists>r \<in> set t. in_range4 ip r)"
proof
  assume "inCnCidr4 t ip"
  then obtain b p where "(b, p) \<in> set t" "masked ip p = masked b p"
    using inCnCidr4_sound by blast
  with assms show "\<exists>r \<in> set t. in_range4 ip r"
    unfolding table4_ok_def by (metis (no_types, lifting) case_prodD masked_range)
next
  assume "\<exists>r \<in> set t. in_range4 ip r"
  then obtain b p where r: "(b, p) \<in> set t" "in_range4 ip (b, p)" by auto
  then have "b \<le> ip" by (simp add: in_range4_def)
  moreover have "masked ip p = masked b p"
    using assms r unfolding table4_ok_def by (metis (no_types, lifting) case_prodD masked_range)
  ultimately show "inCnCidr4 t ip"
    using assms(1) r(1) inCnCidr4_complete unfolding table4_ok_def by blast
qed

section \<open>IPv6\<close>

lemma ipv6ToGroups_length: "ipv6ToGroups s = Some gs \<Longrightarrow> length gs = 8"
  by (auto simp: ipv6ToGroups_def Let_def split: if_splits)

definition same_groups :: "jsnum list \<Rightarrow> jsnum list \<Rightarrow> bool" where
  "same_groups gs ns \<longleftrightarrow> (\<forall>i < 8. num_eq (group_at gs i) (group_at ns i))"

text \<open>A row is found only when the address is the row's own network address.\<close>

lemma inCnCidr6_exact: "inCnCidr6 t gs \<Longrightarrow> \<exists>row \<in> set t. same_groups gs (network row)"
proof (induction t gs rule: inCnCidr6.induct)
  case (2 row rows gs)
  then show ?case
    by (fastforce simp: same_groups_def find_None split: option.splits if_splits)
qed simp

text \<open>
  The 128-bit value of eight groups. Group lists that come from well-formed text hold the
  integers \<open>0..65535\<close>.
\<close>

definition addr128 :: "jsnum list \<Rightarrow> int" where
  "addr128 gs = digits_value (2 ^ 16) (map num_trunc gs)"

definition groups_ok :: "jsnum list \<Rightarrow> bool" where
  "groups_ok gs \<longleftrightarrow> length gs = 8 \<and> (\<forall>g \<in> set gs. \<exists>n. g = Fin n 0 \<and> 0 \<le> n \<and> n < 2 ^ 16)"

lemma bit_digits_value:
  "\<forall>d \<in> set ds. 0 \<le> d \<and> d < 2 ^ 16 \<Longrightarrow> j < 16 * length ds \<Longrightarrow>
   bit (digits_value (2 ^ 16) ds) j = bit (ds ! (length ds - 1 - j div 16)) (j mod 16)"
proof (induction ds arbitrary: j rule: rev_induct)
  case (snoc d ds)
  have split: "digits_value (2 ^ 16) (ds @ [d]) = concat_bit 16 d (digits_value (2 ^ 16) ds)"
    using snoc.prems(1)
    by (simp add: digits_value_snoc concat_bit_eq push_bit_eq_mult take_bit_int_eq_self)
  show ?case
  proof (cases "j < 16")
    case True
    then show ?thesis unfolding split by (simp add: bit_concat_bit_iff nth_append)
  next
    case False
    then have "bit (digits_value (2 ^ 16) ds) (j - 16)
       = bit (ds ! (length ds - 1 - (j - 16) div 16)) ((j - 16) mod 16)"
      using snoc by (intro snoc.IH) auto
    moreover have "(j - 16) div 16 = j div 16 - 1" "(j - 16) mod 16 = j mod 16"
      using False by (simp_all add: le_div_geq le_mod_geq)
    moreover have "length ds - 1 - (j div 16 - 1) = length ds - j div 16"
      using False by (simp add: div_greater_zero_iff)
    moreover have "length ds - j div 16 < length ds"
      using False snoc.prems(2) by (auto simp: div_greater_zero_iff)
    ultimately show ?thesis using False snoc.prems(2) unfolding split
      by (auto simp: bit_concat_bit_iff nth_append)
  qed
qed simp

lemma flip_index:
  fixes b :: nat
  assumes "b = 16 * q + r" "r < 16" "q < 8"
  shows "(127 - b) div 16 = 7 - q \<and> (127 - b) mod 16 = 15 - r"
proof -
  have "127 - b = (15 - r) + (7 - q) * 16" using assms by auto
  moreover have "((15 - r) + (7 - q) * 16) div 16 = (7 - q) + (15 - r) div 16"
    by (rule div_mult_self1) simp
  moreover have "((15 - r) + (7 - q) * 16) mod 16 = (15 - r) mod 16"
    by (rule mod_mult_self1)
  ultimately show ?thesis by simp
qed

lemma group_bit_addr:
  assumes "groups_ok gs" "b < 128"
  shows "group_bit gs b = bit (addr128 gs) (127 - b)"
proof -
  have len: "length gs = 8" using assms(1) by (simp add: groups_ok_def)
  have i: "b div 16 < 8" using assms(2) by simp
  then have "gs ! (b div 16) \<in> set gs" using len by simp
  then obtain n where n: "gs ! (b div 16) = Fin n 0" "0 \<le> n" "n < 2 ^ 16"
    using assms(1) by (auto simp: groups_ok_def)
  have "(127 - b) div 16 = 7 - b div 16" "(127 - b) mod 16 = 15 - b mod 16"
    using flip_index [of b "b div 16" "b mod 16"] i by simp_all
  moreover have "bit (addr128 gs) (127 - b) = bit (map num_trunc gs ! (7 - (127 - b) div 16)) ((127 - b) mod 16)"
    unfolding addr128_def using assms len
    by (subst bit_digits_value) (auto simp: groups_ok_def)
  moreover have "15 - b mod 16 < 32" by simp
  ultimately show ?thesis using n i len
    by (simp add: group_bit_def group_at_def bit_word_of_int_iff)
qed

lemma digits_value_bound:
  "\<forall>d \<in> set ds. 0 \<le> d \<and> d < 2 ^ 16 \<Longrightarrow>
   0 \<le> digits_value (2 ^ 16) ds \<and> digits_value (2 ^ 16) ds < 2 ^ (16 * length ds)"
proof (induction ds rule: rev_induct)
  case (snoc d ds)
  then have "0 \<le> digits_value (2 ^ 16) ds" "digits_value (2 ^ 16) ds + 1 \<le> 2 ^ (16 * length ds)"
    "0 \<le> d" "d < 2 ^ 16" by auto
  moreover from this(2) have "(digits_value (2 ^ 16) ds + 1) * 2 ^ 16 \<le> 2 ^ (16 * length ds) * 2 ^ 16"
    by (rule mult_right_mono) simp
  ultimately show ?case by (simp add: digits_value_snoc power_add algebra_simps)
qed (simp add: digits_value_def)

lemma addr128_bound: "groups_ok gs \<Longrightarrow> 0 \<le> addr128 gs \<and> addr128 gs < 2 ^ 128"
  using digits_value_bound [of "map num_trunc gs"] by (fastforce simp: addr128_def groups_ok_def)

lemma bits_match_iff:
  assumes "groups_ok gs" "groups_ok ns" "n \<le> 128"
  shows "bits_match gs ns n \<longleftrightarrow> addr128 gs div 2 ^ (128 - n) = addr128 ns div 2 ^ (128 - n)"
proof -
  have "bits_match gs ns n \<longleftrightarrow> (\<forall>b < n. bit (addr128 gs) (127 - b) = bit (addr128 ns) (127 - b))"
    using assms by (auto simp: bits_match_def group_bit_addr)
  also have "\<dots> \<longleftrightarrow> (\<forall>j. 128 - n \<le> j \<longrightarrow> bit (addr128 gs) j = bit (addr128 ns) j)"
  proof (rule iffI; intro allI impI)
    fix j
    assume *: "\<forall>b < n. bit (addr128 gs) (127 - b) = bit (addr128 ns) (127 - b)" and j: "128 - n \<le> j"
    show "bit (addr128 gs) j = bit (addr128 ns) j"
    proof (cases "j < 128")
      case True
      then have "127 - (127 - j) = j" "127 - j < n" using j assms(3) by auto
      with * show ?thesis by metis
    next
      case False
      then have "128 \<le> j" by simp
      then show ?thesis using addr128_bound assms bit_above_bound by metis
    qed
  next
    fix b
    assume *: "\<forall>j. 128 - n \<le> j \<longrightarrow> bit (addr128 gs) j = bit (addr128 ns) j" and "b < n"
    then have "128 - n \<le> 127 - b" using assms(3) by simp
    with * show "bit (addr128 gs) (127 - b) = bit (addr128 ns) (127 - b)" by blast
  qed
  finally show ?thesis by (simp add: div_eq_iff_bits)
qed


section \<open>Domain suffixes, label by label\<close>

definition labels :: "string \<Rightarrow> string list" where
  "labels s = split_char (CHR ''.'') s"

lemma join_append:
  "us \<noteq> [] \<Longrightarrow> vs \<noteq> [] \<Longrightarrow> join sep (us @ vs) = join sep us @ sep @ join sep vs"
proof (induction us)
  case (Cons u us)
  then show ?case by (cases "us = []") (simp_all add: join_Cons)
qed simp

text \<open>A name ends with a domain exactly when its last labels are the domain's labels.\<close>

lemma suffix_labels: "suffix (labels p) (labels host) \<longleftrightarrow> host = p \<or> suffix (''.'' @ p) host"
proof
  assume "suffix (labels p) (labels host)"
  then obtain us where us: "labels host = us @ labels p" by (auto simp: suffix_def)
  show "host = p \<or> suffix (''.'' @ p) host"
  proof (cases "us = []")
    case True
    with us show ?thesis by (auto simp: labels_def dest: split_char_inj)
  next
    case False
    have "host = join ''.'' (labels host)" by (simp add: labels_def join_split_char)
    also have "\<dots> = join ''.'' us @ ''.'' @ p"
      unfolding us using False by (simp add: join_append labels_def join_split_char)
    finally show ?thesis by (auto simp: suffix_def)
  qed
next
  assume "host = p \<or> suffix (''.'' @ p) host"
  then show "suffix (labels p) (labels host)"
    by (auto simp: suffix_def labels_def split_char_append_sep)
qed

lemma HSuffix_labels:
  "match_host_rule (HSuffix p) host \<longleftrightarrow> suffix (labels (toLowerCase p)) (labels host)"
  by (simp add: suffix_labels endsWith_def)

lemma cn_parent_iff: "cn_parent sfxs host \<longleftrightarrow> (\<exists>s \<in> set sfxs. suffix (''.'' @ s) host)"
proof (induction sfxs host rule: cn_parent.induct)
  case (1 sfxs host)
  show ?case
  proof (cases "index_of (CHR ''.'') host")
    case None
    then have "CHR ''.'' \<notin> set host" by (simp add: index_of_None)
    then have "\<not> suffix (''.'' @ s) host" for s by (auto simp: suffix_def)
    with None show ?thesis by (subst cn_parent.simps) simp
  next
    case (Some dot)
    define u v where "u = take dot host" and "v = drop (Suc dot) host"
    from Some have u: "CHR ''.'' \<notin> set u" and host: "host = u @ CHR ''.'' # v"
      unfolding u_def v_def by (simp_all add: index_of_Some) (metis id_take_nth_drop)
    have step: "suffix (''.'' @ s) host \<longleftrightarrow> s = v \<or> suffix (''.'' @ s) v" for s
    proof
      assume "suffix (''.'' @ s) host"
      then obtain w where "u @ CHR ''.'' # v = w @ CHR ''.'' # s" by (auto simp: suffix_def host)
      then show "s = v \<or> suffix (''.'' @ s) v"
        using u by (auto simp: append_eq_append_conv2 Cons_eq_append_conv append_eq_Cons_conv suffix_def)
    next
      assume "s = v \<or> suffix (''.'' @ s) v"
      then show "suffix (''.'' @ s) host" unfolding host suffix_def by (auto intro: exI [of _ "u @ CHR ''.'' # _"])
    qed
    have "cn_parent sfxs host \<longleftrightarrow> v \<in> set sfxs \<or> cn_parent sfxs v"
      using Some by (subst cn_parent.simps) (simp add: v_def)
    also have "\<dots> \<longleftrightarrow> v \<in> set sfxs \<or> (\<exists>s \<in> set sfxs. suffix (''.'' @ s) v)"
      using "1.IH" [OF Some] unfolding v_def by blast
    finally show ?thesis unfolding step by auto
  qed
qed

text \<open>A name is listed when one of the table's domains is a label-wise suffix of it.\<close>

definition listed :: "string list \<Rightarrow> string \<Rightarrow> bool" where
  "listed sfxs host \<longleftrightarrow> (\<exists>s \<in> set sfxs. suffix (labels s) (labels host))"

lemma decide_name_iff:
  "decide_name d e host =
     (case matchHost e host of Some a \<Rightarrow> a
      | None \<Rightarrow> if listed (cn_suffixes d) host \<or> endsWith host ''.cn'' then Direct else Proxy)"
  by (auto simp: decide_name_def listed_def suffix_labels cn_parent_iff split: option.splits)

section \<open>Case folding\<close>

lemma lower_char_idem [simp]: "lower_char (lower_char c) = lower_char c"
proof -
  have "code_unit c < 256" by simp
  then show ?thesis by (auto simp: lower_char_def Let_def)
qed

lemma toLowerCase_idem [simp]: "toLowerCase (toLowerCase s) = toLowerCase s"
  by (simp add: toLowerCase_def)

lemma decide_toLowerCase: "decide d e (toLowerCase h) = decide d e h"
  by (simp add: decide_def)

section \<open>Decisions come from rules or tables\<close>

context first_match
begin

lemma lookup_SomeE: "lookup rs k = Some a \<Longrightarrow> \<exists>m. (m, a) \<in> set rs \<and> matches m k"
  by (blast dest: lookup_SomeD intro: in_set_conv_decomp [THEN iffD2])

end

lemma match_Reject:
  "matchIp d e i = Some Reject \<Longrightarrow> ip_lookup (ip_rules e) i = Some Reject"
  "matchIp6 d e g = Some Reject \<Longrightarrow> ip6_lookup (ip6_rules e) g = Some Reject"
  "decide_name d e h = Reject \<Longrightarrow> host_lookup (host_rules e) h = Some Reject"
  by (auto simp: matchIp_def matchIp6_def decide_name_def matchHost_def split: option.splits if_splits)

lemma decide_Reject:
  assumes "decide d e h = Reject"
  shows "Reject \<in> snd ` set (host_rules e) \<or> Reject \<in> snd ` set (ip_rules e)
         \<or> Reject \<in> snd ` set (ip6_rules e)"
proof -
  define host where "host = trim (toLowerCase h)"
  consider i where "matchIp d e i = Some Reject" | g where "matchIp6 d e g = Some Reject"
    | "decide_name d e host = Reject"
    using assms by (auto simp: decide_def host_def [symmetric] Let_def split: option.splits)
  then show ?thesis
    by cases (force dest!: match_Reject host.lookup_SomeE ip.lookup_SomeE ip6.lookup_SomeE)+
qed

lemma rule_action_upper: "rule_action t = Some a \<Longrightarrow> t \<in> {''DIRECT'', ''PROXY'', ''REJECT'', ''REJECT-DROP''}"
  by (auto simp: rule_action_def split: if_splits)

text \<open>The last comma-separated field of a line.\<close>

definition last_field :: "string \<Rightarrow> string" where
  "last_field line = last (map trim (split_char (CHR '','') (trim line)))"

lemma compileRule_target:
  "compileRule line \<noteq> None \<Longrightarrow>
     toUpperCase (last_field line) \<in> {''DIRECT'', ''PROXY'', ''REJECT'', ''REJECT-DROP''}"
  using rule_action_upper by (force simp: compileRule_def last_field_def Let_def split: if_splits option.splits)


definition first_field :: "string \<Rightarrow> string" where
  "first_field line =
     (case butlast (map trim (split_char (CHR '','') (trim line))) of [] \<Rightarrow> [] | t # _ \<Rightarrow> t)"

lemma compile_typed_type:
  "compile_typed t p a \<noteq> None \<Longrightarrow>
     t \<in> {''DOMAIN'', ''DOMAIN-SUFFIX'', ''DOMAIN-KEYWORD'', ''IP-CIDR'', ''IP-CIDR6'', ''MATCH''}"
  by (simp add: compile_typed_def Let_def split: if_splits)

lemma compileRule_type:
  "compileRule line \<noteq> None \<Longrightarrow> toUpperCase (first_field line)
     \<in> {''DOMAIN'', ''DOMAIN-SUFFIX'', ''DOMAIN-KEYWORD'', ''IP-CIDR'', ''IP-CIDR6'', ''MATCH''}"
  using compile_typed_type
  by (fastforce simp: compileRule_def first_field_def Let_def split: if_splits option.splits)

section \<open>Properties\<close>

lemma slice_slash:
  assumes "CHR ''/'' \<notin> set s"
  shows "slice_before (s @ CHR ''/'' # t) (index_of (CHR ''/'') (s @ CHR ''/'' # t)) = s"
    "slice_after (s @ CHR ''/'' # t) (index_of (CHR ''/'') (s @ CHR ''/'' # t)) = t"
  using slice_around [OF assms] by auto

lemma dotted_no_slash: "CHR ''/'' \<notin> set (dotted ns)"
proof
  assume "CHR ''/'' \<in> set (dotted ns)"
  then obtain n where "CHR ''/'' \<in> set (show_nat n)" using set_join unfolding dotted_def by fastforce
  with show_nat_digits [of n] have "is_digit (CHR ''/'')" by blast
  then show False by (simp add: is_digit_def code_unit_def)
qed

lemma host_rules_split:
  "host_rules (mk_engine xs ex ss) = host_rules_of (strings_of xs)
     @ host_rules_of (filter (\<lambda>l. \<not> (\<exists>w \<in> set ex. includes_str l w)) (strings_of ss))"
  by (simp add: mk_engine_rules rule_lines_def)



text \<open>
  C7. A DOMAIN-SUFFIX rule matches label by label: the host's last labels are the labels of the
  lower-cased parameter, so \<open>evil-example.com\<close> never matches \<open>example.com\<close>.
\<close>

theorem domain_suffix_by_labels:
  "match_host_rule (HSuffix param) host \<longleftrightarrow> suffix (labels (toLowerCase param)) (labels host)"
  by (rule HSuffix_labels)

text \<open>
  With the table sorted by base and holding network addresses (as the build script writes
  it), the early exit of the IPv4 scan loses nothing: the scan answers whether some range of
  the table contains the address.
\<close>

theorem cn_cidr4_scan_exact:
  assumes "table4_ok t" "0 \<le> ipInt" "ipInt < 2 ^ 32"
  shows "inCnCidr4 t ipInt \<longleftrightarrow> (\<exists>(b, p) \<in> set t. b \<le> ipInt \<and> ipInt < b + 2 ^ nat (32 - p))"
  unfolding inCnCidr4_iff [OF assms] by (simp add: in_range4_def case_prod_beta)

theorem cn_cidr4_scan_exact_witness:
  "inCnCidr4 [(16777472, 24), (16777728, 23)] 16777980
   \<longleftrightarrow> (\<exists>(b, p) \<in> set [(16777472, 24), (16777728, 23)]. b \<le> (16777980 :: int) \<and> 16777980 < b + 2 ^ nat (32 - p))"
  by (rule cn_cidr4_scan_exact) (auto simp: table4_ok_def)

text \<open>
  C13. An IP-CIDR rule with a dotted base and a prefix length up to 32 compiles, and matches
  exactly the addresses of the base's network.
\<close>

theorem ip_cidr_rule_matches_network:
  assumes "a < 256" "b < 256" "c < 256" "e < 256" "p \<le> 32"
    and "base = ((int a * 256 + int b) * 256 + int c) * 256 + int e"
  shows "\<exists>m. compile_typed ''IP-CIDR'' (dotted [a, b, c, e] @ ''/'' @ show_nat p) act = Some (IpRule m act)
    \<and> (\<forall>x. 0 \<le> x \<and> x < 2 ^ 32 \<longrightarrow> match_ip_rule m x = (x div 2 ^ (32 - p) = base div 2 ^ (32 - p)))"
proof -
  have base: "ipv4ToInt (dotted [a, b, c, e]) = Some base" using assms by (simp add: ipv4ToInt_dotted)
  then have rng: "0 \<le> base" "base < 2 ^ 32" using ipv4ToInt_range by blast+
  have pfx: "js_Number (show_nat p) = Fin (int p) 0" using assms(5) by (intro js_Number_show_nat) simp
  have "compile_typed ''IP-CIDR'' (dotted [a, b, c, e] @ ''/'' @ show_nat p) act
      = Some (IpRule (base, mask32 (int p)) act)"
    by (simp add: compile_typed_def slice_slash dotted_no_slash base pfx)
  moreover have "match_ip_rule (base, mask32 (int p)) x = (x div 2 ^ (32 - p) = base div 2 ^ (32 - p))"
    if "0 \<le> x" "x < 2 ^ 32" for x
    using masked_eq_iff [of "int p" x base] that rng assms(5) by (simp add: masked_def nat_diff_distrib)
  ultimately show ?thesis by blast
qed

theorem ip_cidr_rule_matches_network_witness:
  "\<exists>m. compile_typed ''IP-CIDR'' (dotted [10, 0, 0, 0] @ ''/'' @ show_nat 8) Direct = Some (IpRule m Direct)
    \<and> (\<forall>x. 0 \<le> x \<and> x < 2 ^ 32 \<longrightarrow> match_ip_rule m x = (x div 2 ^ (32 - 8) = 167772160 div 2 ^ (32 - 8)))"
  by (rule ip_cidr_rule_matches_network) simp_all

text \<open>
  An IP-CIDR6 rule on well-formed groups compares the leading bits of the two 128-bit
  addresses.
\<close>

theorem ip_cidr6_rule_matches_prefix:
  assumes "groups_ok candidate" "groups_ok base" "0 \<le> p" "p \<le> 128"
  shows "match_ip6_rule (base, p) candidate
    \<longleftrightarrow> addr128 candidate div 2 ^ nat (128 - p) = addr128 base div 2 ^ nat (128 - p)"
  using bits_match_iff [OF assms(1,2), of "nat p"] assms(3,4) by (simp add: nat_diff_distrib)

theorem ip_cidr6_rule_matches_prefix_witness:
  "match_ip6_rule (replicate 8 (Fin 1 0), 64) (replicate 8 (Fin 1 0))
    \<longleftrightarrow> addr128 (replicate 8 (Fin 1 0)) div 2 ^ nat (128 - 64) = addr128 (replicate 8 (Fin 1 0)) div 2 ^ nat (128 - 64)"
  by (rule ip_cidr6_rule_matches_prefix) (simp_all add: groups_ok_def)

text \<open>
  The embedded IPv6 table is only ever hit by the network address of a row: the scan skips a
  row unless all eight groups are equal, so an address inside \<open>240e::/20\<close> other than \<open>240e::\<close>
  itself is not recognised as domestic.
\<close>

theorem cn_cidr6_scan_only_network_address:
  assumes "inCnCidr6 rows groups"
  shows "\<exists>row \<in> set rows. same_groups groups (network row)"
  using assms by (rule inCnCidr6_exact)

theorem cn_cidr6_scan_only_network_address_witness:
  "(\<exists>row \<in> set [parse_cidr6 ''240e::/20'']. same_groups (the (ipv6ToGroups ''240e::'')) (network row))
   \<and> \<not> inCnCidr6 [parse_cidr6 ''240e::/20''] (the (ipv6ToGroups ''240e::1''))
   \<and> bits_match (the (ipv6ToGroups ''240e::1'')) (network (parse_cidr6 ''240e::/20'')) 20"
proof -
  have "inCnCidr6 [parse_cidr6 ''240e::/20''] (the (ipv6ToGroups ''240e::''))" by code_simp
  note cn_cidr6_scan_only_network_address [OF this]
  moreover have "\<not> inCnCidr6 [parse_cidr6 ''240e::/20''] (the (ipv6ToGroups ''240e::1''))" by code_simp
  moreover have "bits_match (the (ipv6ToGroups ''240e::1'')) (network (parse_cidr6 ''240e::/20'')) 20"
    by code_simp
  ultimately show ?thesis by blast
qed

text \<open>
  \<open>ipv4ToInt\<close> reads back the text of four octets as the big-endian 32-bit number.
\<close>

theorem ipv4_text_roundtrip:
  assumes "a < 256" "b < 256" "c < 256" "e < 256"
  shows "ipv4ToInt (dotted [a, b, c, e]) = Some (((int a * 256 + int b) * 256 + int c) * 256 + int e)"
  using assms by (rule ipv4ToInt_dotted)

theorem ipv4_text_roundtrip_witness:
  "ipv4ToInt (dotted [220, 181, 38, 148]) = Some (((220 * 256 + 181) * 256 + 38) * 256 + 148)"
  using ipv4_text_roundtrip [of 220 181 38 148] by simp

text \<open>
  Only an explicit REJECT rule drops traffic: with no rule whose action is reject, every
  target is either connected directly or proxied.
\<close>

theorem reject_only_by_rule:
  assumes "decide d e h = Reject"
  shows "Reject \<in> snd ` set (host_rules e) \<or> Reject \<in> snd ` set (ip_rules e) \<or> Reject \<in> snd ` set (ip6_rules e)"
  using assms by (rule decide_Reject)

theorem reject_only_by_rule_witness:
  "Reject \<in> snd ` set (host_rules (mk_engine [JStr ''DOMAIN-SUFFIX,ads.example,REJECT''] [] []))
   \<or> Reject \<in> snd ` set (ip_rules (mk_engine [JStr ''DOMAIN-SUFFIX,ads.example,REJECT''] [] []))
   \<or> Reject \<in> snd ` set (ip6_rules (mk_engine [JStr ''DOMAIN-SUFFIX,ads.example,REJECT''] [] []))"
proof (rule reject_only_by_rule)
  show "decide \<lparr>cn_suffixes = [], cn_cidrs4 = [], cn_cidrs6 = []\<rparr>
     (mk_engine [JStr ''DOMAIN-SUFFIX,ads.example,REJECT''] [] []) ''x.ads.example'' = Reject" by code_simp
qed

text \<open>
  What compiles: the last comma-separated field is one of the four targets and the first is
  one of six types. GEOIP lines and lines with a trailing option such as \<open>no-resolve\<close> are
  therefore dropped.
\<close>

theorem compiled_rule_shape:
  assumes "compileRule line = Some r"
  shows "toUpperCase (last_field line) \<in> {''DIRECT'', ''PROXY'', ''REJECT'', ''REJECT-DROP''}
    \<and> toUpperCase (first_field line)
        \<in> {''DOMAIN'', ''DOMAIN-SUFFIX'', ''DOMAIN-KEYWORD'', ''IP-CIDR'', ''IP-CIDR6'', ''MATCH''}"
  using assms compileRule_target compileRule_type by blast

theorem compiled_rule_shape_witness:
  "toUpperCase (last_field ''domain-suffix,cn,direct'') \<in> {''DIRECT'', ''PROXY'', ''REJECT'', ''REJECT-DROP''}
    \<and> toUpperCase (first_field ''domain-suffix,cn,direct'')
        \<in> {''DOMAIN'', ''DOMAIN-SUFFIX'', ''DOMAIN-KEYWORD'', ''IP-CIDR'', ''IP-CIDR6'', ''MATCH''}"
proof -
  have "compileRule ''domain-suffix,cn,direct'' = Some (HostRule (HSuffix ''cn'') Direct)" by code_simp
  then show ?thesis by (rule compiled_rule_shape)
qed

text \<open>
  A MATCH line among the rules takes the domestic table out of play for host names: whatever
  the table holds, the decision is the same, so a subscription that ends with \<open>MATCH,PROXY\<close>
  sends domestic names through the proxy.
\<close>

theorem match_rule_hides_cn_table:
  assumes "(HAny, a) \<in> set (host_rules e)"
  shows "decide_name d e host = decide_name d' e host"
  using assms host.lookup_catch_all_total [of HAny a "host_rules e" host]
  by (auto simp: decide_name_def matchHost_def split: option.splits)

theorem match_rule_hides_cn_table_witness:
  "decide_name \<lparr>cn_suffixes = [''baidu.com''], cn_cidrs4 = [], cn_cidrs6 = []\<rparr> (mk_engine [] [] [JStr ''MATCH,PROXY'']) ''baidu.com''
   = decide_name \<lparr>cn_suffixes = [], cn_cidrs4 = [], cn_cidrs6 = []\<rparr> (mk_engine [] [] [JStr ''MATCH,PROXY'']) ''baidu.com''
   \<and> decide_name \<lparr>cn_suffixes = [''baidu.com''], cn_cidrs4 = [], cn_cidrs6 = []\<rparr> (mk_engine [] [] [JStr ''MATCH,PROXY'']) ''baidu.com'' = Proxy"
proof -
  have "host_rules (mk_engine [] [] [JStr ''MATCH,PROXY'']) = [(HAny, Proxy)]" by code_simp
  then have "(HAny, Proxy) \<in> set (host_rules (mk_engine [] [] [JStr ''MATCH,PROXY'']))" by simp
  note match_rule_hides_cn_table [OF this]
  moreover have "decide_name \<lparr>cn_suffixes = [''baidu.com''], cn_cidrs4 = [], cn_cidrs6 = []\<rparr>
    (mk_engine [] [] [JStr ''MATCH,PROXY'']) ''baidu.com'' = Proxy" by code_simp
  ultimately show ?thesis by blast
qed

end
