(* ===== verification/SocketBuffer.thy ===== *)
theory SocketBuffer
  imports JsString
begin

text \<open>
  The inbound byte buffers of \<open>lib/core/transports.js\<close>: \<open>SocketBuffer\<close> (the state its event
  handlers and reads share, with the waiting reads), \<open>iterableSource\<close>, and the header loop
  \<open>readUntilCrlfCrlf\<close>. The interface that the protocol readers rely on, \<open>read(count)\<close>, is the
  locale \<open>byte_source\<close>; both buffers provide it.
\<close>

section \<open>SocketBuffer\<close>

text \<open>A waiting read: an identification of its promise, and the byte count unless it is a \<open>readAny\<close>.\<close>

datatype waiter = Exact nat nat | Any nat

record sockbuf =
  buf :: bytes
  waiters :: "waiter list"
  ended :: bool
  sock_error :: "error option"

datatype outcome = Resolved bytes | ResolvedNull | Rejected error

type_synonym outcomes = "(nat \<times> outcome) list"

definition new_sockbuf :: sockbuf where
  "new_sockbuf = \<lparr>buf = [], waiters = [], ended = False, sock_error = None\<rparr>"

text \<open>\<open>#flush\<close>: serves waiting reads in order while the buffer has what the first one wants.\<close>

fun flush :: "bytes \<Rightarrow> waiter list \<Rightarrow> outcomes \<times> bytes \<times> waiter list" where
  "flush b [] = ([], b, [])"
| "flush b (Any i # ws) =
     (if b = [] then ([], b, Any i # ws)
      else case flush [] ws of (os, r) \<Rightarrow> ((i, Resolved b) # os, r))"
| "flush b (Exact i n # ws) =
     (if length b < n then ([], b, Exact i n # ws)
      else case flush (drop n b) ws of (os, r) \<Rightarrow> ((i, Resolved (take n b)) # os, r))"

definition flush_state :: "sockbuf \<Rightarrow> outcomes \<times> sockbuf" where
  "flush_state s =
     (case flush (buf s) (waiters s) of (os, b, ws) \<Rightarrow> (os, s\<lparr>buf := b, waiters := ws\<rparr>))"

fun waiter_id :: "waiter \<Rightarrow> nat" where
  "waiter_id (Exact i n) = i"
| "waiter_id (Any i) = i"

text \<open>The socket's events and the two reads.\<close>

datatype buf_event =
    OnData bytes
  | OnClose
  | OnError error
  | CallRead nat nat
  | CallReadAny nat

fun buf_step :: "sockbuf \<Rightarrow> buf_event \<Rightarrow> outcomes \<times> sockbuf" where
  "buf_step s (OnData chunk) =
     (if ended s then ([], s) else flush_state (s\<lparr>buf := buf s @ chunk\<rparr>))"
| "buf_step s OnClose =
     (map (\<lambda>w. case w of Any i \<Rightarrow> (i, ResolvedNull)
               | Exact i n \<Rightarrow> (i, Rejected (Error ''connection closed while reading''))) (waiters s),
      s\<lparr>ended := True, waiters := []\<rparr>)"
| "buf_step s (OnError e) =
     (map (\<lambda>w. (waiter_id w, Rejected e)) (waiters s), s\<lparr>sock_error := Some e, waiters := []\<rparr>)"
| "buf_step s (CallRead i n) =
     (if ended s then ([(i, Rejected (Error ''connection closed''))], s)
      else flush_state (s\<lparr>waiters := waiters s @ [Exact i n]\<rparr>))"
| "buf_step s (CallReadAny i) =
     (if ended s then ([(i, ResolvedNull)], s)
      else flush_state (s\<lparr>waiters := waiters s @ [Any i]\<rparr>))"

fun buf_run :: "sockbuf \<Rightarrow> buf_event list \<Rightarrow> outcomes \<times> sockbuf" where
  "buf_run s [] = ([], s)"
| "buf_run s (e # es) =
     (case buf_step s e of (os, s') \<Rightarrow> (case buf_run s' es of (os', s'') \<Rightarrow> (os @ os', s'')))"

section \<open>iterableSource\<close>

text \<open>
  The bytes pulled and not yet returned, and the chunks the iterator has still to give before
  it is done.
\<close>

record itersource =
  pending :: bytes
  chunks :: "bytes list"

function iter_read :: "itersource \<Rightarrow> nat \<Rightarrow> error + bytes \<times> itersource" where
  "iter_read s count =
     (if length (pending s) < count
      then (case chunks s of
              [] \<Rightarrow> Inl (Error ''connection closed while reading'')
            | c # cs \<Rightarrow> iter_read \<lparr>pending = pending s @ c, chunks = cs\<rparr> count)
      else Inr (take count (pending s), s\<lparr>pending := drop count (pending s)\<rparr>))"
  by pat_completeness auto
termination
  by (relation "measure (\<lambda>(s, count). length (chunks s))") auto

declare iter_read.simps [simp del]

definition iter_readAny :: "itersource \<Rightarrow> bytes option \<times> itersource" where
  "iter_readAny s =
     (if pending s \<noteq> [] then (Some (pending s), s\<lparr>pending := []\<rparr>)
      else case chunks s of [] \<Rightarrow> (None, s) | c # cs \<Rightarrow> (Some c, s\<lparr>chunks := cs\<rparr>))"

section \<open>Reading a header block\<close>

text \<open>
  \<open>readUntilCrlfCrlf\<close> and the loop of \<open>wsHandshake\<close>: one byte at a time (as latin1 text) until
  the text ends with a blank line. \<open>rd\<close> is the source's \<open>read\<close>.
\<close>

definition crlf2 :: string where
  "crlf2 = map unit_char [13, 10, 13, 10]"

definition latin1 :: "bytes \<Rightarrow> string" where
  "latin1 bs = map (\<lambda>b. unit_char (unat b)) bs"

partial_function (option) read_head ::
  "('s \<Rightarrow> nat \<Rightarrow> error + bytes \<times> 's) \<Rightarrow> string \<Rightarrow> 's \<Rightarrow> string \<Rightarrow> (error + string \<times> 's) option" where
  "read_head rd too_large s text =
     (case rd s 1 of
        Inl e \<Rightarrow> Some (Inl e)
      | Inr (b, s') \<Rightarrow>
          (let text' = text @ latin1 b in
           if endsWith text' crlf2 then Some (Inr (text', s'))
           else if 65536 < length text' then Some (Inl (Error too_large))
           else read_head rd too_large s' text'))"

declare read_head.simps [simp del]

text \<open>\<open>readUntilCrlfCrlf\<close>: the block without its blank line.\<close>

definition readUntilCrlfCrlf ::
  "('s \<Rightarrow> nat \<Rightarrow> error + bytes \<times> 's) \<Rightarrow> 's \<Rightarrow> (error + string \<times> 's) option" where
  "readUntilCrlfCrlf rd s =
     (case read_head rd ''header block too large'' s [] of
        None \<Rightarrow> None
      | Some (Inl e) \<Rightarrow> Some (Inl e)
      | Some (Inr (text, s')) \<Rightarrow> Some (Inr (take (length text - 4) text, s')))"


section \<open>What the buffer guarantees\<close>

fun resolved_bytes :: "nat \<times> outcome \<Rightarrow> bytes" where
  "resolved_bytes (i, Resolved b) = b"
| "resolved_bytes (i, ResolvedNull) = []"
| "resolved_bytes (i, Rejected e) = []"

fun data_of :: "buf_event \<Rightarrow> bytes" where
  "data_of (OnData c) = c"
| "data_of _ = []"

fun call_of :: "buf_event \<Rightarrow> waiter list" where
  "call_of (CallRead i n) = [Exact i n]"
| "call_of (CallReadAny i) = [Any i]"
| "call_of _ = []"

definition received :: "buf_event list \<Rightarrow> bytes" where
  "received es = concat (map data_of es)"

definition calls :: "buf_event list \<Rightarrow> waiter list" where
  "calls es = concat (map call_of es)"

definition returned :: "outcomes \<Rightarrow> bytes" where
  "returned os = concat (map resolved_bytes os)"

lemma received_simps [simp]:
  "received [] = []" "received (e # es) = data_of e @ received es"
  by (simp_all add: received_def)

lemma calls_simps [simp]:
  "calls [] = []" "calls (e # es) = call_of e @ calls es"
  by (simp_all add: calls_def)

lemma returned_simps [simp]:
  "returned [] = []" "returned (x # os) = resolved_bytes x @ returned os"
  "returned (os @ os') = returned os @ returned os'"
  by (simp_all add: returned_def)

lemma flush_bytes: "flush b ws = (os, b', ws') \<Longrightarrow> returned os @ b' = b"
  by (induction b ws arbitrary: os b' ws' rule: flush.induct) (auto split: if_splits prod.splits)

lemma flush_ids: "flush b ws = (os, b', ws') \<Longrightarrow> map fst os @ map waiter_id ws' = map waiter_id ws"
  by (induction b ws arbitrary: os b' ws' rule: flush.induct) (auto split: if_splits prod.splits)

lemma flush_suffix: "flush b ws = (os, b', ws') \<Longrightarrow> ws = take (length os) ws @ ws'"
  by (induction b ws arbitrary: os b' ws' rule: flush.induct) (auto split: if_splits prod.splits)

lemma flush_idle: "flush b ws = (os, b', ws') \<Longrightarrow> flush b' ws' = ([], b', ws')"
  by (induction b ws arbitrary: os b' ws' rule: flush.induct) (auto split: if_splits prod.splits)

definition exact_reads :: "waiter list \<Rightarrow> bool" where
  "exact_reads ws = list_all (\<lambda>w. case w of Exact i n \<Rightarrow> True | Any i \<Rightarrow> False) ws"

lemma flush_continue:
  assumes "flush b ws = (os, b', ws')" "exact_reads ws"
  shows "flush (b @ c) (ws @ vs) = (case flush (b' @ c) (ws' @ vs) of (os2, r) \<Rightarrow> (os @ os2, r))"
  using assms
  by (induction b ws arbitrary: os b' ws' rule: flush.induct)
     (auto simp: exact_reads_def split: if_splits prod.splits)

text \<open>One event in the three figures a run is measured by.\<close>

lemma flush_state_bytes: "flush_state s = (os, s') \<Longrightarrow> returned os @ buf s' = buf s"
  by (auto simp: flush_state_def split: prod.splits dest: flush_bytes)

lemma flush_state_ids:
  "flush_state s = (os, s') \<Longrightarrow> map fst os @ map waiter_id (waiters s') = map waiter_id (waiters s)"
  by (auto simp: flush_state_def split: prod.splits dest: flush_ids)

lemma flush_state_ended: "flush_state s = (os, s') \<Longrightarrow> ended s' = ended s"
  by (auto simp: flush_state_def split: prod.splits)

definition no_close :: "buf_event list \<Rightarrow> bool" where
  "no_close es = (OnClose \<notin> set es)"

lemma step_bytes:
  assumes "buf_step s e = (os, s')" "\<not> ended s"
  shows "returned os @ buf s' = buf s @ data_of e"
proof -
  have none: "returned (map (\<lambda>w. (waiter_id w, Rejected e)) ws) = []" for e ws
    by (induction ws) auto
  have null: "returned (map (\<lambda>w. case w of Any i \<Rightarrow> (i, ResolvedNull)
                       | Exact i n \<Rightarrow> (i, Rejected (Error m))) ws) = []" for m ws
    by (induction ws) (auto split: waiter.splits)
  from assms show ?thesis
    by (cases e) (auto dest: flush_state_bytes simp: none null)
qed

lemma step_ids:
  assumes "buf_step s e = (os, s')" "ended s \<longrightarrow> waiters s = []"
  shows "map fst os @ map waiter_id (waiters s') = map waiter_id (waiters s @ call_of e)"
    and "ended s' \<longrightarrow> waiters s' = []"
proof -
  have null: "fst (case w of Exact i n \<Rightarrow> (i, Rejected (Error m)) | Any i \<Rightarrow> (i, ResolvedNull)) = waiter_id w"
    for m w by (cases w) auto
  from assms show "map fst os @ map waiter_id (waiters s') = map waiter_id (waiters s @ call_of e)"
    by (cases e) (auto dest!: flush_state_ids simp: null comp_def split: if_splits)
  from assms show "ended s' \<longrightarrow> waiters s' = []"
    by (cases e) (auto dest!: flush_state_ended split: if_splits)
qed

lemma run_ids:
  assumes "buf_run s es = (os, s')" "ended s \<longrightarrow> waiters s = []"
  shows "map fst os @ map waiter_id (waiters s') = map waiter_id (waiters s @ calls es)"
  using assms
proof (induction es arbitrary: s os)
  case (Cons e es)
  obtain o1 s1 where s1: "buf_step s e = (o1, s1)" by force
  obtain o2 where s2: "buf_run s1 es = (o2, s')" "os = o1 @ o2"
    using Cons.prems(1) s1 by (auto split: prod.splits)
  show ?case
    using Cons.IH[OF s2(1) step_ids(2)[OF s1 Cons.prems(2)]] step_ids(1)[OF s1 Cons.prems(2)] s2(2)
    by (metis append.assoc calls_simps(2) map_append)
qed simp


lemma run_settled:
  "buf_run s es = (os, s') \<Longrightarrow> ended s \<longrightarrow> waiters s = [] \<Longrightarrow> ended s' \<longrightarrow> waiters s' = []"
proof (induction es arbitrary: s os)
  case (Cons e es)
  obtain o1 s1 where s1: "buf_step s e = (o1, s1)" by force
  then show ?case
    using Cons.prems(1) Cons.IH[OF _ step_ids(2)[OF s1 Cons.prems(2)]] by (auto split: prod.splits)
qed simp

lemma buf_run_append:
  "buf_run s (es @ es') =
     (case buf_run s es of (os, s1) \<Rightarrow> case buf_run s1 es' of (os', s2) \<Rightarrow> (os @ os', s2))"
  by (induction es arbitrary: s) (auto split: prod.splits)

lemma step_ended: "buf_step s e = (os, s') \<Longrightarrow> ended s' = (ended s \<or> e = OnClose)"
  by (cases e) (auto dest: flush_state_ended split: if_splits)

lemma run_ended: "buf_run s es = (os, s') \<Longrightarrow> ended s' = (ended s \<or> OnClose \<in> set es)"
  by (induction es arbitrary: s os) (auto split: prod.splits dest: step_ended)

lemma run_bytes:
  assumes "buf_run s es = (os, s')" "\<not> ended s" "OnClose \<notin> set es"
  shows "returned os @ buf s' = buf s @ received es"
  using assms
proof (induction es arbitrary: s os)
  case (Cons e es)
  obtain o1 s1 where s1: "buf_step s e = (o1, s1)" by force
  obtain o2 where s2: "buf_run s1 es = (o2, s')" "os = o1 @ o2"
    using Cons.prems(1) s1 by (auto split: prod.splits)
  have open1: "\<not> ended s1" using step_ended[OF s1] Cons.prems by auto
  show ?case
    using Cons.IH[OF s2(1) open1] step_bytes[OF s1 Cons.prems(2)] s2(2) Cons.prems(3) by simp
qed simp

lemma run_after_end:
  "ended s \<Longrightarrow> waiters s = [] \<Longrightarrow> returned (fst (buf_run s es)) = []"
proof (induction es arbitrary: s)
  case (Cons e es)
  have "returned (fst (buf_step s e)) = []" "ended (snd (buf_step s e))" "waiters (snd (buf_step s e)) = []"
    using Cons.prems by (cases e; simp)+
  then show ?case using Cons.IH[of "snd (buf_step s e)"] by (auto split: prod.splits)
qed simp

lemma new_sockbuf_simps [simp]:
  "buf new_sockbuf = []" "waiters new_sockbuf = []" "\<not> ended new_sockbuf"
  by (simp_all add: new_sockbuf_def)

text \<open>C11. Promises are settled in the order of the calls, and each at most once: after any events,
  the settled ones followed by the waiting ones are exactly the calls made.\<close>

theorem reads_settle_in_call_order:
  "map fst (fst (buf_run new_sockbuf es)) @ map waiter_id (waiters (snd (buf_run new_sockbuf es)))
   = map waiter_id (calls es)"
  using run_ids[of new_sockbuf es] by (metis append_Nil new_sockbuf_simps(2,3) prod.collapse)

text \<open>Once the socket has closed, every read made before or after is settled: no caller waits for ever.\<close>

theorem close_settles_every_read:
  "map fst (fst (buf_run new_sockbuf (es @ OnClose # es'))) = map waiter_id (calls (es @ OnClose # es'))"
proof -
  obtain os s where r: "buf_run new_sockbuf (es @ OnClose # es') = (os, s)" by force
  have "ended s" using run_ended[OF r] by simp
  moreover have "ended s \<longrightarrow> waiters s = []" using run_settled[OF r] by simp
  ultimately show ?thesis using run_ids[OF r] r by simp
qed

text \<open>C10. No byte is lost, duplicated or reordered while the socket is open: what the reads returned
  followed by what is still buffered is what the socket delivered.\<close>

theorem buffer_conserves_bytes:
  assumes "OnClose \<notin> set es"
  shows "returned (fst (buf_run new_sockbuf es)) @ buf (snd (buf_run new_sockbuf es)) = received es"
  using run_bytes[of new_sockbuf es] assms by (metis append_Nil new_sockbuf_simps(1,3) prod.collapse)

theorem buffer_conserves_bytes_witness:
  "returned (fst (buf_run new_sockbuf [CallRead 0 2, OnData [1], OnData [2, 3], CallReadAny 1])) @
   buf (snd (buf_run new_sockbuf [CallRead 0 2, OnData [1], OnData [2, 3], CallReadAny 1])) = [1, 2, 3]"
  using buffer_conserves_bytes[of "[CallRead 0 2, OnData [1], OnData [2, 3], CallReadAny 1]"]
  by (simp add: received_def)

text \<open>What is buffered when the socket closes is discarded: no later read returns any of it.\<close>

theorem close_discards_buffered_bytes:
  assumes "OnClose \<notin> set es"
  shows "returned (fst (buf_run new_sockbuf (es @ OnClose # es'))) @ buf (snd (buf_run new_sockbuf es))
         = received es"
proof -
  obtain os s where r: "buf_run new_sockbuf es = (os, s)" by force
  obtain o1 s1 where c: "buf_step s OnClose = (o1, s1)" by force
  have "\<not> ended s" using run_ended[OF r] assms by simp
  then have "returned o1 = []" "ended s1" "waiters s1 = []"
    using step_bytes[OF c] c by auto
  then have "returned (fst (buf_run new_sockbuf (es @ OnClose # es'))) = returned os"
    using run_after_end[of s1 es'] r c by (auto simp: buf_run_append split: prod.splits)
  then show ?thesis using run_bytes[OF r] assms r by simp
qed


theorem close_discards_buffered_bytes_witness:
  "returned (fst (buf_run new_sockbuf ([CallRead 0 1, OnData [7, 8]] @ OnClose # [CallRead 1 1, CallReadAny 2])))
   @ buf (snd (buf_run new_sockbuf [CallRead 0 1, OnData [7, 8]])) = [7, 8]"
  using close_discards_buffered_bytes[of "[CallRead 0 1, OnData [7, 8]]" "[CallRead 1 1, CallReadAny 2]"]
  by (simp add: received_def)

text \<open>
  With exact reads only, a run is one flush of everything received for everything asked: neither
  the chunking nor the interleaving of data and reads matters.
\<close>

fun quiet :: "buf_event \<Rightarrow> bool" where
  "quiet (OnData c) = True"
| "quiet (CallRead i n) = True"
| "quiet _ = False"

lemma exact_reads_append [simp]: "exact_reads (xs @ ys) = (exact_reads xs \<and> exact_reads ys)"
  by (simp add: exact_reads_def)

lemma quiet_calls: "list_all quiet es \<Longrightarrow> exact_reads (calls es)"
proof (induction es)
  case (Cons e es)
  then show ?case by (cases e) (auto simp: exact_reads_def)
qed (simp add: exact_reads_def)

lemma flush_exact: "flush b ws = (os, b', ws') \<Longrightarrow> exact_reads ws \<Longrightarrow> exact_reads ws'"
  by (metis exact_reads_append flush_suffix)

lemma quiet_step:
  assumes "quiet e" "\<not> ended s"
  shows "buf_step s e = flush_state (s\<lparr>buf := buf s @ data_of e, waiters := waiters s @ call_of e\<rparr>)"
  using assms by (cases e) simp_all

lemma quiet_run:
  assumes "list_all quiet es" "\<not> ended s" "exact_reads (waiters s)" "flush (buf s) (waiters s) = ([], buf s, waiters s)"
  shows "buf_run s es = flush_state (s\<lparr>buf := buf s @ received es, waiters := waiters s @ calls es\<rparr>)"
  using assms
proof (induction es arbitrary: s)
  case Nil
  then show ?case by (simp add: flush_state_def)
next
  case (Cons e es)
  obtain os b' ws' where f: "flush (buf s @ data_of e) (waiters s @ call_of e) = (os, b', ws')"
    by (metis prod_cases3)
  let ?s = "s\<lparr>buf := b', waiters := ws'\<rparr>"
  have step: "buf_step s e = (os, ?s)"
    using Cons.prems f by (simp add: quiet_step flush_state_def)
  have ex: "exact_reads (waiters s @ call_of e)"
    using Cons.prems quiet_calls[of "[e]"] by simp
  have rest: "buf_run ?s es = flush_state (?s\<lparr>buf := b' @ received es, waiters := ws' @ calls es\<rparr>)"
    using Cons.IH[of ?s] Cons.prems flush_idle[OF f] flush_exact[OF f ex] by simp
  show ?case
    using flush_continue[OF f ex, of "received es" "calls es"]
    by (simp add: step rest) (simp add: flush_state_def split: prod.splits)
qed

text \<open>C16. Reads of known lengths give the same bytes to the same callers however the network cuts the
  stream into chunks and whenever the reads are made: a run is determined by the whole stream and
  the list of reads.\<close>

theorem exact_reads_ignore_chunking:
  assumes "list_all quiet es" "list_all quiet es'" "received es = received es'" "calls es = calls es'"
  shows "buf_run new_sockbuf es = buf_run new_sockbuf es'"
  using assms quiet_run[of es new_sockbuf] quiet_run[of es' new_sockbuf] by (simp add: exact_reads_def)

theorem exact_reads_ignore_chunking_witness:
  "buf_run new_sockbuf [CallRead 0 3, OnData [1], OnData [2], CallRead 1 1, OnData [3, 4, 5]]
   = buf_run new_sockbuf [OnData [1, 2, 3, 4], CallRead 0 3, OnData [5], CallRead 1 1]"
  by (rule exact_reads_ignore_chunking) (simp_all add: received_def calls_def)

section \<open>The interface of the protocol readers\<close>

text \<open>
  What a protocol reader assumes of its source: \<open>read(n)\<close> gives exactly the next \<open>n\<close> bytes of the
  stream when it has them and fails otherwise. \<open>avail\<close> is the rest of the stream.
\<close>

locale byte_source =
  fixes rd :: "'s \<Rightarrow> nat \<Rightarrow> error + bytes \<times> 's"
    and avail :: "'s \<Rightarrow> bytes"
    and ok :: "'s \<Rightarrow> bool"
  assumes rd_enough: "\<lbrakk>ok s; n \<le> length (avail s)\<rbrakk>
      \<Longrightarrow> \<exists>s'. rd s n = Inr (take n (avail s), s') \<and> avail s' = drop n (avail s) \<and> ok s'"
    and rd_short: "\<lbrakk>ok s; length (avail s) < n\<rbrakk> \<Longrightarrow> \<exists>e. rd s n = Inl e"
begin

lemma rd_append:
  assumes "ok s" "avail s = bs @ rest" "length bs = n"
  shows "\<exists>s'. rd s n = Inr (bs, s') \<and> avail s' = rest \<and> ok s'"
  using rd_enough[OF assms(1), of n] assms by simp

lemma rd_result:
  assumes "ok s" "rd s n = Inr (bs, s')"
  shows "avail s = bs @ avail s' \<and> length bs = n \<and> ok s'"
proof (cases "n \<le> length (avail s)")
  case True
  then show ?thesis using rd_enough[OF assms(1) True] assms(2) by auto
next
  case False
  then show ?thesis using rd_short[OF assms(1), of n] assms(2) by auto
qed

end


context byte_source begin

lemma read_head_step:
  assumes "ok s" "avail s = b # bs"
  shows "\<exists>s'. ok s' \<and> avail s' = bs \<and>
    read_head rd m s acc =
      (let acc' = acc @ [unit_char (unat b)] in
       if endsWith acc' crlf2 then Some (Inr (acc', s'))
       else if 65536 < length acc' then Some (Inl (Error m))
       else read_head rd m s' acc')"
proof -
  obtain s' where s': "rd s 1 = Inr ([b], s')" "avail s' = bs" "ok s'"
    using rd_append[of s "[b]" bs 1] assms by auto
  then show ?thesis
    by (intro exI[of _ s']) (simp add: read_head.simps[of rd m s acc] latin1_def Let_def)
qed

lemma read_head_stop:
  assumes "ok s" "avail s = []"
  shows "\<exists>e. read_head rd m s acc = Some (Inl e)"
proof -
  obtain e where "rd s 1 = Inl e" using rd_short[of s 1] assms by auto
  then show ?thesis by (simp add: read_head.simps[of rd m s acc])
qed

lemma read_head_returns: "ok s \<Longrightarrow> read_head rd m s acc \<noteq> None"
proof (induction "avail s" arbitrary: s acc)
  case Nil
  then show ?case using read_head_stop[of s m acc] by auto
next
  case (Cons b bs)
  then obtain s' where "ok s'" "avail s' = bs" "read_head rd m s acc =
      (let acc' = acc @ [unit_char (unat b)] in
       if endsWith acc' crlf2 then Some (Inr (acc', s'))
       else if 65536 < length acc' then Some (Inl (Error m))
       else read_head rd m s' acc')"
    using read_head_step[of s b bs m acc] by auto
  then show ?case using Cons.hyps(1)[of s'] by (simp add: Let_def)
qed

text \<open>A block is taken up to and including its first blank line, and not a byte more.\<close>

lemma read_head_block:
  assumes "ok s" "avail s = bs @ rest" "bs \<noteq> []" "endsWith (acc @ latin1 bs) crlf2"
    "\<forall>k. 0 < k \<and> k < length bs \<longrightarrow> \<not> endsWith (acc @ latin1 (take k bs)) crlf2"
    "length acc + length bs \<le> 65537"
  shows "\<exists>s'. read_head rd m s acc = Some (Inr (acc @ latin1 bs, s')) \<and> avail s' = rest \<and> ok s'"
  using assms
proof (induction bs arbitrary: s acc)
  case (Cons b bs)
  obtain s' where s': "ok s'" "avail s' = bs @ rest" "read_head rd m s acc =
      (let acc' = acc @ [unit_char (unat b)] in
       if endsWith acc' crlf2 then Some (Inr (acc', s'))
       else if 65536 < length acc' then Some (Inl (Error m))
       else read_head rd m s' acc')"
    using read_head_step[of s b "bs @ rest" m acc] Cons.prems by auto
  show ?case
  proof (cases "bs = []")
    case True
    then show ?thesis using s' Cons.prems by (auto simp: latin1_def Let_def)
  next
    case False
    have "\<not> endsWith (acc @ [unit_char (unat b)]) crlf2"
      using Cons.prems(5)[rule_format, of 1] False by (simp add: latin1_def)
    moreover have "\<not> endsWith ((acc @ [unit_char (unat b)]) @ latin1 (take k bs)) crlf2"
      if "0 < k \<and> k < length bs" for k
      using Cons.prems(5)[rule_format, of "Suc k"] that by (simp add: latin1_def)
    moreover have "length acc < 65536" using Cons.prems(6) False by (cases bs) auto
    ultimately show ?thesis
      using Cons.IH[of s' "acc @ [unit_char (unat b)]"] s' Cons.prems(4,6) False
      by (auto simp: latin1_def Let_def)
  qed
qed simp

lemma header_block:
  assumes "ok s" "avail s = head @ [13, 10, 13, 10] @ rest"
    "\<forall>k < length head + 4. \<not> endsWith (latin1 (take k (head @ [13, 10, 13, 10]))) crlf2"
    "length head \<le> 65533"
  shows "\<exists>s'. readUntilCrlfCrlf rd s = Some (Inr (latin1 head, s')) \<and> avail s' = rest \<and> ok s'"
proof -
  let ?bs = "head @ [13, 10, 13, 10]"
  have "latin1 ?bs = latin1 head @ crlf2" by (simp add: latin1_def crlf2_def)
  then have "endsWith ([] @ latin1 ?bs) crlf2" by (simp add: endsWith_def suffix_def)
  then obtain s' where "read_head rd ''header block too large'' s [] = Some (Inr (latin1 ?bs, s'))"
    "avail s' = rest" "ok s'"
    using read_head_block[of s ?bs rest "[]" "''header block too large''"] assms by auto
  then show ?thesis by (auto simp: readUntilCrlfCrlf_def latin1_def)
qed

end

section \<open>Both sources provide it\<close>

lemma iter_read_spec:
  "(count \<le> length (pending s @ concat (chunks s)) \<longrightarrow>
     (\<exists>s'. iter_read s count = Inr (take count (pending s @ concat (chunks s)), s') \<and>
        pending s' @ concat (chunks s') = drop count (pending s @ concat (chunks s)))) \<and>
   (length (pending s @ concat (chunks s)) < count \<longrightarrow>
     iter_read s count = Inl (Error ''connection closed while reading''))"
proof (induction s count rule: iter_read.induct)
  case (1 s count)
  show ?case
  proof (cases "length (pending s) < count")
    case False
    then show ?thesis by (simp add: iter_read.simps[of s count])
  next
    case True
    then show ?thesis
      using 1 by (cases "chunks s") (simp_all add: iter_read.simps[of s count])
  qed
qed

definition iter_avail :: "itersource \<Rightarrow> bytes" where
  "iter_avail s = pending s @ concat (chunks s)"

interpretation iter: byte_source iter_read iter_avail "\<lambda>_. True"
proof unfold_locales
  fix s n
  show "n \<le> length (iter_avail s) \<Longrightarrow>
      \<exists>s'. iter_read s n = Inr (take n (iter_avail s), s') \<and> iter_avail s' = drop n (iter_avail s) \<and> True"
    using iter_read_spec[of n s] by (auto simp: iter_avail_def)
  show "length (iter_avail s) < n \<Longrightarrow> \<exists>e. iter_read s n = Inl e"
    using iter_read_spec[of n s] by (auto simp: iter_avail_def)
qed

text \<open>
  A connection: the buffer and the chunks the socket has still to deliver before it closes. A
  \<open>read\<close> takes what is buffered and otherwise waits through the socket's next events.
\<close>

record conn =
  sb :: sockbuf
  arriving :: "bytes list"

fun settle :: "outcome \<Rightarrow> 's \<Rightarrow> error + bytes \<times> 's" where
  "settle (Resolved b) s = Inr (b, s)"
| "settle ResolvedNull s = Inr ([], s)"
| "settle (Rejected e) s = Inl e"

fun conn_wait :: "outcomes \<Rightarrow> sockbuf \<Rightarrow> bytes list \<Rightarrow> outcome \<times> conn" where
  "conn_wait (r # rs) s cs = (snd r, \<lparr>sb = s, arriving = cs\<rparr>)"
| "conn_wait [] s [] =
     (case buf_step s OnClose of
        (r # rs, s') \<Rightarrow> (snd r, \<lparr>sb = s', arriving = []\<rparr>)
      | ([], s') \<Rightarrow> (ResolvedNull, \<lparr>sb = s', arriving = []\<rparr>))"
| "conn_wait [] s (c # cs) = (case buf_step s (OnData c) of (rs, s') \<Rightarrow> conn_wait rs s' cs)"

definition conn_read :: "conn \<Rightarrow> nat \<Rightarrow> error + bytes \<times> conn" where
  "conn_read c n =
     (case buf_step (sb c) (CallRead 0 n) of
        (rs, s) \<Rightarrow> (case conn_wait rs s (arriving c) of (r, c') \<Rightarrow> settle r c'))"

definition conn_avail :: "conn \<Rightarrow> bytes" where
  "conn_avail c = buf (sb c) @ concat (arriving c)"

definition conn_ok :: "conn \<Rightarrow> bool" where
  "conn_ok c = (\<not> ended (sb c) \<and> waiters (sb c) = [])"

lemma conn_wait_spec:
  assumes "\<not> ended s" "waiters s = [Exact i n]" "length (buf s) < n"
  shows "if n \<le> length (buf s @ concat cs)
     then \<exists>c. conn_wait [] s cs = (Resolved (take n (buf s @ concat cs)), c) \<and> conn_ok c \<and>
            conn_avail c = drop n (buf s @ concat cs)
     else \<exists>c. conn_wait [] s cs = (Rejected (Error ''connection closed while reading''), c)"
  using assms
proof (induction cs arbitrary: s)
  case (Cons x cs)
  show ?case
    using Cons.prems Cons.IH[of "s\<lparr>buf := buf s @ x, waiters := [Exact i n]\<rparr>"]
    by (auto simp: flush_state_def conn_ok_def conn_avail_def)
qed auto

interpretation conn: byte_source conn_read conn_avail conn_ok
proof unfold_locales
  fix c n assume ok: "conn_ok c"
  let ?s = "(sb c)\<lparr>waiters := [Exact 0 n]\<rparr>"
  have r: "conn_read c n =
    (if n \<le> length (buf (sb c))
     then Inr (take n (buf (sb c)), c\<lparr>sb := (sb c)\<lparr>buf := drop n (buf (sb c))\<rparr>\<rparr>)
     else case conn_wait [] ?s (arriving c) of (r, c') \<Rightarrow> settle r c')"
    using ok by (auto simp: conn_read_def conn_ok_def flush_state_def)
  show "\<exists>c'. conn_read c n = Inr (take n (conn_avail c), c') \<and>
      conn_avail c' = drop n (conn_avail c) \<and> conn_ok c'" if "n \<le> length (conn_avail c)"
    using ok that conn_wait_spec[of ?s 0 n "arriving c"]
    by (auto simp: r conn_avail_def conn_ok_def)
  show "\<exists>e. conn_read c n = Inl e" if "length (conn_avail c) < n"
    using ok that conn_wait_spec[of ?s 0 n "arriving c"]
    by (auto simp: r conn_avail_def conn_ok_def)
qed


section \<open>Properties of the header loop\<close>

text \<open>The header loop hands over exactly the first header block: the text before the first blank
  line is returned and everything after it stays buffered for the relay, whatever the chunks.\<close>

theorem header_block_leaves_the_rest:
  assumes "conn_ok c" "conn_avail c = head @ [13, 10, 13, 10] @ rest"
    "\<forall>k < length head + 4. \<not> endsWith (latin1 (take k (head @ [13, 10, 13, 10]))) crlf2"
    "length head \<le> 65533"
  shows "\<exists>c'. readUntilCrlfCrlf conn_read c = Some (Inr (latin1 head, c')) \<and> conn_avail c' = rest \<and> conn_ok c'"
  using conn.header_block[OF assms] .

theorem header_block_leaves_the_rest_witness:
  "\<exists>c'. readUntilCrlfCrlf conn_read \<lparr>sb = new_sockbuf, arriving = [[72, 13], [10, 13, 10, 1], [2]]\<rparr>
       = Some (Inr (latin1 [72], c')) \<and> conn_avail c' = [1, 2] \<and> conn_ok c'"
proof -
  have "\<forall>k < length [72] + 4. \<not> endsWith (latin1 (take k ([72] @ [13, 10, 13, 10]))) crlf2"
    by code_simp
  then show ?thesis
    by (intro header_block_leaves_the_rest) (simp_all add: conn_ok_def conn_avail_def)
qed



end
