(* ===== verification/Ws.thy ===== *)
theory Ws
  imports SocketBuffer JsNumber
begin

text \<open>
  \<open>lib/core/ws.js\<close>: the client side of a WebSocket over a connection. The upgrade handshake, the
  masked frame writer, and the frame reader that answers pings and ends at a close frame, over any
  \<open>byte_source\<close>. \<open>randomBytes\<close> is the argument \<open>rnd\<close>: the value of its n-th call.
\<close>

section \<open>The handshake\<close>

definition crlf :: string where
  "crlf = map unit_char [13, 10]"

definition ws_request :: "string \<Rightarrow> string \<Rightarrow> string \<Rightarrow> string list \<Rightarrow> string" where
  "ws_request key path host extra =
     join crlf
       ([''GET '' @ path @ '' HTTP/1.1'', ''Host: '' @ host, ''Upgrade: websocket'', ''Connection: Upgrade'',
         ''Sec-WebSocket-Key: '' @ key, ''Sec-WebSocket-Version: 13''] @ extra @ ['''', ''''])"

definition is_word_char :: "char \<Rightarrow> bool" where
  "is_word_char c \<longleftrightarrow>
     (let n = code_unit c
      in 48 \<le> n \<and> n \<le> 57 \<or> 65 \<le> n \<and> n \<le> 90 \<or> 97 \<le> n \<and> n \<le> 122 \<or> n = 95)"

text \<open>\<open>/^HTTP\/1\.[01] 101\b/.test(head)\<close>.\<close>

definition is_upgrade :: "string \<Rightarrow> bool" where
  "is_upgrade head \<longleftrightarrow>
     (startsWith head ''HTTP/1.0 101'' \<or> startsWith head ''HTTP/1.1 101'')
     \<and> (case drop 12 head of [] \<Rightarrow> True | c # _ \<Rightarrow> \<not> is_word_char c)"

text \<open>\<open>head.split("\r\n")[0]\<close>.\<close>

definition first_line :: "string \<Rightarrow> string" where
  "first_line head = hd (split_two (unit_char 13) (unit_char 10) head)"

text \<open>What follows once the request has been written; \<open>None\<close> is a loop that never ends.\<close>

definition wsHandshake ::
  "('s \<Rightarrow> nat \<Rightarrow> error + bytes \<times> 's) \<Rightarrow> 's \<Rightarrow> (error + 's) option" where
  "wsHandshake rd s =
     (case read_head rd ''ws: handshake header too large'' s [] of
        None \<Rightarrow> None
      | Some (Inl e) \<Rightarrow> Some (Inl e)
      | Some (Inr (head, s')) \<Rightarrow>
          (if is_upgrade head then Some (Inr s')
           else Some (Inl (Error (''ws: upgrade rejected: '' @ first_line head)))))"

section \<open>Frames\<close>

definition maskPayload :: "bytes \<Rightarrow> bytes \<Rightarrow> bytes" where
  "maskPayload payload maskKey = map (\<lambda>i. xor (payload ! i) (maskKey ! (i mod 4))) [0..<length payload]"

definition ws_write :: "bytes \<Rightarrow> bytes \<Rightarrow> bytes" where
  "ws_write maskKey payload =
     (let header =
        (if length payload < 126 then [0x82, or 0x80 (of_nat (length payload))]
         else if length payload < 65536 then [0x82, or 0x80 126] @ be_bytes 2 (length payload)
         else [0x82, or 0x80 127] @ be_bytes 8 (length payload))
      in header @ maskKey @ maskPayload payload maskKey)"

text \<open>The reader: its byte source, what it has written to the socket (pongs), the random draws made.\<close>

record 's ws =
  ws_src :: 's
  ws_sent :: "bytes list"
  ws_draws :: nat

datatype frame = Yield bytes | Continue | Return

text \<open>The 64-bit length goes through \<open>Number\<close>, which rounds it above 2^53.\<close>

definition read_length ::
  "('s \<Rightarrow> nat \<Rightarrow> error + bytes \<times> 's) \<Rightarrow> 's \<Rightarrow> byte \<Rightarrow> error + nat \<times> 's" where
  "read_length rd s b1 =
     (let len = and b1 0x7f in
      if len = 126 then bind_res (rd s 2) (\<lambda>(x, s'). Inr (be_nat x, s'))
      else if len = 127 then
        bind_res (rd s 8) (\<lambda>(x, s'). Inr (nat (num_trunc (num_of_int (int (be_nat x)))), s'))
      else Inr (unat len, s))"

definition ws_pong :: "bytes \<Rightarrow> bytes \<Rightarrow> bytes" where
  "ws_pong pongMask payload =
     [0x8a, or 0x80 (of_nat (length payload))] @ pongMask @ maskPayload payload pongMask"

definition ws_frame ::
  "('s \<Rightarrow> nat \<Rightarrow> error + bytes \<times> 's) \<Rightarrow> (nat \<Rightarrow> bytes) \<Rightarrow> 's ws \<Rightarrow> error + frame \<times> 's ws" where
  "ws_frame rd rnd w =
     bind_res (rd (ws_src w) 1) (\<lambda>(x0, s0).
     bind_res (rd s0 1) (\<lambda>(x1, s1).
       let opcode = and (hd x0) 0x0f; masked = (and (hd x1) 0x80 \<noteq> 0) in
     bind_res (read_length rd s1 (hd x1)) (\<lambda>(len, s2).
     bind_res (if masked then bind_res (rd s2 4) (\<lambda>(k, s). Inr (Some k, s)) else Inr (None, s2)) (\<lambda>(key, s3).
     bind_res (rd s3 len) (\<lambda>(raw, s4).
       let payload = (case key of Some k \<Rightarrow> maskPayload raw k | None \<Rightarrow> raw);
           w' = w\<lparr>ws_src := s4\<rparr> in
       if opcode = 8 then Inr (Return, w')
       else if opcode = 9 then
         Inr (Continue, w'\<lparr>ws_sent := ws_sent w @ [ws_pong (rnd (ws_draws w)) payload],
                           ws_draws := Suc (ws_draws w)\<rparr>)
       else if opcode = 10 then Inr (Continue, w')
       else if payload \<noteq> [] then Inr (Yield payload, w') else Inr (Continue, w'))))))"

text \<open>The generator's \<open>next()\<close>: the next payload, \<open>None\<close> inside when the stream is done.\<close>

partial_function (option) ws_next ::
  "('s \<Rightarrow> nat \<Rightarrow> error + bytes \<times> 's) \<Rightarrow> (nat \<Rightarrow> bytes) \<Rightarrow> 's ws \<Rightarrow> (error + bytes option \<times> 's ws) option" where
  "ws_next rd rnd w =
     (case ws_frame rd rnd w of
        Inl e \<Rightarrow> Some (Inl e)
      | Inr (f, w') \<Rightarrow>
          (case f of
             Yield p \<Rightarrow> Some (Inr (Some p, w'))
           | Return \<Rightarrow> Some (Inr (None, w'))
           | Continue \<Rightarrow> ws_next rd rnd w'))"

text \<open>A consumer's \<open>for await\<close> loop over the generator: the payloads until it is done.\<close>

partial_function (option) ws_drain ::
  "('s \<Rightarrow> nat \<Rightarrow> error + bytes \<times> 's) \<Rightarrow> (nat \<Rightarrow> bytes) \<Rightarrow> 's ws \<Rightarrow> bytes list \<Rightarrow> (error + bytes list \<times> 's ws) option" where
  "ws_drain rd rnd w acc =
     (case ws_next rd rnd w of
        None \<Rightarrow> None
      | Some (Inl e) \<Rightarrow> Some (Inl e)
      | Some (Inr (None, w')) \<Rightarrow> Some (Inr (acc, w'))
      | Some (Inr (Some p, w')) \<Rightarrow> ws_drain rd rnd w' (acc @ [p]))"

declare ws_next.simps [simp del] ws_drain.simps [simp del]


section \<open>Masking\<close>

lemma length_maskPayload [simp]: "length (maskPayload p k) = length p"
  by (simp add: maskPayload_def)

lemma maskPayload_Nil_iff [simp]: "maskPayload p k = [] \<longleftrightarrow> p = []"
  by (simp add: maskPayload_def)

lemma maskPayload_twice [simp]: "maskPayload (maskPayload p k) k = p"
  by (rule nth_equalityI) (simp_all add: maskPayload_def xor.assoc)

section \<open>The frame format\<close>

text \<open>A final frame (RFC 6455, 5.2): opcode, mask flag, shortest length code, key, payload.\<close>

definition length_code :: "nat \<Rightarrow> byte \<times> bytes" where
  "length_code n =
     (if n < 126 then (of_nat n, [])
      else if n < 65536 then (126, be_bytes 2 n) else (127, be_bytes 8 n))"

definition frame_bytes :: "byte \<Rightarrow> bytes option \<Rightarrow> bytes \<Rightarrow> bytes" where
  "frame_bytes op key payload =
     (case length_code (length payload) of (code, ext) \<Rightarrow>
        (case key of
           None \<Rightarrow> [or 0x80 op, code] @ ext @ payload
         | Some k \<Rightarrow> [or 0x80 op, or 0x80 code] @ ext @ k @ maskPayload payload k))"

lemma ws_write_frame: "ws_write k p = frame_bytes 2 (Some k) p"
  by (simp add: ws_write_def frame_bytes_def length_code_def Let_def)

lemma ws_pong_frame: "length p < 126 \<Longrightarrow> ws_pong k p = frame_bytes 10 (Some k) p"
  by (simp add: ws_pong_def frame_bytes_def length_code_def)

lemma and_7bits: "n < 128 \<Longrightarrow> unat (and (of_nat n :: byte) 127) = n"
proof -
  assume "n < 128"
  then have "take_bit 7 n = n" by (simp add: take_bit_nat_eq_self)
  then have "and n 127 = n" by (simp add: take_bit_eq_mask mask_eq_exp_minus_1)
  then show ?thesis using \<open>n < 128\<close> by (simp add: unsigned_and_eq unsigned_of_nat take_bit_nat_eq_self)
qed

lemma byte_bits:
  "bit (128 :: byte) n \<longleftrightarrow> n = 7" "bit (15 :: byte) n \<longleftrightarrow> n < 4" "bit (127 :: byte) n \<longleftrightarrow> n < 7"
proof -
  have e: "128 = (2 ^ 7 :: byte)" "15 = (mask 4 :: byte)" "127 = (mask 7 :: byte)"
    by (simp_all add: mask_eq_exp_minus_1)
  show "bit (128 :: byte) n \<longleftrightarrow> n = 7" unfolding e(1) bit_exp_iff by auto
  show "bit (15 :: byte) n \<longleftrightarrow> n < 4" unfolding e(2) bit_mask_iff by auto
  show "bit (127 :: byte) n \<longleftrightarrow> n < 7" unfolding e(3) bit_mask_iff by auto
qed

lemma opcode_bits: "unat op < 16 \<Longrightarrow> and (or 128 op) 15 = (op :: byte)"
proof -
  assume "unat op < 16"
  then have "take_bit 4 (unat op) = unat op" by (simp add: take_bit_nat_eq_self)
  then have "take_bit 4 op = op" by (metis unsigned_take_bit_eq unsigned_word_eqI)
  then have "bit op n \<Longrightarrow> n < 4" for n by (metis bit_take_bit_iff)
  then show ?thesis by (intro bit_eqI) (simp only: bit_and_iff bit_or_iff byte_bits, auto)
qed

lemma mask_flag: "and (or 128 b) 128 = (128 :: byte)" "and (or 128 b) 127 = and b (127 :: byte)"
  by (rule bit_eqI, simp only: bit_and_iff bit_or_iff byte_bits, auto)+

lemma small_byte: "n < 128 \<Longrightarrow> and (of_nat n :: byte) 128 = 0" "n < 128 \<Longrightarrow> and (of_nat n :: byte) 127 = of_nat n"
proof -
  show *: "and (of_nat n :: byte) 127 = of_nat n" if "n < 128"
    using and_7bits[OF that] that by (metis of_nat_unat_byte)
  have "and (and (of_nat n :: byte) 127) 128 = 0"
    by (rule bit_eqI) (simp only: bit_and_iff byte_bits, auto)
  then show "and (of_nat n :: byte) 128 = 0" if "n < 128" by (simp add: *[OF that])
qed

lemma code_cases:
  assumes "length_code n = (code, ext)"
  shows "and code 128 = 0" "and code 127 = code"
    "n < 126 \<Longrightarrow> code \<noteq> 126 \<and> code \<noteq> 127 \<and> unat code = n \<and> ext = []"
proof -
  define k where "k = (if n < 126 then n else if n < 65536 then 126 else 127)"
  have k: "k < 128" "code = of_nat k"
    using assms by (auto simp: k_def length_code_def split: if_splits)
  show "and code 128 = 0" "and code 127 = code" using k small_byte by auto
  have "unat code = n \<and> ext = []" if "n < 126"
    using assms that by (auto simp: length_code_def)
  then show "n < 126 \<Longrightarrow> code \<noteq> 126 \<and> code \<noteq> 127 \<and> unat code = n \<and> ext = []"
    by auto
qed

text \<open>What the reader does with a frame.\<close>

definition frame_effect :: "(nat \<Rightarrow> bytes) \<Rightarrow> byte \<Rightarrow> bytes \<Rightarrow> 's ws \<Rightarrow> frame \<times> 's ws" where
  "frame_effect rnd op payload w =
     (if op = 8 then (Return, w)
      else if op = 9 then
        (Continue, w\<lparr>ws_sent := ws_sent w @ [ws_pong (rnd (ws_draws w)) payload], ws_draws := Suc (ws_draws w)\<rparr>)
      else if op = 10 then (Continue, w)
      else if payload \<noteq> [] then (Yield payload, w) else (Continue, w))"

context byte_source begin

lemma read_length_code:
  assumes "ok s" "length_code n = (code, ext)" "n < 2 ^ 53" "and b1 127 = code" "avail s = ext @ rest"
  shows "\<exists>s'. read_length rd s b1 = Inr (n, s') \<and> avail s' = rest \<and> ok s'"
proof -
  have n: "nat (num_trunc (num_of_int (int n))) = n"
    using assms(3) by (simp add: num_of_int_small)
  consider "n < 126" | "126 \<le> n" "n < 65536" | "65536 \<le> n" by linarith
  then show ?thesis
  proof cases
    case 1
    then show ?thesis using assms code_cases[OF assms(2)] by (auto simp: read_length_def Let_def)
  next
    case 2
    then have e: "code = 126" "ext = be_bytes 2 n" using assms(2) by (auto simp: length_code_def)
    obtain s' where "rd s 2 = Inr (ext, s')" "avail s' = rest" "ok s'"
      using rd_append[OF assms(1,5)] e by auto
    then show ?thesis using 2 e assms(4) by (auto simp: read_length_def Let_def)
  next
    case 3
    then have e: "code = 127" "ext = be_bytes 8 n" using assms(2) by (auto simp: length_code_def)
    obtain s' where "rd s 8 = Inr (ext, s')" "avail s' = rest" "ok s'"
      using rd_append[OF assms(1,5)] e by auto
    then show ?thesis using 3 e assms(3,4) n by (auto simp: read_length_def Let_def)
  qed
qed

lemma ws_frame_reads:
  assumes "ok (ws_src w)" "avail (ws_src w) = frame_bytes op key p @ rest" "unat op < 16"
    "length p < 2 ^ 53" "\<forall>k. key = Some k \<longrightarrow> length k = 4"
  shows "\<exists>s'. ws_frame rd rnd w = Inr (frame_effect rnd op p (w\<lparr>ws_src := s'\<rparr>)) \<and> avail s' = rest \<and> ok s'"
proof -
  obtain code ext where c: "length_code (length p) = (code, ext)" by force
  define b1 where "b1 = (case key of None \<Rightarrow> code | Some k \<Rightarrow> or 128 code)"
  define body where "body = (case key of None \<Rightarrow> p | Some k \<Rightarrow> maskPayload p k)"
  define kb where "kb = (case key of None \<Rightarrow> [] | Some k \<Rightarrow> k)"
  have a: "avail (ws_src w) = [or 128 op] @ [b1] @ ext @ kb @ body @ rest"
    using assms(2) c by (simp add: frame_bytes_def b1_def body_def kb_def split: option.splits)
  obtain s0 where s0: "rd (ws_src w) 1 = Inr ([or 128 op], s0)" "avail s0 = [b1] @ ext @ kb @ body @ rest" "ok s0"
    using rd_append[OF assms(1) a] by auto
  obtain s1 where s1: "rd s0 1 = Inr ([b1], s1)" "avail s1 = ext @ kb @ body @ rest" "ok s1"
    using rd_append[OF s0(3,2)] by auto
  have "and b1 127 = code" using code_cases[OF c] by (simp add: b1_def mask_flag split: option.splits)
  then obtain s2 where s2: "read_length rd s1 b1 = Inr (length p, s2)" "avail s2 = kb @ body @ rest" "ok s2"
    using read_length_code[OF s1(3) c assms(4) _ s1(2)] by auto
  have m: "(and b1 128 \<noteq> 0) = (key \<noteq> None)"
    using code_cases[OF c] by (simp add: b1_def mask_flag split: option.splits)
  obtain s3 where s3: "(if and b1 128 \<noteq> 0 then bind_res (rd s2 4) (\<lambda>(k, s). Inr (Some k, s)) else Inr (None, s2))
       = Inr (key, s3)" "avail s3 = body @ rest" "ok s3"
  proof (cases key)
    case None
    then show ?thesis using that[of s2] s2 m by (simp add: kb_def)
  next
    case (Some k)
    then obtain s' where "rd s2 4 = Inr (k, s')" "avail s' = body @ rest" "ok s'"
      using rd_append[OF s2(3), of k "body @ rest" 4] s2(2) assms(5) by (auto simp: kb_def)
    then show ?thesis using that[of s'] m Some by simp
  qed
  obtain s4 where s4: "rd s3 (length p) = Inr (body, s4)" "avail s4 = rest" "ok s4"
    using rd_append[OF s3(3,2)] by (auto simp: body_def split: option.splits)
  have body: "(case key of Some k \<Rightarrow> maskPayload body k | None \<Rightarrow> body) = p"
    by (simp add: body_def split: option.splits)
  have "ws_frame rd rnd w = Inr (frame_effect rnd op p (w\<lparr>ws_src := s4\<rparr>))"
    using s0(1) s1(1) s2(1) s3(1) s4(1) body
    by (simp add: ws_frame_def Let_def opcode_bits[OF assms(3)] frame_effect_def)
  then show ?thesis using s4 by blast
qed

lemma rd_shorter:
  assumes "ok s" "rd s n = Inr (x, s')"
  shows "ok s' \<and> length (avail s') + n = length (avail s)"
  using rd_result[OF assms] by auto

lemma read_length_result:
  assumes "ok s" "read_length rd s b1 = Inr (n, s')"
  shows "ok s' \<and> length (avail s') \<le> length (avail s)"
  using assms rd_shorter[OF assms(1)]
  by (fastforce simp: read_length_def Let_def bind_res_Inr_iff split: if_splits)

lemma ws_frame_consumes:
  assumes "ok (ws_src w)" "ws_frame rd rnd w = Inr (f, w')"
  shows "ok (ws_src w') \<and> length (avail (ws_src w')) < length (avail (ws_src w))"
proof -
  obtain x0 s0 where r0: "rd (ws_src w) 1 = Inr (x0, s0)"
    using assms(2) unfolding ws_frame_def by (auto simp: bind_res_Inr_iff)
  note 0 = rd_shorter[OF assms(1) r0]
  obtain x1 s1 where r1: "rd s0 1 = Inr (x1, s1)"
    using assms(2) r0 unfolding ws_frame_def by (auto simp: bind_res_Inr_iff)
  note 1 = rd_shorter[OF conjunct1[OF 0] r1]
  obtain len s2 where r2: "read_length rd s1 (hd x1) = Inr (len, s2)"
    using assms(2) r0 r1 unfolding ws_frame_def Let_def by (auto simp: bind_res_Inr_iff)
  note 2 = read_length_result[OF conjunct1[OF 1] r2]
  let ?k = "\<lambda>s2 b. if b then bind_res (rd s2 4) (\<lambda>(k, s). Inr (Some k, s)) else Inr (None, s2)"
  obtain key s3 where r3: "?k s2 (and (hd x1) 128 \<noteq> 0) = Inr (key, s3)"
    using assms(2) r0 r1 r2 unfolding ws_frame_def Let_def
    by (cases "?k s2 (and (hd x1) 128 \<noteq> 0)") auto
  have 3: "ok s3 \<and> length (avail s3) \<le> length (avail s2)"
    using r3 2 rd_shorter[of s2] by (fastforce simp: bind_res_Inr_iff split: if_splits)
  obtain raw s4 where r4: "rd s3 len = Inr (raw, s4)"
    using assms(2) r0 r1 r2 r3 unfolding ws_frame_def Let_def by (cases "rd s3 len") auto
  note 4 = rd_shorter[OF conjunct1[OF 3] r4]
  have "ws_src w' = s4"
    using assms(2) r0 r1 r2 r3 r4 unfolding ws_frame_def Let_def by (auto split: if_splits)
  then show ?thesis using 0 1 2 3 4 by auto
qed

end


section \<open>Streams of frames\<close>

text \<open>What a server sends: payload frames (text, binary or continuation), pings and pongs.\<close>

datatype server_frame = Payload byte bytes | Ping bytes | Pong bytes

fun server_bytes :: "server_frame \<Rightarrow> bytes" where
  "server_bytes (Payload op p) = frame_bytes op None p"
| "server_bytes (Ping p) = frame_bytes 9 None p"
| "server_bytes (Pong p) = frame_bytes 10 None p"

fun server_frame_ok :: "server_frame \<Rightarrow> bool" where
  "server_frame_ok (Payload op p) = (unat op \<le> 2 \<and> length p < 2 ^ 53)"
| "server_frame_ok (Ping p) = (length p < 126)"
| "server_frame_ok (Pong p) = (length p < 126)"

text \<open>The payloads a consumer must see, and the pongs the peer must get back.\<close>

definition stream_data :: "server_frame list \<Rightarrow> bytes list" where
  "stream_data fs = concat (map (\<lambda>f. case f of Payload op p \<Rightarrow> if p = [] then [] else [p] | _ \<Rightarrow> []) fs)"

definition pings :: "server_frame list \<Rightarrow> bytes list" where
  "pings fs = concat (map (\<lambda>f. case f of Ping p \<Rightarrow> [p] | _ \<Rightarrow> []) fs)"

fun pongs :: "(nat \<Rightarrow> bytes) \<Rightarrow> nat \<Rightarrow> bytes list \<Rightarrow> bytes list" where
  "pongs rnd i [] = []"
| "pongs rnd i (p # ps) = frame_bytes 10 (Some (rnd i)) p # pongs rnd (Suc i) ps"

lemma stream_simps [simp]:
  "stream_data [] = []" "pings [] = []"
  "stream_data (Payload op p # fs) = (if p = [] then stream_data fs else p # stream_data fs)"
  "stream_data (Ping p # fs) = stream_data fs" "stream_data (Pong p # fs) = stream_data fs"
  "pings (Payload op p # fs) = pings fs" "pings (Ping p # fs) = p # pings fs" "pings (Pong p # fs) = pings fs"
  by (simp_all add: stream_data_def pings_def)

context byte_source begin

lemma ws_next_returns: "ok (ws_src w) \<Longrightarrow> ws_next rd rnd w \<noteq> None"
proof (induction "length (avail (ws_src w))" arbitrary: w rule: less_induct)
  case less
  show ?case
  proof (cases "ws_frame rd rnd w")
    case (Inr r)
    obtain f w' where r: "r = (f, w')" by force
    then show ?thesis
      using ws_frame_consumes[OF less.prems, of rnd f w'] less.hyps[of w'] Inr
      by (cases f) (auto simp: ws_next.simps[of rd rnd w])
  qed (simp add: ws_next.simps[of rd rnd w])
qed

lemma ws_next_consumes:
  "ok (ws_src w) \<Longrightarrow> ws_next rd rnd w = Some (Inr (r, w')) \<Longrightarrow>
   ok (ws_src w') \<and> length (avail (ws_src w')) < length (avail (ws_src w))"
proof (induction "length (avail (ws_src w))" arbitrary: w rule: less_induct)
  case less
  obtain f w1 where f: "ws_frame rd rnd w = Inr (f, w1)"
    using less.prems(2) by (auto simp: ws_next.simps[of rd rnd w] split: sum.splits)
  note c = ws_frame_consumes[OF less.prems(1) f]
  show ?case
    using less.prems(2) f c less.hyps[of w1]
    by (cases f) (auto simp: ws_next.simps[of rd rnd w])
qed

lemma ws_drain_returns: "ok (ws_src w) \<Longrightarrow> ws_drain rd rnd w acc \<noteq> None"
proof (induction "length (avail (ws_src w))" arbitrary: w acc rule: less_induct)
  case less
  show ?case
  proof (cases "ws_next rd rnd w")
    case None
    then show ?thesis using ws_next_returns[OF less.prems] by blast
  next
    case (Some r)
    then show ?thesis
      using ws_next_consumes[OF less.prems(1)] less.hyps
      by (subst ws_drain.simps) (auto split: sum.splits option.splits)
  qed
qed

lemma ws_next_frame:
  assumes "ws_frame rd rnd w = Inr (f, w')"
  shows "ws_next rd rnd w =
    (case f of Yield p \<Rightarrow> Some (Inr (Some p, w')) | Return \<Rightarrow> Some (Inr (None, w')) | Continue \<Rightarrow> ws_next rd rnd w')"
  by (simp add: ws_next.simps[of rd rnd w] assms)

lemma ws_drain_next:
  assumes "ws_next rd rnd w = ws_next rd rnd w'"
  shows "ws_drain rd rnd w acc = ws_drain rd rnd w' acc"
  using assms by (simp add: ws_drain.simps[of rd rnd w] ws_drain.simps[of rd rnd w'])

lemma ws_drain_stream:
  assumes "ok (ws_src w)" "avail (ws_src w) = concat (map server_bytes fs) @ frame_bytes 8 None reason @ rest"
    "list_all server_frame_ok fs" "length reason < 126"
  shows "\<exists>w'. ws_drain rd rnd w acc = Some (Inr (acc @ stream_data fs, w')) \<and> avail (ws_src w') = rest
           \<and> ok (ws_src w') \<and> ws_sent w' = ws_sent w @ pongs rnd (ws_draws w) (pings fs)"
  using assms
proof (induction fs arbitrary: w acc)
  case Nil
  then obtain s' where s': "ws_frame rd rnd w = Inr (frame_effect rnd 8 reason (w\<lparr>ws_src := s'\<rparr>))"
      "avail s' = rest" "ok s'"
    using ws_frame_reads[of w 8 None reason rest rnd] by auto
  show ?case
    by (intro exI[of _ "w\<lparr>ws_src := s'\<rparr>"])
       (simp add: ws_drain.simps[of rd rnd w] ws_next_frame[OF s'(1)[unfolded frame_effect_def, simplified]] s')
next
  case (Cons f fs)
  let ?rest = "concat (map server_bytes fs) @ frame_bytes 8 None reason @ rest"
  define op p where "op = (case f of Payload op p \<Rightarrow> op | Ping p \<Rightarrow> 9 | Pong p \<Rightarrow> 10)"
    and "p = (case f of Payload op p \<Rightarrow> p | Ping p \<Rightarrow> p | Pong p \<Rightarrow> p)"
  have op: "server_bytes f = frame_bytes op None p" "unat op < 16" "length p < 2 ^ 53"
    using Cons.prems(3) by (cases f; auto simp: op_def p_def)+
  obtain s' where s': "ws_frame rd rnd w = Inr (frame_effect rnd op p (w\<lparr>ws_src := s'\<rparr>))"
      "avail s' = ?rest" "ok s'"
    using ws_frame_reads[of w op None p ?rest rnd] Cons.prems op by auto
  show ?case
  proof (cases "op = 9 \<or> op = 10 \<or> p = []")
    case True
    define w' where "w' = snd (frame_effect rnd op p (w\<lparr>ws_src := s'\<rparr>))"
    have eff: "frame_effect rnd op p (w\<lparr>ws_src := s'\<rparr>) = (Continue, w')" "ws_src w' = s'"
      using True Cons.prems(3) by (cases f; force simp: frame_effect_def w'_def op_def p_def)+
    have eq: "ws_drain rd rnd w acc = ws_drain rd rnd w' acc"
      by (rule ws_drain_next) (simp add: ws_next_frame[OF s'(1)[unfolded eff(1)]])
    have pong: "ws_sent w' @ pongs rnd (ws_draws w') (pings fs) = ws_sent w @ pongs rnd (ws_draws w) (pings (f # fs))"
      "stream_data (f # fs) = stream_data fs"
      using True Cons.prems(3)
      by (cases f; force simp: frame_effect_def w'_def op_def p_def ws_pong_frame)+
    show ?thesis
      using Cons.IH[of w' acc] Cons.prems(3,4) s' eff(2) eq pong by auto
  next
    case False
    then have f: "f = Payload op p" "op \<noteq> 8"
      using Cons.prems(3) by (cases f; auto simp: op_def p_def)+
    define w' where "w' = w\<lparr>ws_src := s'\<rparr>"
    have "ws_drain rd rnd w acc = ws_drain rd rnd w' (acc @ [p])"
      using s'(1) False f(2)
      by (simp add: ws_drain.simps[of rd rnd w] ws_next_frame frame_effect_def w'_def)
    then show ?thesis
      using Cons.IH[of w' "acc @ [p]"] Cons.prems(3,4) s' f False by (auto simp: w'_def)
  qed
qed

end

section \<open>Properties\<close>

text \<open>C18. A frame the client writes is read back as the same payload by the client's own frame reader:
  masking is undone, each of the three length encodings is the one the reader expects, and not a
  byte beyond the frame is consumed.\<close>

theorem ws_frame_roundtrip:
  assumes "conn_ok c" "conn_avail c = ws_write k p @ rest" "length k = 4" "p \<noteq> []" "length p < 2 ^ 53"
  shows "\<exists>c'. ws_frame conn_read rnd \<lparr>ws_src = c, ws_sent = [], ws_draws = 0\<rparr>
                = Inr (Yield p, \<lparr>ws_src = c', ws_sent = [], ws_draws = 0\<rparr>)
            \<and> conn_avail c' = rest \<and> conn_ok c'"
  using conn.ws_frame_reads[of "\<lparr>ws_src = c, ws_sent = [], ws_draws = 0\<rparr>" 2 "Some k" p rest rnd] assms
  by (auto simp: ws_write_frame frame_effect_def)

theorem ws_frame_roundtrip_witness:
  "\<exists>c'. ws_frame conn_read (\<lambda>i. [0, 0, 0, 0])
      \<lparr>ws_src = \<lparr>sb = new_sockbuf, arriving = [ws_write [1, 2, 3, 4] [9, 8, 7], [5]]\<rparr>, ws_sent = [], ws_draws = 0\<rparr>
      = Inr (Yield [9, 8, 7], \<lparr>ws_src = c', ws_sent = [], ws_draws = 0\<rparr>) \<and> conn_avail c' = [5] \<and> conn_ok c'"
  by (rule ws_frame_roundtrip[where k = "[1, 2, 3, 4]"]) (simp_all add: conn_ok_def conn_avail_def)

text \<open>C17. Over any interleaving of payload, ping and pong frames up to the close frame, however the
  network chunks them, a consumer gets the payloads in order, every ping is answered by a masked pong
  with its payload, and the generator ends at the close frame.\<close>

theorem ws_stream_delivers_payloads:
  assumes "conn_ok c" "conn_avail c = concat (map server_bytes fs) @ frame_bytes 8 None reason @ rest"
    "list_all server_frame_ok fs" "length reason < 126"
  shows "\<exists>w. ws_drain conn_read rnd \<lparr>ws_src = c, ws_sent = [], ws_draws = 0\<rparr> [] = Some (Inr (stream_data fs, w))
           \<and> conn_avail (ws_src w) = rest \<and> ws_sent w = pongs rnd 0 (pings fs)"
  using conn.ws_drain_stream[of "\<lparr>ws_src = c, ws_sent = [], ws_draws = 0\<rparr>" fs reason rest rnd "[]"] assms by auto

theorem ws_stream_delivers_payloads_witness:
  "\<exists>w. ws_drain conn_read (\<lambda>i. [1, 1, 1, 1]) \<lparr>ws_src = \<lparr>sb = new_sockbuf,
          arriving = [server_bytes (Payload 2 [5, 6]), server_bytes (Ping [9]), server_bytes (Payload 0 [7]),
                      frame_bytes 8 None []]\<rparr>, ws_sent = [], ws_draws = 0\<rparr> [] = Some (Inr ([[5, 6], [7]], w))
     \<and> conn_avail (ws_src w) = [] \<and> ws_sent w = pongs (\<lambda>i. [1, 1, 1, 1]) 0 [[9]]"
  using ws_stream_delivers_payloads[where fs = "[Payload 2 [5, 6], Ping [9], Payload 0 [7]]" and reason = "[]"
      and rest = "[]" and rnd = "\<lambda>i. [1, 1, 1, 1]"
      and c = "\<lparr>sb = new_sockbuf, arriving = [server_bytes (Payload 2 [5, 6]), server_bytes (Ping [9]),
                server_bytes (Payload 0 [7]), frame_bytes 8 None []]\<rparr>"]
  by (simp add: conn_ok_def conn_avail_def)

text \<open>Reading never hangs on bytes that do not make sense: whatever the peer sends, the consumer's
  loop ends with the payloads or an error.\<close>

theorem ws_reader_returns:
  assumes "conn_ok c"
  shows "ws_drain conn_read rnd \<lparr>ws_src = c, ws_sent = [], ws_draws = 0\<rparr> [] \<noteq> None"
  by (rule conn.ws_drain_returns) (simp add: assms)

theorem ws_reader_returns_witness:
  "ws_drain conn_read (\<lambda>i. []) \<lparr>ws_src = \<lparr>sb = new_sockbuf, arriving = [[137, 255]]\<rparr>, ws_sent = [], ws_draws = 0\<rparr> [] \<noteq> None"
  by (rule ws_reader_returns) (simp add: conn_ok_def)

text \<open>The upgrade succeeds exactly on a header block that announces status 101, and then leaves the
  connection just behind the block, where the first frame starts.\<close>

theorem ws_handshake_accepts_101:
  assumes "conn_ok c" "conn_avail c = block @ rest" "block \<noteq> []" "endsWith (latin1 block) crlf2"
    "\<forall>k < length block. \<not> endsWith (latin1 (take k block)) crlf2" "length block \<le> 65537"
  shows "if is_upgrade (latin1 block)
     then \<exists>c'. wsHandshake conn_read c = Some (Inr c') \<and> conn_avail c' = rest \<and> conn_ok c'
     else wsHandshake conn_read c = Some (Inl (Error (''ws: upgrade rejected: '' @ first_line (latin1 block))))"
  using conn.read_head_block[of c block rest "[]" "''ws: handshake header too large''"] assms
  by (auto simp: wsHandshake_def)

theorem ws_handshake_accepts_101_witness:
  "\<exists>c'. wsHandshake conn_read \<lparr>sb = new_sockbuf,
      arriving = [[72, 84, 84, 80, 47, 49, 46, 49, 32, 49, 48, 49, 13, 10, 13, 10], [130]]\<rparr> = Some (Inr c') \<and>
      conn_avail c' = [130] \<and> conn_ok c'"
proof -
  define b where "b = ([72, 84, 84, 80, 47, 49, 46, 49, 32, 49, 48, 49, 13, 10, 13, 10] :: bytes)"
  have l: "latin1 b = ''HTTP/1.1 101'' @ crlf2" unfolding b_def by code_simp
  have "endsWith (''HTTP/1.1 101'' @ crlf2) crlf2 \<and> is_upgrade (''HTTP/1.1 101'' @ crlf2) \<and>
      (\<forall>k < 16. \<not> endsWith (take k (''HTTP/1.1 101'' @ crlf2)) crlf2)"
    by code_simp
  moreover have "latin1 (take k b) = take k (latin1 b)" for k by (simp add: latin1_def take_map)
  moreover have "b \<noteq> [] \<and> length b = 16" by (simp add: b_def)
  ultimately have b: "endsWith (latin1 b) crlf2 \<and> is_upgrade (latin1 b) \<and> b \<noteq> [] \<and> length b = 16 \<and>
      (\<forall>k < length b. \<not> endsWith (latin1 (take k b)) crlf2)"
    by (simp only: l) simp
  show ?thesis
    unfolding b_def[symmetric]
    using ws_handshake_accepts_101[of "\<lparr>sb = new_sockbuf, arriving = [b, [130]]\<rparr>" b "[130]"] b
    by (simp add: conn_ok_def conn_avail_def)
qed

end
