(* ===== verification/ChunkCodec.thy ===== *)
theory ChunkCodec
  imports SocketBuffer JsValue
begin

text \<open>
  What the two encrypted chunk formats share. The primitives of \<open>node:crypto\<close> are the record
  \<open>crypto\<close>, an argument of every definition that uses one; what the code relies on is
  \<open>aead_correct\<close>. The locale \<open>chunk_codec\<close> is the contract of a chunk writer and its reader; the
  shadowsocks and the vmess formats provide it.
\<close>

section \<open>node:crypto\<close>

text \<open>
  The AEAD functions take cipher name, key, nonce and additional data. \<open>aead_enc\<close> gives
  \<open>update + final\<close> and the tag of \<open>getAuthTag()\<close>; \<open>aead_dec\<close> takes ciphertext and tag and gives
  \<open>None\<close> where \<open>final()\<close> throws.
\<close>

record crypto =
  md5 :: "bytes \<Rightarrow> bytes"
  sha224 :: "bytes \<Rightarrow> bytes"
  sha256 :: "bytes \<Rightarrow> bytes"
  hkdf_sha1 :: "bytes \<Rightarrow> bytes \<Rightarrow> string \<Rightarrow> nat \<Rightarrow> bytes"
  aes_ecb :: "bytes \<Rightarrow> bytes \<Rightarrow> bytes"
  aead_enc :: "string \<Rightarrow> bytes \<Rightarrow> bytes \<Rightarrow> bytes \<Rightarrow> bytes \<Rightarrow> bytes \<times> bytes"
  aead_dec :: "string \<Rightarrow> bytes \<Rightarrow> bytes \<Rightarrow> bytes \<Rightarrow> bytes \<Rightarrow> bytes \<Rightarrow> bytes option"

text \<open>The documented behaviour of the ciphers used: 16-byte tags, and opening what was sealed.\<close>

definition aead_correct :: "crypto \<Rightarrow> bool" where
  "aead_correct C \<longleftrightarrow>
     (\<forall>c k n a p. length (fst (aead_enc C c k n a p)) = length p
        \<and> length (snd (aead_enc C c k n a p)) = 16
        \<and> aead_dec C c k n a (fst (aead_enc C c k n a p)) (snd (aead_enc C c k n a p)) = Some p)"

definition digests_correct :: "crypto \<Rightarrow> bool" where
  "digests_correct C \<longleftrightarrow>
     (\<forall>x. length (md5 C x) = 16 \<and> length (sha224 C x) = 28 \<and> length (sha256 C x) = 32)"

text \<open>An instance, for evaluating the model: additive encryption with a checksum tag.\<close>

definition sum_tag :: "bytes \<Rightarrow> bytes" where
  "sum_tag bs = foldl (+) 0 bs # replicate 15 0"

definition sum_crypto :: crypto where
  "sum_crypto =
     \<lparr>md5 = (\<lambda>x. replicate 15 0 @ [foldl (+) 1 x]), sha224 = (\<lambda>x. foldl (+) 2 x # replicate 27 0),
      sha256 = (\<lambda>x. foldl (+) 3 x # replicate 31 0), hkdf_sha1 = (\<lambda>k s i n. take n (k @ s)),
      aes_ecb = (\<lambda>k b. b),
      aead_enc = (\<lambda>c k n a p. (map (\<lambda>b. b + foldl (+) 0 (k @ n)) p, sum_tag (k @ n @ a @ p))),
      aead_dec = (\<lambda>c k n a ct t.
        let p = map (\<lambda>b. b - foldl (+) 0 (k @ n)) ct in if t = sum_tag (k @ n @ a @ p) then Some p else None)\<rparr>"

lemma sum_crypto_correct: "aead_correct sum_crypto" "digests_correct sum_crypto"
  by (simp_all add: aead_correct_def digests_correct_def sum_crypto_def sum_tag_def Let_def comp_def)

section \<open>Writing and reading chunks\<close>

text \<open>
  A writer's loop over the parts of its data: the chunks handed to the sink, and the state after
  them or the exception that ended the loop. A reader's consumer pulls \<open>n\<close> chunks.
\<close>

fun enc_all :: "('w \<Rightarrow> bytes \<Rightarrow> error + bytes \<times> 'w) \<Rightarrow> 'w \<Rightarrow> bytes list \<Rightarrow> bytes list \<times> (error + 'w)" where
  "enc_all enc w [] = ([], Inr w)"
| "enc_all enc w (p # ps) =
     (case enc w p of
        Inl e \<Rightarrow> ([], Inl e)
      | Inr (f, w') \<Rightarrow> (case enc_all enc w' ps of (fs, r) \<Rightarrow> (f # fs, r)))"

fun dec_n :: "('r \<Rightarrow> 's \<Rightarrow> error + bytes \<times> 'r \<times> 's) \<Rightarrow> 'r \<Rightarrow> 's \<Rightarrow> nat \<Rightarrow> error + bytes list \<times> 'r \<times> 's" where
  "dec_n dec r s 0 = Inr ([], r, s)"
| "dec_n dec r s (Suc n) =
     bind_res (dec r s) (\<lambda>(p, r', s'). bind_res (dec_n dec r' s' n) (\<lambda>(ps, q). Inr (p # ps, q)))"

locale chunk_codec = byte_source rd avail ok
  for rd :: "'s \<Rightarrow> nat \<Rightarrow> error + bytes \<times> 's" and avail :: "'s \<Rightarrow> bytes" and ok :: "'s \<Rightarrow> bool" +
  fixes enc :: "'w \<Rightarrow> bytes \<Rightarrow> error + bytes \<times> 'w"
    and dec :: "'r \<Rightarrow> 's \<Rightarrow> error + bytes \<times> 'r \<times> 's"
    and sync :: "'w \<Rightarrow> 'r \<Rightarrow> bool"
    and fits :: "bytes \<Rightarrow> bool"
  assumes dec_enc: "\<lbrakk>sync w r; fits p; enc w p = Inr (f, w'); ok s; avail s = f @ rest\<rbrakk>
      \<Longrightarrow> \<exists>r' s'. dec r s = Inr (p, r', s') \<and> sync w' r' \<and> avail s' = rest \<and> ok s'"
begin

text \<open>Everything that was written is read back, part by part, and nothing more is consumed.\<close>

lemma dec_n_enc_all:
  assumes "sync w r" "\<forall>p \<in> set ps. fits p" "enc_all enc w ps = (fs, Inr w')" "ok s"
    "avail s = concat fs @ rest"
  shows "\<exists>r' s'. dec_n dec r s (length ps) = Inr (ps, r', s') \<and> sync w' r' \<and> avail s' = rest \<and> ok s'"
  using assms
proof (induction ps arbitrary: w r s fs)
  case (Cons p ps)
  obtain f w1 where f: "enc w p = Inr (f, w1)"
    using Cons.prems(3) by (auto split: sum.splits prod.splits)
  then obtain fs' where fs': "enc_all enc w1 ps = (fs', Inr w')" "fs = f # fs'"
    using Cons.prems(3) by (auto split: prod.splits)
  obtain r1 s1 where d: "dec r s = Inr (p, r1, s1)" "sync w1 r1" "avail s1 = concat fs' @ rest" "ok s1"
    using dec_enc[OF Cons.prems(1) _ f Cons.prems(4), of "concat fs' @ rest"] Cons.prems fs' by auto
  show ?case
    using Cons.IH[OF d(2) _ fs'(1) d(4,3)] Cons.prems(2) d(1) by fastforce
qed auto

end

end
