(* ===== verification/AddrCodec.thy ===== *)
theory AddrCodec
  imports JsNumber
begin

text \<open>
  The address codecs: \<open>encodeAddr\<close> of \<open>lib/core/transports.js\<close> (SOCKS5, shadowsocks, trojan),
  \<open>vmessEncodeAddr\<close> of \<open>lib/core/vmess.js\<close> (vmess, vless) and the inbound parser
  \<open>#readSocks5Request\<close> of \<open>lib/core/proxy-server.js\<close>, with their round trips.
\<close>

section \<open>Bytes\<close>

text \<open>\<open>Buffer.from(s)\<close>: UTF-8 of a string of Latin-1 code units.\<close>

definition utf8_char :: "char \<Rightarrow> bytes" where
  "utf8_char c =
     (let n = code_unit c
      in if n < 128 then [of_nat n] else [of_nat (192 + n div 64), of_nat (128 + n mod 64)])"

definition utf8 :: "string \<Rightarrow> bytes" where
  "utf8 s = concat (map utf8_char s)"

text \<open>\<open>[v >> 8, v & 0xff]\<close> stored into a Buffer: ToInt32, an arithmetic shift, ToUint8.\<close>

definition be16 :: "jsnum \<Rightarrow> bytes" where
  "be16 v = [ucast (signed_drop_bit 8 (to_int32 v)), ucast (and (to_int32 v) 255)]"

text \<open>\<open>buf.writeUInt16BE(v, off)\<close>: the range check lets NaN pass, which stores 0.\<close>

definition writeUInt16BE :: "bytes \<Rightarrow> jsnum \<Rightarrow> nat \<Rightarrow> error + bytes" where
  "writeUInt16BE buf v off =
     (if num_less (Fin 65535 0) v \<or> num_less v (Fin 0 0) then Inl RangeError
      else if length buf \<le> off + 1 then Inl RangeError
      else Inr (buf[off := be16 v ! 0, off + 1 := be16 v ! 1]))"

text \<open>\<open>buf.readUInt16BE(off)\<close>.\<close>

definition readUInt16BE :: "bytes \<Rightarrow> nat \<Rightarrow> error + nat" where
  "readUInt16BE buf off =
     (if length buf \<le> off + 1 then Inl RangeError
      else Inr (unat (buf ! off) * 256 + unat (buf ! (off + 1))))"

section \<open>Outbound: encodeAddr, vmessEncodeAddr\<close>

text \<open>\<open>/^\d{1,3}(\.\d{1,3}){3}$/.test(host)\<close> and every part at most 255.\<close>

definition is_ip4_text :: "string \<Rightarrow> bool" where
  "is_ip4_text host \<longleftrightarrow>
     (let parts = split_char (CHR ''.'') host
      in length parts = 4
         \<and> (\<forall>p \<in> set parts. 1 \<le> length p \<and> length p \<le> 3 \<and> (\<forall>c \<in> set p. is_digit c))
         \<and> (\<forall>p \<in> set parts. \<not> num_less (Fin 255 0) (js_Number p)))"

definition ip4_bytes :: "string \<Rightarrow> bytes" where
  "ip4_bytes host = map (\<lambda>p. to_uint8 (num_trunc (js_Number p))) (split_char (CHR ''.'') host)"

definition encodeAddr :: "string \<Rightarrow> jsnum \<Rightarrow> bytes" where
  "encodeAddr host port =
     (if is_ip4_text host then [1] @ ip4_bytes host @ be16 port
      else if CHR '':'' \<in> set host
      then [4] @ concat (map (\<lambda>part. be16 (parseInt16 part)) (split_char (CHR '':'') host)) @ be16 port
      else [3, of_nat (length (utf8 host))] @ utf8 host @ be16 port)"

text \<open>The loop \<open>groups.forEach((value, index) => addr.writeUInt16BE(value, index * 2))\<close>.\<close>

fun write_groups :: "bytes \<Rightarrow> nat \<Rightarrow> jsnum list \<Rightarrow> error + bytes" where
  "write_groups addr i [] = Inr addr"
| "write_groups addr i (v # vs) =
     bind_res (writeUInt16BE addr v (i * 2)) (\<lambda>addr'. write_groups addr' (Suc i) vs)"

definition vmessEncodeAddr :: "string \<Rightarrow> jsnum \<Rightarrow> error + bytes" where
  "vmessEncodeAddr host port =
     (if is_ip4_text host then Inr (be16 port @ [1] @ ip4_bytes host)
      else if CHR '':'' \<in> set host
      then bind_res (write_groups (replicate 16 0) 0 (map parseInt16 (split_char (CHR '':'') host)))
             (\<lambda>addr. Inr (be16 port @ [3] @ addr))
      else Inr (be16 port @ [2, of_nat (length (utf8 host))] @ utf8 host))"

section \<open>Inbound: the SOCKS5 request\<close>

record socks_request =
  req_host :: string
  req_port :: nat
  req_rest :: bytes

text \<open>
  \<open>s.replace(/(^|:)0(:0)+(:|$)/, "::")\<close> on groups joined with colons: the first run of at
  least two groups that are the single character 0.
\<close>

definition collapse_zeros :: "string list \<Rightarrow> string" where
  "collapse_zeros gs =
     (case find (\<lambda>i. gs ! i = ''0'' \<and> gs ! Suc i = ''0'') [0..<length gs - 1] of
        None \<Rightarrow> join '':'' gs
      | Some i \<Rightarrow>
          join '':'' (take i gs) @ ''::''
          @ join '':'' (drop (i + length (takeWhile (\<lambda>g. g = ''0'') (drop i gs))) gs))"

text \<open>
  \<open>#readSocks5Request\<close> on the data chunk that carries the request. \<open>decode\<close> is
  \<open>toString("utf8")\<close>, which can give code units outside the model, so it is an argument.
\<close>

definition readSocks5Request :: "(bytes \<Rightarrow> string) \<Rightarrow> bytes \<Rightarrow> error + socks_request" where
  "readSocks5Request decode header =
     (if length header \<le> 3 then Inl (Error ''socks5: unsupported address type'')
      else if header ! 3 = 1 then
        bind_res (readUInt16BE header 8)
          (\<lambda>port. Inr \<lparr>req_host = join ''.'' (map (\<lambda>b. show_nat (unat b)) (take 4 (drop 4 header))),
                       req_port = port, req_rest = drop 10 header\<rparr>)
      else if header ! 3 = 4 then
        bind_res (readUInt16BE header 20)
          (\<lambda>port. Inr \<lparr>req_host = collapse_zeros (map (\<lambda>i. show_hex (take 2 (drop (4 + i * 2) header))) [0..<8]),
                       req_port = port, req_rest = drop 22 header\<rparr>)
      else if header ! 3 = 3 then
        (if length header \<le> 4 then Inl RangeError
         else
           (let len = unat (header ! 4) in
            bind_res (readUInt16BE header (5 + len))
              (\<lambda>port. Inr \<lparr>req_host = decode (take len (drop 5 header)),
                           req_port = port, req_rest = drop (7 + len) header\<rparr>)))
      else Inl (Error ''socks5: unsupported address type''))"

section \<open>Big-endian pairs\<close>

lemma be16_Fin: "be16 (Fin n 0) = [word_of_int (n div 256), word_of_int n]"
proof -
  have "ucast (signed_drop_bit 8 (word_of_int n :: 32 word)) = (word_of_int (n div 256) :: byte)"
    by (rule bit_eqI)
      (auto simp: bit_simps drop_bit_eq_div [of 8 n, simplified, symmetric] min_def)
  moreover have "ucast (and (word_of_int n :: 32 word) 255) = (word_of_int n :: byte)"
  proof -
    have "and (word_of_int n :: 32 word) 255 = take_bit 8 (word_of_int n)"
      by (simp add: take_bit_eq_mask mask_eq_exp_minus_1)
    then show ?thesis by (intro bit_eqI) (auto simp: bit_simps)
  qed
  ultimately show ?thesis by (simp add: be16_def)
qed

lemma length_be16 [simp]: "length (be16 v) = 2"
  by (simp add: be16_def)

lemma be16_nat:
  "n < 65536 \<Longrightarrow> be16 (Fin (int n) 0) = [of_nat (n div 256), of_nat (n mod 256)]"
proof -
  assume "n < 65536"
  have "(word_of_int (int n) :: byte) = of_nat (n mod 256)"
    by (rule unsigned_word_eqI [where 'a = nat]) (simp add: unsigned_of_int unsigned_of_nat take_bit_eq_mod nat_mod_distrib)
  moreover have "(word_of_int (int n div 256) :: byte) = of_nat (n div 256)"
    by (metis of_int_of_nat_eq of_nat_numeral zdiv_int)
  ultimately show ?thesis by (simp add: be16_Fin)
qed

lemma readUInt16BE_be16:
  assumes "n < 65536" "off = length xs"
  shows "readUInt16BE (xs @ be16 (Fin (int n) 0) @ ys) off = Inr n"
proof -
  have "n div 256 < 256" using assms(1) by simp
  with assms show ?thesis by (simp add: be16_nat readUInt16BE_def nth_append)
qed

text \<open>Only the low 16 bits of an integer port reach the wire.\<close>

lemma be16_mod: "be16 (Fin n 0) = be16 (Fin (n mod 65536) 0)"
proof -
  have "(word_of_int (n div 256) :: byte) = word_of_int (n mod 65536 div 256)"
    by (rule bit_eqI) (auto simp: bit_simps simp flip: drop_bit_eq_div [of 8, simplified] take_bit_eq_mod [of 16, simplified])
  moreover have "(word_of_int n :: byte) = word_of_int (n mod 65536)"
    by (rule bit_eqI) (auto simp: bit_simps simp flip: take_bit_eq_mod [of 16, simplified])
  ultimately show ?thesis by (simp add: be16_Fin)
qed

section \<open>Round trip of addresses\<close>

text \<open>\<open>decode\<close> inverts UTF-8 on ASCII text, as \<open>toString("utf8")\<close> does.\<close>

definition ascii :: "string \<Rightarrow> bool" where
  "ascii s \<longleftrightarrow> (\<forall>c \<in> set s. code_unit c < 128)"

definition utf8_decoder :: "(bytes \<Rightarrow> string) \<Rightarrow> bool" where
  "utf8_decoder decode \<longleftrightarrow> (\<forall>s. ascii s \<longrightarrow> decode (utf8 s) = s)"

lemma utf8_ascii: "ascii s \<Longrightarrow> utf8 s = map (\<lambda>c. of_nat (code_unit c)) s"
  by (induction s) (auto simp: utf8_def ascii_def utf8_char_def)

lemma ascii_decoder: "utf8_decoder (map (\<lambda>b. unit_char (unat b)))"
  by (auto simp: utf8_decoder_def utf8_ascii ascii_def intro!: map_idI)

text \<open>IPv4 literals.\<close>

lemma is_ip4_text_dotted:
  assumes "length ns = 4" "\<forall>n \<in> set ns. n < 256"
  shows "is_ip4_text (dotted ns)"
proof -
  have "ns \<noteq> []" using assms(1) by auto
  moreover have "1 \<le> length (show_nat n)" for n by (simp add: Suc_leI)
  ultimately show ?thesis
    using assms show_nat_digits show_nat_length
    by (auto simp: is_ip4_text_def dotted_split js_Number_show_nat)
qed

lemma ip4_bytes_dotted:
  assumes "ns \<noteq> []" "\<forall>n \<in> set ns. n < 256"
  shows "ip4_bytes (dotted ns) = map of_nat ns"
proof -
  have "to_uint8 (num_trunc (js_Number (show_nat n))) = of_nat n" if "n \<in> set ns" for n
  proof -
    from that assms(2) have "n < 2 ^ 53" by fastforce
    then show ?thesis by (simp add: js_Number_show_nat to_uint8_def)
  qed
  with assms(1) show ?thesis by (simp add: ip4_bytes_def dotted_split)
qed

lemma length_ip4_bytes: "is_ip4_text h \<Longrightarrow> length (ip4_bytes h) = 4"
  by (simp add: is_ip4_text_def ip4_bytes_def Let_def)

text \<open>IPv6 literals of eight four-digit groups.\<close>

definition full_ip6 :: "(byte \<times> byte) list \<Rightarrow> string" where
  "full_ip6 gs = join '':'' (map (\<lambda>(a, b). hex16 a b) gs)"

lemma hex16_no_colon: "CHR '':'' \<notin> set (hex16 a b)"
  using hex_char_plain(6) [symmetric] nibbles by (simp add: hex16_def show_hex_def)

lemma full_ip6_split: "gs \<noteq> [] \<Longrightarrow> split_char (CHR '':'') (full_ip6 gs) = map (\<lambda>(a, b). hex16 a b) gs"
  unfolding full_ip6_def by (rule split_char_join) (auto simp: hex16_no_colon)

lemma be16_pair: "be16 (Fin (uint a * 256 + uint b) 0) = [a, b]"
proof -
  have "be16 (Fin (int (unat a * 256 + unat b)) 0) = [a, b]"
    using byte_less [of a] byte_less [of b] by (subst be16_nat) auto
  then show ?thesis by simp
qed


lemma collapse_none:
  "\<forall>g \<in> set gs. g \<noteq> ''0'' \<Longrightarrow> collapse_zeros gs = join '':'' gs"
proof -
  assume "\<forall>g \<in> set gs. g \<noteq> ''0''"
  then have "find (\<lambda>i. gs ! i = ''0'' \<and> gs ! Suc i = ''0'') [0..<length gs - 1] = None"
    by (auto simp: find_None)
  then show ?thesis by (simp add: collapse_zeros_def)
qed

lemma show_hex_two: "length bs = 2 \<Longrightarrow> show_hex bs = hex16 (bs ! 0) (bs ! 1)"
  by (cases bs; cases "tl bs") (auto simp: hex16_def)

text \<open>A domain name that the codecs send as a name: ASCII, no colon, not a dotted quad.\<close>

definition plain_name :: "string \<Rightarrow> bool" where
  "plain_name h \<longleftrightarrow> ascii h \<and> CHR '':'' \<notin> set h \<and> \<not> is_ip4_text h"

lemma encodeAddr_name:
  "plain_name h \<Longrightarrow> encodeAddr h port = [3, of_nat (length h)] @ utf8 h @ be16 port"
  by (simp add: encodeAddr_def plain_name_def utf8_ascii)

lemma length_utf8_ascii: "ascii h \<Longrightarrow> length (utf8 h) = length h"
  by (simp add: utf8_ascii)

lemma read_name_any:
  assumes "plain_name h" "length h < 256" "utf8_decoder decode" "n < 65536"
  shows "readSocks5Request decode ([5, 1, 0] @ encodeAddr h (Fin (int n) 0) @ rest)
    = Inr \<lparr>req_host = h, req_port = n, req_rest = rest\<rparr>"
proof -
  have a: "ascii h" using assms(1) by (simp add: plain_name_def)
  define p where "p = be16 (Fin (int n) 0)"
  have l: "length p = 2" by (simp add: p_def)
  have hdr: "[5, 1, 0] @ encodeAddr h (Fin (int n) 0) @ rest
      = ([5, 1, 0, 3, of_nat (length h)] @ utf8 h) @ p @ rest"
    using assms(1) by (simp add: encodeAddr_name p_def)
  have rd: "readUInt16BE (([5, 1, 0, 3, of_nat (length h)] @ utf8 h) @ p @ rest) (5 + length h) = Inr n"
    unfolding p_def by (rule readUInt16BE_be16) (use assms a in \<open>simp_all add: length_utf8_ascii\<close>)
  have "drop (7 + length h) ((([5, 1, 0, 3, of_nat (length h)] @ utf8 h) @ p) @ rest) = rest"
    by (rule drop_append_exact) (simp add: length_utf8_ascii a l)
  then show ?thesis
    unfolding hdr using rd assms a l
    by (simp add: readSocks5Request_def length_utf8_ascii utf8_decoder_def Let_def)
qed

lemma read_ip4:
  assumes "length ns = 4" "\<forall>k \<in> set ns. k < 256" "n < 65536"
  shows "readSocks5Request decode ([5, 1, 0] @ encodeAddr (dotted ns) (Fin (int n) 0) @ rest)
    = Inr \<lparr>req_host = dotted ns, req_port = n, req_rest = rest\<rparr>"
proof -
  define p where "p = be16 (Fin (int n) 0)"
  have l: "length p = 2" by (simp add: p_def)
  have ne: "ns \<noteq> []" using assms(1) by auto
  have hdr: "[5, 1, 0] @ encodeAddr (dotted ns) (Fin (int n) 0) @ rest = ([5, 1, 0, 1] @ map of_nat ns) @ p @ rest"
    using assms ne by (simp add: encodeAddr_def is_ip4_text_dotted ip4_bytes_dotted p_def)
  have rd: "readUInt16BE (([5, 1, 0, 1] @ map of_nat ns) @ p @ rest) 8 = Inr n"
    unfolding p_def by (rule readUInt16BE_be16) (use assms in simp_all)
  have m: "map ((\<lambda>b. show_nat (unat b)) \<circ> (of_nat :: nat \<Rightarrow> byte)) ns = map show_nat ns"
    using assms(2) by simp
  from rd assms l show ?thesis
    unfolding hdr by (simp add: readSocks5Request_def dotted_def m)
qed


lemma encodeAddr_ip6:
  assumes "length gs = 8"
  shows "encodeAddr (full_ip6 gs) port = [4] @ concat (map (\<lambda>(a, b). [a, b]) gs) @ be16 port"
proof -
  have ne: "gs \<noteq> []" using assms by auto
  obtain g g' gs' where gs: "gs = g # g' # gs'" using assms by (cases gs; cases "tl gs") auto
  have colon: "CHR '':'' \<in> set (full_ip6 gs)" by (simp add: gs full_ip6_def)
  have "CHR ''.'' \<notin> set (full_ip6 gs)"
  proof
    assume "CHR ''.'' \<in> set (full_ip6 gs)"
    then obtain a b where "CHR ''.'' \<in> set (hex16 a b)"
      using set_join [of "'':''"] unfolding full_ip6_def by fastforce
    then have "CHR ''.'' \<in> hex_char ` {..<16}" using nibbles by (auto simp: hex16_def show_hex_def)
    then obtain d where "d < 16" "CHR ''.'' = hex_char d" by auto
    moreover have "code_unit (CHR ''.'') = 46" by (simp add: code_unit_def)
    ultimately show False using hex_char_cases [of d] by (simp split: if_splits)
  qed
  then have "\<not> is_ip4_text (full_ip6 gs)" by (simp add: is_ip4_text_def split_char_no_sep)
  moreover have "map (\<lambda>part. be16 (parseInt16 part)) (map (\<lambda>(a, b). hex16 a b) gs) = map (\<lambda>(a, b). [a, b]) gs"
    by (auto simp: parseInt16_hex16 be16_pair)
  ultimately show ?thesis using colon ne by (simp add: encodeAddr_def full_ip6_split del: map_map)
qed

lemma take_pairs:
  "i < length gs \<Longrightarrow> take 2 (drop (i * 2) (concat (map (\<lambda>(a, b). [a, b]) gs) @ zs)) = (case gs ! i of (a, b) \<Rightarrow> [a, b])"
proof (induction gs arbitrary: i)
  case (Cons g gs)
  then show ?case by (cases i) (auto split: prod.splits)
qed simp

lemma length_pairs: "length (concat (map (\<lambda>(a, b). [a, b]) gs)) = 2 * length gs"
  by (induction gs) auto

lemma read_ip6:
  assumes "length gs = 8" "n < 65536"
  shows "readSocks5Request decode ([5, 1, 0] @ encodeAddr (full_ip6 gs) (Fin (int n) 0) @ rest)
    = Inr \<lparr>req_host = full_ip6 gs, req_port = n, req_rest = rest\<rparr>"
proof -
  define p where "p = be16 (Fin (int n) 0)"
  define bs where "bs = concat (map (\<lambda>(a, b). [a, b]) gs)"
  have l: "length p = 2" "length bs = 16" using assms(1) length_pairs [of gs] by (simp_all add: p_def bs_def)
  have hdr: "[5, 1, 0] @ encodeAddr (full_ip6 gs) (Fin (int n) 0) @ rest = ([5, 1, 0, 4] @ bs) @ p @ rest"
    using assms(1) by (simp add: encodeAddr_ip6 p_def bs_def)
  have rd: "readUInt16BE (([5, 1, 0, 4] @ bs) @ p @ rest) 20 = Inr n"
    unfolding p_def by (rule readUInt16BE_be16) (use assms l in simp_all)
  have "show_hex (take 2 (drop (4 + i * 2) (([5, 1, 0, 4] @ bs) @ p @ rest))) = (case gs ! i of (a, b) \<Rightarrow> hex16 a b)"
    if "i < 8" for i
  proof -
    have "drop (4 + i * 2) (([5, 1, 0, 4] @ bs) @ p @ rest) = drop (i * 2) (bs @ p @ rest)"
      by (simp add: numeral_eq_Suc)
    then show ?thesis
      using take_pairs [of i gs "p @ rest"] that assms(1)
      by (simp only: bs_def [symmetric]) (simp split: prod.splits add: hex16_def)
  qed
  then have "map (\<lambda>i. show_hex (take 2 (drop (4 + i * 2) (([5, 1, 0, 4] @ bs) @ p @ rest)))) [0..<8]
     = map (\<lambda>i. case gs ! i of (a, b) \<Rightarrow> hex16 a b) [0..<8]" by simp
  also have "\<dots> = map (\<lambda>(a, b). hex16 a b) gs"
    using assms(1) by (metis (no_types, lifting) map_cong map_nth map_map comp_def)
  finally have g: "map (\<lambda>i. show_hex (take 2 (drop (4 + i * 2) (([5, 1, 0, 4] @ bs) @ p @ rest)))) [0..<8]
     = map (\<lambda>(a, b). hex16 a b) gs" .
  have "length (hex16 a b) = 4" for a b by (simp add: hex16_def show_hex_def)
  then have "\<forall>g \<in> set (map (\<lambda>(a, b). hex16 a b) gs). g \<noteq> ''0''" by (auto dest: arg_cong [where f = length])
  from collapse_none [OF this] g rd l show ?thesis
    unfolding hdr by (simp add: readSocks5Request_def full_ip6_def del: upt_Suc map_map)
qed

section \<open>The vmess layout\<close>

lemma write_groups_eq:
  "\<forall>v \<in> set vs. \<exists>m. v = Fin m 0 \<and> 0 \<le> m \<and> m < 65536 \<Longrightarrow> length addr = 16 \<Longrightarrow> i + length vs \<le> 8 \<Longrightarrow>
   write_groups addr i vs = Inr (take (i * 2) addr @ concat (map be16 vs) @ drop ((i + length vs) * 2) addr)"
proof (induction vs arbitrary: addr i)
  case (Cons v vs)
  obtain u w where uw: "be16 v = [u, w]" by (simp add: be16_def)
  define addr' where "addr' = addr[i * 2 := u, Suc (i * 2) := w]"
  have w: "writeUInt16BE addr v (i * 2) = Inr addr'"
    using Cons.prems by (auto simp: writeUInt16BE_def addr'_def uw)
  have rec: "write_groups addr' (Suc i) vs
      = Inr (take (Suc i * 2) addr' @ concat (map be16 vs) @ drop ((Suc i + length vs) * 2) addr')"
    using Cons.prems by (intro Cons.IH) (auto simp: addr'_def)
  have "i * 2 < length addr" "Suc (i * 2) < length addr" using Cons.prems by auto
  then have "take (Suc i * 2) addr' = take (i * 2) addr @ [u, w]"
    by (simp add: addr'_def take_Suc_conv_app_nth)
  moreover have "drop ((Suc i + length vs) * 2) addr' = drop ((i + length (v # vs)) * 2) addr"
    by (simp add: addr'_def)
  ultimately show ?case by (simp add: w rec uw)
qed simp

text \<open>Hosts every codec carries: a dotted quad, a full IPv6 literal, or a plain name.\<close>

definition canonical_host :: "string \<Rightarrow> bool" where
  "canonical_host h \<longleftrightarrow>
     (\<exists>ns. length ns = 4 \<and> (\<forall>k \<in> set ns. k < 256) \<and> h = dotted ns)
     \<or> (\<exists>gs. length gs = 8 \<and> h = full_ip6 gs) \<or> plain_name h"

lemma ip6_not_ip4: "CHR '':'' \<in> set h \<Longrightarrow> \<not> is_ip4_text h"
proof
  assume c: "CHR '':'' \<in> set h" and ip: "is_ip4_text h"
  have "set h = set (join ''.'' (split_char (CHR ''.'') h))" by (simp add: join_split_char)
  also have "\<dots> \<subseteq> set ''.'' \<union> \<Union> (set ` set (split_char (CHR ''.'') h))" by (rule set_join)
  finally have "\<exists>p \<in> set (split_char (CHR ''.'') h). CHR '':'' \<in> set p" using c by auto
  with ip have "is_digit (CHR '':'')" by (auto simp: is_ip4_text_def Let_def)
  then show False by (simp add: is_digit_def code_unit_def)
qed

lemma full_ip6_colon: "length gs = 8 \<Longrightarrow> CHR '':'' \<in> set (full_ip6 gs)"
  by (cases gs; cases "tl gs") (auto simp: full_ip6_def)

lemma vmess_ip6:
  assumes "length gs = 8"
  shows "vmessEncodeAddr (full_ip6 gs) port = Inr (be16 port @ [3] @ concat (map (\<lambda>(a, b). [a, b]) gs))"
proof -
  have ne: "gs \<noteq> []" using assms by auto
  define vs where "vs = map (\<lambda>(a, b). Fin (uint a * 256 + uint b) 0) gs"
  have p: "map parseInt16 (map (\<lambda>(a, b). hex16 a b) gs) = vs"
    by (auto simp: vs_def parseInt16_hex16)
  have "0 \<le> uint a * 256 + uint b \<and> uint a * 256 + uint b < 65536" for a b :: byte
    using uint_bounded [of a] uint_bounded [of b] by simp
  then have "write_groups (replicate 16 0) 0 vs = Inr (concat (map be16 vs))"
    using assms by (subst write_groups_eq) (auto simp: vs_def)
  moreover have "concat (map be16 vs) = concat (map (\<lambda>(a, b). [a, b]) gs)"
    by (auto simp: vs_def be16_pair intro!: arg_cong [where f = concat])
  moreover have "\<not> is_ip4_text (full_ip6 gs)" using ip6_not_ip4 full_ip6_colon assms by blast
  ultimately show ?thesis
    using full_ip6_colon [OF assms] ne by (simp add: vmessEncodeAddr_def full_ip6_split p del: map_map)
qed

lemma long_name_read:
  assumes "plain_name h" "utf8_decoder decode"
  shows "readSocks5Request decode ([5, 1, 0] @ encodeAddr h port @ rest) = Inr r
    \<Longrightarrow> req_host r = take (length h mod 256) h"
proof -
  have a: "ascii h" using assms(1) by (simp add: plain_name_def)
  have len: "unat (of_nat (length h) :: byte) = length h mod 256"
    by (simp add: unsigned_of_nat take_bit_eq_mod)
  define k where "k = length h mod 256"
  have "k \<le> length h" by (simp add: k_def)
  then have sub: "k - length (utf8 h) = 0" "k - Suc (Suc (length (utf8 h))) = 0"
    using a by (simp_all add: length_utf8_ascii)
  have at: "ascii (take k h)" using a by (auto simp: ascii_def dest: in_set_takeD)
  then have tk: "take k (utf8 h) = utf8 (take k h)" using a by (simp add: utf8_ascii take_map)
  from at assms(2) have dec: "decode (utf8 (take k h)) = take k h" by (simp add: utf8_decoder_def)
  assume "readSocks5Request decode ([5, 1, 0] @ encodeAddr h port @ rest) = Inr r"
  with assms(1) show ?thesis
    by (auto simp: readSocks5Request_def encodeAddr_name Let_def bind_res_Inr_iff len k_def [symmetric] tk dec sub)
qed

lemma read_request:
  assumes "canonical_host h" "length h < 256" "n < 65536" "utf8_decoder decode"
  shows "readSocks5Request decode ([5, 1, 0] @ encodeAddr h (Fin (int n) 0) @ rest)
    = Inr \<lparr>req_host = h, req_port = n, req_rest = rest\<rparr>"
  using assms read_name_any read_ip4 read_ip6 unfolding canonical_host_def by blast

section \<open>Properties\<close>

text \<open>
  C12. What the SOCKS5 and shadowsocks clients send, the inbound parser reads back: host, port
  and any pipelined bytes, for dotted quads, full IPv6 literals and ASCII names of at most 255
  bytes.
\<close>

theorem socks5_address_roundtrip:
  assumes "canonical_host h" "length h < 256" "n < 65536" "utf8_decoder decode"
  shows "readSocks5Request decode ([5, 1, 0] @ encodeAddr h (Fin (int n) 0) @ rest)
    = Inr \<lparr>req_host = h, req_port = n, req_rest = rest\<rparr>"
  by (rule read_request[OF assms])

theorem socks5_address_roundtrip_witness:
  "readSocks5Request (map (\<lambda>b. unit_char (unat b)))
     ([5, 1, 0] @ encodeAddr ''example.com'' (Fin (int 8080) 0) @ [22, 3])
   = Inr \<lparr>req_host = ''example.com'', req_port = 8080, req_rest = [22, 3]\<rparr>"
proof (rule socks5_address_roundtrip)
  have "plain_name ''example.com''" unfolding plain_name_def ascii_def by code_simp
  then show "canonical_host ''example.com''" by (simp add: canonical_host_def)
qed (simp_all add: ascii_decoder)

text \<open>
  The two layouts carry the same address: \<open>encodeAddr\<close> is type, address, port and
  \<open>vmessEncodeAddr\<close> is port, type, address, with the type bytes 1, 3, 4 and 1, 2, 3.
\<close>

theorem vmess_and_socks_layouts_agree:
  assumes "canonical_host h"
  shows "\<exists>atyp vtyp addr. encodeAddr h port = [atyp] @ addr @ be16 port
    \<and> vmessEncodeAddr h port = Inr (be16 port @ [vtyp] @ addr)
    \<and> (atyp, vtyp) \<in> {(1, 1), (3, 2), (4, 3)}"
  using assms unfolding canonical_host_def
proof (elim disjE exE conjE)
  fix ns :: "nat list"
  assume "length ns = 4" "\<forall>k \<in> set ns. k < 256" "h = dotted ns"
  then show ?thesis
    by (intro exI [of _ 1] exI [of _ "ip4_bytes h"]) (simp add: encodeAddr_def vmessEncodeAddr_def is_ip4_text_dotted)
next
  fix gs :: "(byte \<times> byte) list"
  assume "length gs = 8" "h = full_ip6 gs"
  then show ?thesis
    by (intro exI [of _ 4] exI [of _ 3] exI [of _ "concat (map (\<lambda>(a, b). [a, b]) gs)"])
      (simp add: encodeAddr_ip6 vmess_ip6)
next
  assume "plain_name h"
  then show ?thesis
    by (intro exI [of _ 3] exI [of _ 2] exI [of _ "of_nat (length (utf8 h)) # utf8 h"])
      (auto simp: encodeAddr_def vmessEncodeAddr_def plain_name_def)
qed

theorem vmess_and_socks_layouts_agree_witness:
  "\<exists>atyp vtyp addr. encodeAddr (dotted [1, 2, 3, 4]) (Fin 443 0) = [atyp] @ addr @ be16 (Fin 443 0)
    \<and> vmessEncodeAddr (dotted [1, 2, 3, 4]) (Fin 443 0) = Inr (be16 (Fin 443 0) @ [vtyp] @ addr)
    \<and> (atyp, vtyp) \<in> {(1, 1), (3, 2), (4, 3)}"
  by (rule vmess_and_socks_layouts_agree)
    (auto simp: canonical_host_def intro!: exI [of _ "[1, 2, 3, 4]"])

text \<open>
  The length byte bounds what can be sent: a name of 256 bytes or more is encoded without an
  error and never reads back as the same host.
\<close>

theorem long_name_is_misread:
  assumes "plain_name h" "256 \<le> length h" "utf8_decoder decode"
    and "readSocks5Request decode ([5, 1, 0] @ encodeAddr h port @ rest) = Inr r"
  shows "req_host r = take (length h mod 256) h \<and> req_host r \<noteq> h"
proof -
  have r: "req_host r = take (length h mod 256) h" using long_name_read assms by blast
  have "length h mod 256 < 256" by simp
  then have "length (take (length h mod 256) h) < 256" by (metis length_take min.strict_coboundedI2)
  with assms(2) have "take (length h mod 256) h \<noteq> h" by (metis leD)
  with r show ?thesis by simp
qed

theorem long_name_is_misread_witness:
  "\<exists>r. readSocks5Request (map (\<lambda>b. unit_char (unat b)))
     ([5, 1, 0] @ encodeAddr (replicate 257 (CHR ''a'')) (Fin 80 0) @ []) = Inr r
   \<and> req_host r = take (length (replicate 257 (CHR ''a'')) mod 256) (replicate 257 (CHR ''a''))
   \<and> req_host r \<noteq> replicate 257 (CHR ''a'')"
proof -
  define h where "h = replicate 257 (CHR ''a'')"
  have p: "plain_name h" by (auto simp: h_def plain_name_def ascii_def is_ip4_text_def split_char_no_sep code_unit_def)
  have "unat (of_nat (length (utf8 h)) :: byte) = 1"
    using p by (simp add: h_def utf8_ascii plain_name_def)
  then obtain r where r: "readSocks5Request (map (\<lambda>b. unit_char (unat b))) ([5, 1, 0] @ encodeAddr h (Fin 80 0) @ []) = Inr r"
    using p by (auto simp: readSocks5Request_def encodeAddr_def plain_name_def Let_def bind_res_def readUInt16BE_def h_def utf8_ascii)
  with long_name_is_misread [OF p _ ascii_decoder r] show ?thesis unfolding h_def by auto
qed

text \<open>
  An IPv6 literal is encoded with two bytes per colon-separated piece, so the 16 address bytes
  of the SOCKS type 4 come out only for the uncompressed form: \<open>::1\<close> yields a six-byte address.
\<close>

theorem ipv6_literal_encoded_length:
  assumes "CHR '':'' \<in> set host"
  shows "length (encodeAddr host port) = 1 + 2 * length (split_char (CHR '':'') host) + 2
    \<and> (length (encodeAddr host port) = 1 + 16 + 2 \<longleftrightarrow> length (split_char (CHR '':'') host) = 8)"
proof -
  have "length (concat (map (\<lambda>part. be16 (parseInt16 part)) ps)) = 2 * length ps" for ps
    by (induction ps) auto
  then show ?thesis using assms ip6_not_ip4 [OF assms] by (simp add: encodeAddr_def)
qed

theorem ipv6_literal_encoded_length_witness:
  "length (encodeAddr ''::1'' (Fin 80 0)) = 1 + 2 * length (split_char (CHR '':'') ''::1'') + 2
    \<and> length (encodeAddr ''::1'' (Fin 80 0)) = 9"
  using ipv6_literal_encoded_length [of "''::1''" "Fin 80 0"] by simp

text \<open>
  Ports wrap: only the low 16 bits of an integer port reach the wire, in both layouts, and no
  error is raised for a port out of range.
\<close>

theorem port_wraps_modulo_65536:
  "encodeAddr host (Fin n 0) = encodeAddr host (Fin (n mod 65536) 0)
   \<and> vmessEncodeAddr host (Fin n 0) = vmessEncodeAddr host (Fin (n mod 65536) 0)"
  by (simp add: encodeAddr_def vmessEncodeAddr_def be16_mod [of n])

end
