(* ===== verification/Shadowsocks.thy ===== *)
theory Shadowsocks
  imports ChunkCodec AddrCodec
begin

text \<open>
  The shadowsocks transport of \<open>lib/core/transports.js\<close>: key derivation, the nonce counter, sealing
  and opening, the connection with its first chunk, and the chunked stream in both directions.
\<close>

section \<open>Key derivation\<close>

fun ss_salt_size :: "string \<Rightarrow> nat option" where
  "ss_salt_size c =
     (if c = ''aes-128-gcm'' then Some 16 else if c = ''aes-256-gcm'' then Some 32
      else if c = ''chacha20-ietf-poly1305'' then Some 32 else None)"

fun ss_key_size :: "string \<Rightarrow> nat option" where
  "ss_key_size c =
     (if c = ''aes-128-gcm'' then Some 16 else if c = ''aes-256-gcm'' then Some 32
      else if c = ''chacha20-ietf-poly1305'' then Some 32 else None)"

text \<open>\<open>SS_CIPHER_NAMES[c] ?? c\<close>.\<close>

definition ss_cipher_name :: "string \<Rightarrow> string" where
  "ss_cipher_name c = (if c = ''chacha20-ietf-poly1305'' then ''chacha20-poly1305'' else c)"

text \<open>The loop of \<open>ssMasterKey\<close>: \<open>None\<close> if the digests never fill the key.\<close>

partial_function (option) ss_key_loop :: "(bytes \<Rightarrow> bytes) \<Rightarrow> bytes \<Rightarrow> nat \<Rightarrow> bytes list \<Rightarrow> bytes \<Rightarrow> bytes option" where
  "ss_key_loop h password keyLength out previous =
     (if length (concat out) < keyLength
      then (let previous' = h (previous @ password)
            in ss_key_loop h password keyLength (out @ [previous']) previous')
      else Some (take keyLength (concat out)))"

declare ss_key_loop.simps [simp del]

definition ssMasterKey :: "crypto \<Rightarrow> string \<Rightarrow> nat \<Rightarrow> bytes option" where
  "ssMasterKey C password keyLength = ss_key_loop (md5 C) (utf8 password) keyLength [] []"

text \<open>An unknown cipher has no key length, and \<open>hkdfSync\<close> throws.\<close>

definition ssSubkey :: "crypto \<Rightarrow> string \<Rightarrow> bytes \<Rightarrow> string \<Rightarrow> (error + bytes) option" where
  "ssSubkey C password salt cipherName =
     (case ss_key_size cipherName of
        None \<Rightarrow> Some (Inl TypeError)
      | Some keyLength \<Rightarrow>
          (case ssMasterKey C password keyLength of
             None \<Rightarrow> None
           | Some master \<Rightarrow> Some (Inr (hkdf_sha1 C master salt ''ss-subkey'' keyLength))))"

section \<open>Nonces, seal, open\<close>

text \<open>\<open>counter++\<close> on a Number: it stays put from 2^53 on.\<close>

definition js_incr :: "nat \<Rightarrow> nat" where
  "js_incr n = (if n < 2 ^ 53 then n + 1 else n)"

definition ss_next :: "nat \<Rightarrow> bytes \<times> nat" where
  "ss_next counter = (rev (be_bytes 8 counter) @ [0, 0, 0, 0], js_incr counter)"

definition ssSeal :: "crypto \<Rightarrow> string \<Rightarrow> bytes \<Rightarrow> bytes \<Rightarrow> bytes \<Rightarrow> bytes" where
  "ssSeal C cipherName key nonce plaintext =
     (let len = be16 (Fin (int (length plaintext)) 0);
          (ct, tag) = aead_enc C (ss_cipher_name cipherName) key nonce len plaintext
      in ct @ tag)"

definition ssOpen :: "crypto \<Rightarrow> string \<Rightarrow> bytes \<Rightarrow> bytes \<Rightarrow> bytes \<Rightarrow> error + bytes" where
  "ssOpen C cipherName key nonce sealed =
     (let n = int (length sealed) - 16;
          len = be16 (Fin n 0);
          tag = subarray sealed n (int (length sealed))
      in case aead_dec C (ss_cipher_name cipherName) key nonce len (subarray sealed 0 n) tag of
           None \<Rightarrow> Inl CryptoError
         | Some p \<Rightarrow> Inr p)"

section \<open>The connection\<close>

record ss_session =
  ss_cipher :: string
  ss_key :: bytes
  out_nonce :: nat
  in_nonce :: nat

text \<open>One chunk: the two-byte length of the sealed part, then the sealed part.\<close>

definition ss_chunk :: "crypto \<Rightarrow> ss_session \<Rightarrow> bytes \<Rightarrow> error + bytes \<times> ss_session" where
  "ss_chunk C s part =
     (let (nonce, counter) = ss_next (out_nonce s);
          sealed = ssSeal C (ss_cipher s) (ss_key s) nonce part
      in Inr (be16 (Fin (int (length sealed)) 0) @ sealed, s\<lparr>out_nonce := counter\<rparr>))"

text \<open>
  \<open>ssConnect\<close> up to its first write, for the salt drawn: the bytes written once the socket is
  connected, and the session.
\<close>

definition ssConnect ::
  "crypto \<Rightarrow> (jsnum \<Rightarrow> string) \<Rightarrow> jsval \<Rightarrow> string \<Rightarrow> jsnum \<Rightarrow> bytes \<Rightarrow> (error + bytes \<times> ss_session) option" where
  "ssConnect C num_str node host port salt =
     (let cipherName = string_or num_str (get_prop node ''cipher'') ''aes-256-gcm'' in
      if ss_key_size cipherName = None then Some (Inl (Error (''ss: unsupported cipher '' @ cipherName)))
      else case ssSubkey C (string_or num_str (get_prop node ''password'') '''') salt cipherName of
             None \<Rightarrow> None
           | Some (Inl e) \<Rightarrow> Some (Inl e)
           | Some (Inr key) \<Rightarrow>
               Some (bind_res (ss_chunk C \<lparr>ss_cipher = cipherName, ss_key = key, out_nonce = 0, in_nonce = 0\<rparr>
                                 (encodeAddr host port))
                       (\<lambda>(first, s). Inr (salt @ first, s))))"

definition ss_write :: "crypto \<Rightarrow> ss_session \<Rightarrow> bytes \<Rightarrow> bytes list \<times> (error + ss_session)" where
  "ss_write C s data = enc_all (ss_chunk C) s (slices data)"

text \<open>One round of the generator \<open>read\<close>.\<close>

definition ss_read ::
  "crypto \<Rightarrow> ('s \<Rightarrow> nat \<Rightarrow> error + bytes \<times> 's) \<Rightarrow> ss_session \<Rightarrow> 's \<Rightarrow> error + bytes \<times> ss_session \<times> 's" where
  "ss_read C rd s src =
     bind_res (rd src 2) (\<lambda>(lengthHeader, src1).
     bind_res (rd src1 (unat (lengthHeader ! 0) * 256 + unat (lengthHeader ! 1))) (\<lambda>(sealed, src2).
       let (nonce, counter) = ss_next (in_nonce s) in
     bind_res (ssOpen C (ss_cipher s) (ss_key s) nonce sealed) (\<lambda>p.
       Inr (p, s\<lparr>in_nonce := counter\<rparr>, src2))))"


section \<open>The master key\<close>

text \<open>The digest chain of \<open>EVP_BytesToKey\<close>: each digest is of the one before and the password.\<close>

fun digest_chain :: "(bytes \<Rightarrow> bytes) \<Rightarrow> bytes \<Rightarrow> bytes \<Rightarrow> nat \<Rightarrow> bytes list" where
  "digest_chain h password d 0 = []"
| "digest_chain h password d (Suc n) = h (d @ password) # digest_chain h password (h (d @ password)) n"

lemma key_loop_chain:
  assumes "\<forall>x. length (h x) = 16"
  shows "ss_key_loop h pw n out d =
    Some (take n (concat (out @ digest_chain h pw d ((n - length (concat out) + 15) div 16))))"
proof (induction "n - length (concat out)" arbitrary: out d rule: less_induct)
  case less
  show ?case
  proof (cases "length (concat out) < n")
    case False
    then show ?thesis by (subst ss_key_loop.simps) simp
  next
    case True
    define m where "m = n - length (concat out)"
    have m: "0 < m" "n - length (concat (out @ [h (d @ pw)])) = m - 16"
      using True assms by (auto simp: m_def)
    have steps: "(m + 15) div 16 = Suc ((m - 16 + 15) div 16)"
      using m(1) by (cases "16 \<le> m") (auto simp: div_if[of "m + 15" 16])
    have "ss_key_loop h pw n (out @ [h (d @ pw)]) (h (d @ pw)) =
      Some (take n (concat ((out @ [h (d @ pw)]) @ digest_chain h pw (h (d @ pw)) ((m - 16 + 15) div 16))))"
      using less.hyps[of "out @ [h (d @ pw)]" "h (d @ pw)"] m by (simp add: m_def[symmetric])
    then show ?thesis
      using True steps by (subst ss_key_loop.simps) (simp add: Let_def m_def[symmetric])
  qed
qed

lemma length_digest_chain: "\<forall>x. length (h x) = 16 \<Longrightarrow> length (concat (digest_chain h pw d n)) = 16 * n"
  by (induction n arbitrary: d) auto

lemma ssMasterKey_eq:
  assumes "digests_correct C"
  shows "ssMasterKey C pw n = Some (take n (concat (digest_chain (md5 C) (utf8 pw) [] ((n + 15) div 16))))"
  using key_loop_chain[of "md5 C" "utf8 pw" n "[]" "[]"] assms by (simp add: ssMasterKey_def digests_correct_def)

section \<open>Sealing and opening\<close>

lemma be16_length: "n < 65536 \<Longrightarrow> be16 (Fin (int n) 0) = [of_nat (n div 256), of_nat (n mod 256)]"
  by (rule be16_nat)

lemma ssSeal_length: "aead_correct C \<Longrightarrow> length (ssSeal C c k n p) = length p + 16"
  by (auto simp: ssSeal_def aead_correct_def Let_def split: prod.splits) (metis fst_conv snd_conv)

lemma ssOpen_ssSeal: "aead_correct C \<Longrightarrow> ssOpen C c k n (ssSeal C c k n p) = Inr p"
proof -
  assume C: "aead_correct C"
  let ?l = "be16 (Fin (int (length p)) 0)"
  obtain ct tag where e: "aead_enc C (ss_cipher_name c) k n ?l p = (ct, tag)" by force
  then have l: "length ct = length p" "length tag = 16"
      and d: "aead_dec C (ss_cipher_name c) k n ?l ct tag = Some p"
    using C unfolding aead_correct_def by (metis fst_conv snd_conv)+
  have "subarray (ct @ tag) 0 (int (length ct)) = ct"
    "subarray (ct @ tag) (int (length ct)) (int (length (ct @ tag))) = tag"
    using subarray_inside[of 0 "length ct" "ct @ tag"]
      subarray_inside[of "length ct" "length (ct @ tag)" "ct @ tag"] by simp_all
  then show ?thesis by (simp add: ssOpen_def ssSeal_def Let_def e l d)
qed

section \<open>The chunk stream\<close>

definition ss_in_sync :: "crypto \<Rightarrow> ss_session \<Rightarrow> ss_session \<Rightarrow> bool" where
  "ss_in_sync C w r \<longleftrightarrow> aead_correct C \<and> ss_cipher w = ss_cipher r \<and> ss_key w = ss_key r \<and> out_nonce w = in_nonce r"

context byte_source begin

lemma read_sized:
  assumes "ok s" "avail s = be16 (Fin (int (length sealed)) 0) @ sealed @ rest" "length sealed < 65536"
  shows "\<exists>h s1 s2. rd s 2 = Inr (h, s1) \<and> unat (h ! 0) * 256 + unat (h ! 1) = length sealed
           \<and> rd s1 (length sealed) = Inr (sealed, s2) \<and> avail s2 = rest \<and> ok s2"
proof -
  let ?h = "be16 (Fin (int (length sealed)) 0)"
  obtain s1 where s1: "rd s 2 = Inr (?h, s1)" "avail s1 = sealed @ rest" "ok s1"
    using rd_append[OF assms(1,2)] by auto
  obtain s2 where s2: "rd s1 (length sealed) = Inr (sealed, s2)" "avail s2 = rest" "ok s2"
    using rd_append[OF s1(3,2)] by auto
  have "length sealed div 256 < 256" using assms(3) by auto
  then have "unat (?h ! 0) * 256 + unat (?h ! 1) = length sealed"
    using assms(3) by (simp add: be16_nat)
  then show ?thesis using s1 s2 by blast
qed

lemma ss_read_chunk:
  assumes "ss_in_sync C w r" "length p + 16 < 65536" "ss_chunk C w p = Inr (f, w')" "ok s" "avail s = f @ rest"
  shows "\<exists>r' s'. ss_read C rd r s = Inr (p, r', s') \<and> ss_in_sync C w' r' \<and> avail s' = rest \<and> ok s'"
proof -
  have C: "aead_correct C" using assms(1) by (simp add: ss_in_sync_def)
  define sealed where "sealed = ssSeal C (ss_cipher w) (ss_key w) (fst (ss_next (out_nonce w))) p"
  have f: "f = be16 (Fin (int (length sealed)) 0) @ sealed" "w' = w\<lparr>out_nonce := js_incr (out_nonce w)\<rparr>"
    using assms(3) by (auto simp: ss_chunk_def sealed_def Let_def ss_next_def)
  have len: "length sealed < 65536" using assms(2) ssSeal_length[OF C] by (simp add: sealed_def)
  obtain h s1 s2 where r: "rd s 2 = Inr (h, s1)" "unat (h ! 0) * 256 + unat (h ! 1) = length sealed"
     "rd s1 (length sealed) = Inr (sealed, s2)" "avail s2 = rest" "ok s2"
    using read_sized[OF assms(4), of sealed rest] assms(5) f(1) len by auto
  have o: "ssOpen C (ss_cipher r) (ss_key r) (fst (ss_next (in_nonce r))) sealed = Inr p"
    using assms(1) ssOpen_ssSeal[OF C] by (simp add: sealed_def ss_in_sync_def)
  have "ss_read C rd r s = Inr (p, r\<lparr>in_nonce := js_incr (in_nonce r)\<rparr>, s2)"
    using r(1,3) o by (simp add: ss_read_def r(2)[simplified] ss_next_def)
  then show ?thesis using r assms(1) f(2) by (auto simp: ss_in_sync_def)
qed

end

interpretation ss: chunk_codec conn_read conn_avail conn_ok "ss_chunk C" "ss_read C conn_read" "ss_in_sync C"
    "\<lambda>p. length p + 16 < 65536" for C
  by unfold_locales (rule conn.ss_read_chunk)

lemma ss_chunk_total: "\<exists>f. ss_chunk C s p = Inr (f, s\<lparr>out_nonce := js_incr (out_nonce s)\<rparr>)"
  by (simp add: ss_chunk_def Let_def ss_next_def)

lemma ss_write_total: "\<exists>fs s'. ss_write C s data = (fs, Inr s')"
proof -
  have "\<exists>fs s'. enc_all (ss_chunk C) s ps = (fs, Inr s')" for ps s
  proof (induction ps arbitrary: s)
    case (Cons p ps)
    obtain f w where "ss_chunk C s p = Inr (f, w)" using ss_chunk_total by blast
    moreover obtain fs s' where "enc_all (ss_chunk C) w ps = (fs, Inr s')" using Cons by blast
    ultimately show ?case by simp
  qed simp
  then show ?thesis by (simp add: ss_write_def)
qed

lemma slices_fit: "\<forall>p \<in> set (slices data). length p + 16 < 65536"
  using slices_bounds[of _ data] by fastforce

lemma ssConnect_total:
  assumes "digests_correct C" "ss_key_size (string_or num_str (get_prop node ''cipher'') ''aes-256-gcm'') = Some n"
  shows "\<exists>first s. ssConnect C num_str node host port salt = Some (Inr (first, s))"
proof -
  let ?pw = "string_or num_str (get_prop node ''password'') ''''"
  obtain key where key: "ssMasterKey C ?pw n = Some key" using ssMasterKey_eq[OF assms(1)] by blast
  obtain f where "ss_chunk C \<lparr>ss_cipher = string_or num_str (get_prop node ''cipher'') ''aes-256-gcm'',
      ss_key = hkdf_sha1 C key salt ''ss-subkey'' n, out_nonce = 0, in_nonce = 0\<rparr> (encodeAddr host port)
      = Inr f" using ss_chunk_total by blast
  then show ?thesis by (cases f) (simp add: ssConnect_def ssSubkey_def Let_def assms(2) key del: ss_key_size.simps)
qed

section \<open>Properties\<close>



lemma js_incr_funpow: "(js_incr ^^ i) 0 = min i (2 ^ 53)"
  by (induction i) (auto simp: js_incr_def min_def)

lemma be_bytes_inj: "m < 256 ^ k \<Longrightarrow> n < 256 ^ k \<Longrightarrow> be_bytes k m = be_bytes k n \<Longrightarrow> m = n"
  by (metis be_nat_be_bytes)

text \<open>The nonce of the i-th chunk of a direction.\<close>

definition ss_nonce_at :: "nat \<Rightarrow> bytes" where
  "ss_nonce_at i = fst (ss_next ((js_incr ^^ i) 0))"

lemma ss_nonce_at_eq: "ss_nonce_at i = rev (be_bytes 8 (min i (2 ^ 53))) @ [0, 0, 0, 0]"
  by (simp only: ss_nonce_at_def js_incr_funpow ss_next_def fst_conv)

text \<open>C20. The nonces of one direction are pairwise distinct for the first 2^53 + 1 chunks, as AEAD ciphers
  need under one key, and never again after that: the counter is a Number and stops there.\<close>

theorem ss_nonces_distinct:
  "(ss_nonce_at i = ss_nonce_at j) = (i = j \<or> 2 ^ 53 \<le> i \<and> 2 ^ 53 \<le> j)"
proof -
  have "min i (2 ^ 53) < (256 :: nat) ^ 8" for i :: nat by (simp add: min_def)
  then have "(ss_nonce_at i = ss_nonce_at j) = (min i (2 ^ 53) = min j ((2 :: nat) ^ 53))"
    unfolding ss_nonce_at_eq using be_bytes_inj[of "min i (2 ^ 53)" 8 "min j (2 ^ 53)"] by auto
  also have "\<dots> = (i = j \<or> 2 ^ 53 \<le> i \<and> 2 ^ 53 \<le> j)" by (auto simp: min_def)
  finally show ?thesis .
qed

text \<open>Key derivation ends, and gives exactly the requested number of bytes: the prefix of the chain in
  which each MD5 digest is taken over the one before and the password.\<close>

theorem ss_master_key_is_evp_bytes_to_key:
  assumes "digests_correct C"
  shows "\<exists>key. ssMasterKey C pw n = Some key \<and> length key = n
     \<and> (\<exists>m. key = take n (concat (digest_chain (md5 C) (utf8 pw) [] m)))"
proof -
  have "length (concat (digest_chain (md5 C) (utf8 pw) [] ((n + 15) div 16))) = 16 * ((n + 15) div 16)"
    using assms by (simp add: digests_correct_def length_digest_chain)
  then show ?thesis by (auto simp: ssMasterKey_eq[OF assms])
qed

theorem ss_master_key_is_evp_bytes_to_key_witness:
  "\<exists>key. ssMasterKey sum_crypto ''pw'' 32 = Some key \<and> length key = 32
     \<and> (\<exists>m. key = take 32 (concat (digest_chain (md5 sum_crypto) (utf8 ''pw'') [] m)))"
  by (rule ss_master_key_is_evp_bytes_to_key) (rule sum_crypto_correct(2))

text \<open>A connection's first write is the salt and one chunk that carries the target address: a peer
  that derives the session from the salt reads the address back as its first chunk.\<close>

theorem ss_first_write_carries_address:
  assumes "aead_correct C" "ssConnect C num_str node host port salt = Some (Inr (first, s))"
    "length (encodeAddr host port) < 65520" "conn_ok c" "conn_avail c = first @ rest"
  shows "\<exists>c1 r c2. conn_read c (length salt) = Inr (salt, c1)
     \<and> ss_read C conn_read (s\<lparr>in_nonce := 0\<rparr>) c1 = Inr (encodeAddr host port, r, c2) \<and> conn_avail c2 = rest"
proof -
  obtain s0 f where s0: "ss_chunk C s0 (encodeAddr host port) = Inr (f, s)" "first = salt @ f" "out_nonce s0 = 0"
    using assms(2) by (fastforce simp: ssConnect_def Let_def bind_res_Inr_iff split: if_splits option.splits sum.splits)
  obtain c1 where c1: "conn_read c (length salt) = Inr (salt, c1)" "conn_avail c1 = f @ rest" "conn_ok c1"
    using conn.rd_append[OF assms(4), of salt "f @ rest"] assms(5) s0(2) by auto
  have "ss_in_sync C s0 (s\<lparr>in_nonce := 0\<rparr>)"
    using s0 assms(1) by (auto simp: ss_in_sync_def ss_chunk_def Let_def split: prod.splits)
  then show ?thesis
    using ss.dec_enc[OF _ _ s0(1) c1(3,2)] assms(3) c1(1) by fastforce
qed

theorem ss_first_write_carries_address_witness:
  "let (first, s) = (case ssConnect sum_crypto (\<lambda>n. []) (JObj [(''password'', JStr ''pw'')]) ''a.b'' (Fin 80 0)
                       (replicate 32 7) of Some (Inr r) \<Rightarrow> r);
       c = \<lparr>sb = new_sockbuf, arriving = [first, [1]]\<rparr>
   in \<exists>c1 r c2. conn_read c (length (replicate 32 (7 :: byte))) = Inr (replicate 32 7, c1)
     \<and> ss_read sum_crypto conn_read (s\<lparr>in_nonce := 0\<rparr>) c1 = Inr (encodeAddr ''a.b'' (Fin 80 0), r, c2)
     \<and> conn_avail c2 = [1]"
proof -
  have k: "ss_key_size (string_or (\<lambda>n. []) (get_prop (JObj [(''password'', JStr ''pw'')]) ''cipher'') ''aes-256-gcm'')
      = Some 32" by simp
  obtain first s where c: "ssConnect sum_crypto (\<lambda>n. []) (JObj [(''password'', JStr ''pw'')]) ''a.b'' (Fin 80 0)
      (replicate 32 7) = Some (Inr (first, s))"
    using ssConnect_total[OF sum_crypto_correct(2) k] by blast
  have "length (encodeAddr ''a.b'' (Fin 80 0)) < 65520"
  proof -
    have "plain_name ''a.b''" unfolding plain_name_def ascii_def by code_simp
    then show ?thesis by (simp add: encodeAddr_name plain_name_def length_utf8_ascii)
  qed
  then show ?thesis
    unfolding Let_def c
    using ss_first_write_carries_address[OF sum_crypto_correct(1) c, of "\<lparr>sb = new_sockbuf, arriving = [first, [1]]\<rparr>" "[1]"]
    by (simp add: conn_ok_def conn_avail_def)
qed

end
