(* ===== verification/Vmess.thy ===== *)
theory Vmess
  imports ChunkCodec AddrCodec
begin

text \<open>
  \<open>lib/core/vmess.js\<close>: the checksums, the key derivation, the request header and command, the body
  chunks in both directions and the response header. Random draws and the clock are arguments.
\<close>

section \<open>Checksums\<close>

definition fnv1a32 :: "bytes \<Rightarrow> 32 word" where
  "fnv1a32 buffer = foldl (\<lambda>hash b. xor hash (ucast b) * 0x01000193) 0x811c9dc5 buffer"

definition crc_step :: "32 word \<Rightarrow> 32 word" where
  "crc_step crc = xor (drop_bit 1 crc) (if and crc 1 \<noteq> 0 then 0xedb88320 else 0)"

definition crc32 :: "bytes \<Rightarrow> 32 word" where
  "crc32 buffer =
     xor (foldl (\<lambda>crc b. (crc_step ^^ 8) (xor crc (ucast b))) 0xffffffff buffer) 0xffffffff"

text \<open>\<open>writeUInt32BE\<close>.\<close>

definition u32_bytes :: "32 word \<Rightarrow> bytes" where
  "u32_bytes w = map (\<lambda>i. ucast (drop_bit (24 - 8 * i) w)) [0..<4]"

section \<open>Key derivation\<close>

definition pad64 :: "bytes \<Rightarrow> byte \<Rightarrow> bytes" where
  "pad64 keyBytes padByte =
     map (\<lambda>i. if i < min (length keyBytes) 64 then xor padByte (keyBytes ! i) else padByte) [0..<64]"

definition latin1_bytes :: "string \<Rightarrow> bytes" where
  "latin1_bytes s = map (\<lambda>c. of_nat (code_unit c)) s"

record pads =
  ipad :: bytes
  opad :: bytes

definition pads_of :: "bytes \<Rightarrow> pads" where
  "pads_of k = \<lparr>ipad = pad64 k 0x36, opad = pad64 k 0x5c\<rparr>"

text \<open>
  \<open>sumLevel\<close> of \<open>vmessKdf\<close>: the digest and the new value of the variable \<open>inner\<close> it assigns.
\<close>

fun sumLevel :: "(bytes \<Rightarrow> bytes) \<Rightarrow> pads list \<Rightarrow> nat \<Rightarrow> bytes \<Rightarrow> bytes \<times> bytes" where
  "sumLevel sha pads 0 inner = (sha (opad (pads ! 0) @ sha inner), inner)"
| "sumLevel sha pads (Suc l) inner =
     (let (innerDigest, _) = sumLevel sha pads l inner;
          inner' = concat (map ipad (take (Suc l) pads)) @ opad (pads ! Suc l) @ innerDigest
      in sumLevel sha pads l inner')"

definition vmessKdf :: "crypto \<Rightarrow> bytes \<Rightarrow> string list \<Rightarrow> bytes" where
  "vmessKdf C key paths =
     (let pads = pads_of (utf8 ''VMess AEAD KDF'') # map (\<lambda>p. pads_of (latin1_bytes p)) paths;
          inner = concat (map ipad pads) @ key
      in fst (sumLevel (sha256 C) pads (length paths) inner))"

definition kdf16 :: "crypto \<Rightarrow> bytes \<Rightarrow> string list \<Rightarrow> bytes" where
  "kdf16 C key paths = take 16 (vmessKdf C key paths)"

definition kdf12 :: "crypto \<Rightarrow> bytes \<Rightarrow> string list \<Rightarrow> bytes" where
  "kdf12 C key paths = take 12 (vmessKdf C key paths)"

section \<open>AES-128-GCM\<close>

definition gcmSeal :: "crypto \<Rightarrow> bytes \<Rightarrow> bytes \<Rightarrow> bytes \<Rightarrow> bytes \<Rightarrow> bytes" where
  "gcmSeal C key nonce plaintext aad =
     (case aead_enc C ''aes-128-gcm'' key nonce aad plaintext of (ct, tag) \<Rightarrow> ct @ tag)"

definition gcmOpen :: "crypto \<Rightarrow> bytes \<Rightarrow> bytes \<Rightarrow> bytes \<Rightarrow> bytes \<Rightarrow> error + bytes" where
  "gcmOpen C key nonce sealed aad =
     (let n = int (length sealed) - 16 in
      case aead_dec C ''aes-128-gcm'' key nonce aad (subarray sealed 0 n) (subarray sealed n (int (length sealed))) of
        None \<Rightarrow> Inl CryptoError
      | Some p \<Rightarrow> Inr p)"

section \<open>Request header\<close>

definition createAuthId :: "crypto \<Rightarrow> bytes \<Rightarrow> nat \<Rightarrow> bytes \<Rightarrow> bytes" where
  "createAuthId C cmdKey now rand =
     (let head = be_bytes 8 now @ rand
      in aes_ecb C (kdf16 C cmdKey [''AES Auth ID Encryption'']) (head @ u32_bytes (crc32 head)))"

text \<open>\<open>Buffer.alloc(2).writeUInt16BE(n)\<close> of a length or a count.\<close>

definition u16_bytes :: "nat \<Rightarrow> error + bytes" where
  "u16_bytes n = (if 65535 < n then Inl RangeError else Inr (be_bytes 2 n))"

definition sealVmessAeadHeader ::
  "crypto \<Rightarrow> bytes \<Rightarrow> bytes \<Rightarrow> nat \<Rightarrow> bytes \<Rightarrow> bytes \<Rightarrow> error + bytes" where
  "sealVmessAeadHeader C cmdKey command now rand connectionNonce =
     (let authId = createAuthId C cmdKey now rand;
          path = [latin1 authId, latin1 connectionNonce] in
      bind_res (u16_bytes (length command)) (\<lambda>lengthPlain.
        let lengthSealed = gcmSeal C (kdf16 C cmdKey (''VMess Header AEAD Key_Length'' # path))
                             (kdf12 C cmdKey (''VMess Header AEAD Nonce_Length'' # path)) lengthPlain authId;
            payloadSealed = gcmSeal C (kdf16 C cmdKey (''VMess Header AEAD Key'' # path))
                              (kdf12 C cmdKey (''VMess Header AEAD Nonce'' # path)) command authId
        in Inr (authId @ lengthSealed @ connectionNonce @ payloadSealed)))"

text \<open>\<open>buildVmessCommand\<close>; \<open>padding\<close> is the random padding, of the length drawn.\<close>

definition buildVmessCommand ::
  "bytes \<Rightarrow> bytes \<Rightarrow> byte \<Rightarrow> string \<Rightarrow> jsnum \<Rightarrow> bytes \<Rightarrow> error + bytes" where
  "buildVmessCommand reqKey reqIV responseHeader host port padding =
     bind_res (vmessEncodeAddr host port) (\<lambda>addr.
       let security = or (push_bit 4 (of_nat (length padding))) 0x03;
           body = [0x01] @ reqIV @ reqKey @ [responseHeader] @ [0x01] @ [security, 0x00, 0x01] @ addr @ padding
       in Inr (body @ u32_bytes (fnv1a32 body)))"

section \<open>Body chunks\<close>

definition chunkNonce :: "bytes \<Rightarrow> nat \<Rightarrow> error + bytes" where
  "chunkNonce iv count =
     bind_res (u16_bytes count) (\<lambda>c. Inr (take 12 (c @ take 10 (drop 2 iv) @ replicate 12 0)))"

record vmess_body =
  body_key :: bytes
  body_iv :: bytes
  chunk_count :: nat

text \<open>One round of the loop of \<open>VmessChunkWriter.write\<close>: what goes to the sink.\<close>

definition vmess_chunk :: "crypto \<Rightarrow> vmess_body \<Rightarrow> bytes \<Rightarrow> error + bytes \<times> vmess_body" where
  "vmess_chunk C w part =
     bind_res (chunkNonce (body_iv w) (chunk_count w)) (\<lambda>nonce.
       let sealed = gcmSeal C (body_key w) nonce part [] in
       bind_res (u16_bytes (length sealed)) (\<lambda>size.
         Inr (size @ sealed, w\<lparr>chunk_count := chunk_count w + 1\<rparr>)))"

definition vmess_write :: "crypto \<Rightarrow> vmess_body \<Rightarrow> bytes \<Rightarrow> bytes list \<times> (error + vmess_body)" where
  "vmess_write C w plaintext =
     (if plaintext = [] then ([], Inr w) else enc_all (vmess_chunk C) w (slices plaintext))"

definition vmess_end :: bytes where
  "vmess_end = [0, 0]"

text \<open>\<open>VmessChunkReader.readChunk\<close>: \<open>None\<close> is the terminal chunk.\<close>

definition readChunk ::
  "crypto \<Rightarrow> ('s \<Rightarrow> nat \<Rightarrow> error + bytes \<times> 's) \<Rightarrow> vmess_body \<Rightarrow> 's \<Rightarrow> error + bytes option \<times> vmess_body \<times> 's" where
  "readChunk C rd r s =
     bind_res (rd s 2) (\<lambda>(sizeHeader, s1).
       let size = be_nat sizeHeader in
       if size = 0 then Inr (None, r, s1)
       else bind_res (rd s1 size) (\<lambda>(sealed, s2).
            bind_res (chunkNonce (body_iv r) (chunk_count r)) (\<lambda>nonce.
            bind_res (gcmOpen C (body_key r) nonce sealed []) (\<lambda>p.
              Inr (Some p, r\<lparr>chunk_count := chunk_count r + 1\<rparr>, s2)))))"

text \<open>The consumer's loop over the body: the chunks up to the terminal one.\<close>

partial_function (option) vmess_drain ::
  "crypto \<Rightarrow> ('s \<Rightarrow> nat \<Rightarrow> error + bytes \<times> 's) \<Rightarrow> vmess_body \<Rightarrow> 's \<Rightarrow> bytes list
     \<Rightarrow> (error + bytes list \<times> vmess_body \<times> 's) option" where
  "vmess_drain C rd r s acc =
     (case readChunk C rd r s of
        Inl e \<Rightarrow> Some (Inl e)
      | Inr (None, r', s') \<Rightarrow> Some (Inr (acc, r', s'))
      | Inr (Some p, r', s') \<Rightarrow> vmess_drain C rd r' s' (acc @ [p]))"

declare vmess_drain.simps [simp del]

section \<open>Response header\<close>

definition decodeVmessResponse ::
  "crypto \<Rightarrow> ('s \<Rightarrow> nat \<Rightarrow> error + bytes \<times> 's) \<Rightarrow> bytes \<Rightarrow> bytes \<Rightarrow> 's \<Rightarrow> error + (bytes \<times> bytes \<times> bytes) \<times> 's" where
  "decodeVmessResponse C rd reqKey reqIV s =
     (let respKey = take 16 (sha256 C reqKey);
          respIV = take 16 (sha256 C reqIV) in
      bind_res (rd s 18) (\<lambda>(lengthSealed, s1).
      bind_res (gcmOpen C (kdf16 C respKey [''AEAD Resp Header Len Key''])
                  (kdf12 C respIV [''AEAD Resp Header Len IV'']) lengthSealed []) (\<lambda>lengthPlain.
      bind_res (readUInt16BE lengthPlain 0) (\<lambda>payloadLength.
      bind_res (rd s1 (payloadLength + 16)) (\<lambda>(payloadSealed, s2).
      bind_res (gcmOpen C (kdf16 C respKey [''AEAD Resp Header Key''])
                  (kdf12 C respIV [''AEAD Resp Header IV'']) payloadSealed []) (\<lambda>payload.
        Inr ((payload, respKey, respIV), s2)))))))"


section \<open>The key derivation is a nested HMAC\<close>

text \<open>\<open>HMAC\<close> over the hash \<open>h\<close> (RFC 2104, keys of at most a block), itself a hash of messages.\<close>

definition hmac :: "(bytes \<Rightarrow> bytes) \<Rightarrow> bytes \<Rightarrow> bytes \<Rightarrow> bytes" where
  "hmac h k m = h (pad64 k 0x5c @ h (pad64 k 0x36 @ m))"

lemma sumLevel_nested:
  assumes "l < length ks"
  shows "fst (sumLevel sha (map pads_of ks) l (concat (map ipad (take (Suc l) (map pads_of ks))) @ m))
    = foldl hmac sha (take (Suc l) ks) m"
  using assms
proof (induction l arbitrary: m)
  case 0
  then show ?case by (cases ks) (simp_all add: pads_of_def hmac_def)
next
  case (Suc l)
  let ?c = "\<lambda>n. concat (map ipad (take n (map pads_of ks)))"
  have t: "take (Suc (Suc l)) ks = take (Suc l) ks @ [ks ! Suc l]"
    using Suc.prems by (simp add: take_Suc_conv_app_nth)
  have ip: "?c (Suc (Suc l)) @ m = ?c (Suc l) @ (pad64 (ks ! Suc l) 0x36 @ m)"
    using Suc.prems by (simp add: take_map t pads_of_def)
  have IH: "fst (sumLevel sha (map pads_of ks) l (?c (Suc l) @ m)) = foldl hmac sha (take (Suc l) ks) m" for m
    using Suc by simp
  obtain d inner where d: "sumLevel sha (map pads_of ks) l (?c (Suc l) @ (pad64 (ks ! Suc l) 0x36 @ m)) = (d, inner)"
    by force
  have d': "d = foldl hmac sha (take (Suc l) ks) (pad64 (ks ! Suc l) 0x36 @ m)"
    using IH[of "pad64 (ks ! Suc l) 0x36 @ m"] d by simp
  have op: "opad (map pads_of ks ! Suc l) = pad64 (ks ! Suc l) 0x5c"
    using Suc.prems by (simp add: pads_of_def)
  show ?case
    unfolding ip sumLevel.simps(2) d Let_def prod.case op
    using IH[of "pad64 (ks ! Suc l) 0x5c @ d"] by (simp add: t d' hmac_def[of "foldl hmac sha (take (Suc l) ks)" "ks ! Suc l" m])
qed

text \<open>C21. The key derivation, written as one mutable inner buffer rewritten level by level, computes the
  chain of nested HMACs it stands for: HMAC-SHA256 under the constant, then an HMAC over the previous one
  per path.\<close>

theorem vmess_kdf_is_nested_hmac:
  "vmessKdf C key paths = foldl hmac (sha256 C) (utf8 ''VMess AEAD KDF'' # map latin1_bytes paths) key"
proof -
  let ?ks = "utf8 ''VMess AEAD KDF'' # map latin1_bytes paths"
  have "pads_of (utf8 ''VMess AEAD KDF'') # map (\<lambda>p. pads_of (latin1_bytes p)) paths = map pads_of ?ks"
    by simp
  then show ?thesis
    using sumLevel_nested[of "length paths" ?ks "sha256 C" key]
    by (simp only: vmessKdf_def Let_def length_map length_Cons lessI take_all order_refl)
qed

section \<open>Sealing and opening\<close>

lemma gcmSeal_length: "aead_correct C \<Longrightarrow> length (gcmSeal C k n p a) = length p + 16"
  by (auto simp: gcmSeal_def aead_correct_def split: prod.splits) (metis fst_conv snd_conv)

lemma gcmOpen_gcmSeal: "aead_correct C \<Longrightarrow> gcmOpen C k n (gcmSeal C k n p a) a = Inr p"
proof -
  assume C: "aead_correct C"
  obtain ct tag where e: "aead_enc C ''aes-128-gcm'' k n a p = (ct, tag)" by force
  then have l: "length ct = length p" "length tag = 16"
      and d: "aead_dec C ''aes-128-gcm'' k n a ct tag = Some p"
    using C unfolding aead_correct_def by (metis fst_conv snd_conv)+
  have "subarray (ct @ tag) 0 (int (length ct)) = ct"
    "subarray (ct @ tag) (int (length ct)) (int (length (ct @ tag))) = tag"
    using subarray_inside[of 0 "length ct" "ct @ tag"]
      subarray_inside[of "length ct" "length (ct @ tag)" "ct @ tag"] by simp_all
  then show ?thesis by (simp add: gcmOpen_def gcmSeal_def Let_def e l d)
qed

section \<open>Body chunks\<close>

definition vmess_in_sync :: "crypto \<Rightarrow> vmess_body \<Rightarrow> vmess_body \<Rightarrow> bool" where
  "vmess_in_sync C w r \<longleftrightarrow> aead_correct C \<and> w = r"

text \<open>A chunk reader that takes the terminal chunk as the end of the data.\<close>

definition readChunk_data ::
  "crypto \<Rightarrow> ('s \<Rightarrow> nat \<Rightarrow> error + bytes \<times> 's) \<Rightarrow> vmess_body \<Rightarrow> 's \<Rightarrow> error + bytes \<times> vmess_body \<times> 's" where
  "readChunk_data C rd r s =
     bind_res (readChunk C rd r s)
       (\<lambda>(p, q). case p of Some p \<Rightarrow> Inr (p, q) | None \<Rightarrow> Inl (Error ''end of stream''))"

context byte_source begin

lemma readChunk_chunk:
  assumes "vmess_in_sync C w r" "vmess_chunk C w p = Inr (f, w')" "ok s" "avail s = f @ rest"
  shows "\<exists>s'. readChunk C rd r s = Inr (Some p, w', s') \<and> avail s' = rest \<and> ok s'"
proof -
  have C: "aead_correct C" "w = r" using assms(1) by (simp_all add: vmess_in_sync_def)
  obtain nonce where n: "chunkNonce (body_iv w) (chunk_count w) = Inr nonce"
    using assms(2) by (auto simp: vmess_chunk_def bind_res_Inr_iff)
  define sealed where "sealed = gcmSeal C (body_key w) nonce p []"
  have len: "length sealed < 65536" "f = be_bytes 2 (length sealed) @ sealed"
      "w' = w\<lparr>chunk_count := chunk_count w + 1\<rparr>"
    using assms(2) n by (auto simp: vmess_chunk_def u16_bytes_def Let_def sealed_def[symmetric] split: if_splits)
  have pos: "length sealed \<noteq> 0" using gcmSeal_length[OF C(1)] by (simp add: sealed_def)
  obtain s1 where s1: "rd s 2 = Inr (be_bytes 2 (length sealed), s1)" "avail s1 = sealed @ rest" "ok s1"
    using rd_append[OF assms(3), of "be_bytes 2 (length sealed)" "sealed @ rest" 2] assms(4) len(2) by auto
  obtain s2 where s2: "rd s1 (length sealed) = Inr (sealed, s2)" "avail s2 = rest" "ok s2"
    using rd_append[OF s1(3,2)] by auto
  have "readChunk C rd r s = Inr (Some p, w', s2)"
    using s1(1) s2(1) n len pos gcmOpen_gcmSeal[OF C(1)] C(2)
    by (simp add: readChunk_def sealed_def Let_def)
  then show ?thesis using s2 by blast
qed

lemma readChunk_end:
  assumes "ok s" "avail s = vmess_end @ rest"
  shows "\<exists>s'. readChunk C rd r s = Inr (None, r, s') \<and> avail s' = rest \<and> ok s'"
proof -
  obtain s1 where s1: "rd s 2 = Inr (vmess_end, s1)" "avail s1 = rest" "ok s1"
    using rd_append[OF assms, of 2] by (auto simp: vmess_end_def)
  then show ?thesis by (auto simp: readChunk_def vmess_end_def be_nat_def)
qed

lemma readChunk_data_chunk:
  assumes "vmess_in_sync C w r" "vmess_chunk C w p = Inr (f, w')" "ok s" "avail s = f @ rest"
  shows "\<exists>r' s'. readChunk_data C rd r s = Inr (p, r', s') \<and> vmess_in_sync C w' r' \<and> avail s' = rest \<and> ok s'"
  using readChunk_chunk[OF assms] assms(1) by (auto simp: readChunk_data_def vmess_in_sync_def)

end

interpretation vmess_tcp: chunk_codec conn_read conn_avail conn_ok "vmess_chunk C" "readChunk_data C conn_read"
    "vmess_in_sync C" "\<lambda>_. True" for C
  by unfold_locales (blast intro: conn.readChunk_data_chunk)

interpretation vmess_ws: chunk_codec iter_read iter_avail "\<lambda>_. True" "vmess_chunk C" "readChunk_data C iter_read"
    "vmess_in_sync C" "\<lambda>_. True" for C
  by unfold_locales (use iter.readChunk_data_chunk in blast)


section \<open>Whole streams\<close>

lemma vmess_chunk_eq:
  assumes "aead_correct C"
  shows "vmess_chunk C w p =
    (if 65535 < chunk_count w \<or> 65519 < length p then Inl RangeError
     else Inr (be_bytes 2 (length p + 16) @
            gcmSeal C (body_key w) (take 12 (be_bytes 2 (chunk_count w) @ take 10 (drop 2 (body_iv w)) @ replicate 12 0)) p [],
          w\<lparr>chunk_count := chunk_count w + 1\<rparr>))"
  by (auto simp: vmess_chunk_def chunkNonce_def u16_bytes_def Let_def gcmSeal_length[OF assms])

lemma vmess_enc_all:
  assumes "aead_correct C" "\<forall>p \<in> set ps. length p \<le> 65519" "chunk_count w \<le> 65536"
  shows "if chunk_count w + length ps \<le> 65536
     then \<exists>fs. enc_all (vmess_chunk C) w ps = (fs, Inr (w\<lparr>chunk_count := chunk_count w + length ps\<rparr>)) \<and> length fs = length ps
     else \<exists>fs. enc_all (vmess_chunk C) w ps = (fs, Inl RangeError) \<and> length fs = 65536 - chunk_count w"
  using assms(2,3)
proof (induction ps arbitrary: w)
  case (Cons p ps)
  show ?case
  proof (cases "chunk_count w = 65536")
    case True
    then show ?thesis by (simp add: vmess_chunk_eq[OF assms(1)])
  next
    case False
    define w1 where "w1 = w\<lparr>chunk_count := chunk_count w + 1\<rparr>"
    obtain f where f: "vmess_chunk C w p = Inr (f, w1)"
      using False Cons.prems by (simp add: vmess_chunk_eq[OF assms(1)] w1_def)
    have c: "chunk_count w1 = Suc (chunk_count w)" by (simp add: w1_def)
    have IH: "if chunk_count w1 + length ps \<le> 65536
     then \<exists>fs. enc_all (vmess_chunk C) w1 ps = (fs, Inr (w1\<lparr>chunk_count := chunk_count w1 + length ps\<rparr>)) \<and> length fs = length ps
     else \<exists>fs. enc_all (vmess_chunk C) w1 ps = (fs, Inl RangeError) \<and> length fs = 65536 - chunk_count w1"
      using Cons.IH[of w1] Cons.prems False c by simp
    show ?thesis
    proof (cases "chunk_count w1 + length ps \<le> 65536")
      case True
      then obtain fs where "enc_all (vmess_chunk C) w1 ps = (fs, Inr (w1\<lparr>chunk_count := chunk_count w1 + length ps\<rparr>))"
        "length fs = length ps" using IH by auto
      then show ?thesis using True f c by (simp add: w1_def)
    next
      case no: False
      then obtain fs where "enc_all (vmess_chunk C) w1 ps = (fs, Inl RangeError)"
        "length fs = 65536 - chunk_count w1" using IH by auto
      then show ?thesis using no f c False Cons.prems(2) by simp
    qed
  qed
qed simp

lemma vmess_slices_fit: "\<forall>p \<in> set (slices data). length p \<le> 65519"
  using slices_bounds[of _ data] by fastforce

lemma vmess_write_slices: "vmess_write C w data = enc_all (vmess_chunk C) w (slices data)"
  by (simp add: vmess_write_def)

context byte_source begin

lemma vmess_drain_dec_n:
  "dec_n (readChunk_data C rd) r s n = Inr (ps, r', s') \<Longrightarrow>
   vmess_drain C rd r s acc = vmess_drain C rd r' s' (acc @ ps)"
proof (induction n arbitrary: r s ps acc)
  case (Suc n)
  then obtain p r1 s1 ps' where e: "readChunk_data C rd r s = Inr (p, r1, s1)"
      and d: "dec_n (readChunk_data C rd) r1 s1 n = Inr (ps', r', s')" "ps = p # ps'"
    by (auto simp: bind_res_Inr_iff)
  have "readChunk C rd r s = Inr (Some p, r1, s1)"
    using e by (auto simp: readChunk_data_def bind_res_Inr_iff split: option.splits)
  then show ?case
    using Suc.IH[OF d(1), of "acc @ [p]"] d(2) by (simp add: vmess_drain.simps[of C rd r s])
qed simp

lemma vmess_drain_end:
  assumes "ok s" "avail s = vmess_end @ rest"
  shows "\<exists>s'. vmess_drain C rd r s acc = Some (Inr (acc, r, s')) \<and> avail s' = rest \<and> ok s'"
  using readChunk_end[OF assms, of C r] by (auto simp: vmess_drain.simps[of C rd r s])

lemma vmess_drain_returns:
  "ok s \<Longrightarrow> vmess_drain C rd r s acc \<noteq> None"
proof (induction "length (avail s)" arbitrary: s r acc rule: less_induct)
  case less
  show ?case
  proof (cases "readChunk C rd r s")
    case (Inr q)
    obtain p r' s' where q: "q = (p, r', s')" by (cases q)
    obtain h s1 where h: "rd s 2 = Inr (h, s1)"
      using Inr q by (auto simp: readChunk_def bind_res_Inr_iff)
    note s1 = rd_result[OF less.prems h]
    have "ok s' \<and> length (avail s') \<le> length (avail s1)" if "p \<noteq> None"
      using Inr q h s1 that rd_result[of s1]
      by (fastforce simp: readChunk_def bind_res_Inr_iff Let_def split: if_splits)
    then show ?thesis
      using Inr q less.hyps[of s' r'] s1 by (cases p) (auto simp: vmess_drain.simps[of C rd r s])
  qed (simp add: vmess_drain.simps[of C rd r s])
qed

end

section \<open>The two headers\<close>

text \<open>What a server does with the request header, given the key.\<close>

definition openVmessAeadHeader :: "crypto \<Rightarrow> bytes \<Rightarrow> bytes \<Rightarrow> error + bytes" where
  "openVmessAeadHeader C cmdKey header =
     (let authId = take 16 header; lengthSealed = take 18 (drop 16 header);
          connectionNonce = take 8 (drop 34 header); path = [latin1 authId, latin1 connectionNonce] in
      bind_res (gcmOpen C (kdf16 C cmdKey (''VMess Header AEAD Key_Length'' # path))
                  (kdf12 C cmdKey (''VMess Header AEAD Nonce_Length'' # path)) lengthSealed authId) (\<lambda>len.
      gcmOpen C (kdf16 C cmdKey (''VMess Header AEAD Key'' # path))
        (kdf12 C cmdKey (''VMess Header AEAD Nonce'' # path)) (take (be_nat len + 16) (drop 42 header)) authId))"

text \<open>And how it answers.\<close>

definition encodeVmessResponse :: "crypto \<Rightarrow> bytes \<Rightarrow> bytes \<Rightarrow> bytes \<Rightarrow> bytes" where
  "encodeVmessResponse C reqKey reqIV payload =
     (let respKey = take 16 (sha256 C reqKey); respIV = take 16 (sha256 C reqIV)
      in gcmSeal C (kdf16 C respKey [''AEAD Resp Header Len Key'']) (kdf12 C respIV [''AEAD Resp Header Len IV''])
           (be_bytes 2 (length payload)) []
         @ gcmSeal C (kdf16 C respKey [''AEAD Resp Header Key'']) (kdf12 C respIV [''AEAD Resp Header IV'']) payload [])"

definition ecb_correct :: "crypto \<Rightarrow> bool" where
  "ecb_correct C \<longleftrightarrow> (\<forall>k b. length b = 16 \<longrightarrow> length (aes_ecb C k b) = 16)"

lemma be_bytes_2: "be_bytes 2 n = [of_nat (n div 256), of_nat n]"
  by (simp add: numeral_2_eq_2)

lemma readUInt16BE_be_bytes: "n < 65536 \<Longrightarrow> readUInt16BE (be_bytes 2 n) 0 = Inr n"
proof -
  assume "n < 65536"
  then have "n div 256 < 256" by auto
  then show ?thesis by (simp add: readUInt16BE_def be_bytes_2 unsigned_of_nat take_bit_eq_mod)
qed

context byte_source begin

lemma decode_response:
  assumes "aead_correct C" "length payload < 65536" "ok s"
    "avail s = encodeVmessResponse C reqKey reqIV payload @ rest"
  shows "\<exists>s'. decodeVmessResponse C rd reqKey reqIV s
      = Inr ((payload, take 16 (sha256 C reqKey), take 16 (sha256 C reqIV)), s') \<and> avail s' = rest \<and> ok s'"
proof -
  let ?k = "take 16 (sha256 C reqKey)" and ?iv = "take 16 (sha256 C reqIV)"
  define l where "l = gcmSeal C (kdf16 C ?k [''AEAD Resp Header Len Key'']) (kdf12 C ?iv [''AEAD Resp Header Len IV''])
           (be_bytes 2 (length payload)) []"
  define p where "p = gcmSeal C (kdf16 C ?k [''AEAD Resp Header Key'']) (kdf12 C ?iv [''AEAD Resp Header IV'']) payload []"
  have a: "avail s = l @ p @ rest" using assms(4) by (simp add: encodeVmessResponse_def Let_def l_def p_def)
  obtain s1 where s1: "rd s 18 = Inr (l, s1)" "avail s1 = p @ rest" "ok s1"
    using rd_append[OF assms(3) a] by (auto simp: l_def gcmSeal_length[OF assms(1)])
  obtain s2 where s2: "rd s1 (length payload + 16) = Inr (p, s2)" "avail s2 = rest" "ok s2"
    using rd_append[OF s1(3,2)] by (auto simp: p_def gcmSeal_length[OF assms(1)])
  show ?thesis
    using s1(1) s2 by (simp add: decodeVmessResponse_def l_def p_def Let_def gcmOpen_gcmSeal[OF assms(1)]
        readUInt16BE_be_bytes[OF assms(2)])
qed

end


lemma vmess_body_reads:
  assumes "aead_correct C" "chunk_count w + length (slices data) \<le> 65536" "conn_ok c"
    "conn_avail c = concat (fst (vmess_write C w data)) @ vmess_end @ rest"
  shows "\<exists>r c'. vmess_drain C conn_read w c [] = Some (Inr (slices data, r, c'))
           \<and> concat (slices data) = data \<and> conn_avail c' = rest \<and> conn_ok c'"
proof -
  have "chunk_count w \<le> 65536" using assms(2) by simp
  then obtain fs w' where w: "enc_all (vmess_chunk C) w (slices data) = (fs, Inr w')"
    using vmess_enc_all[OF assms(1) vmess_slices_fit] assms(2) by (metis (no_types, lifting))
  have "vmess_in_sync C w w" using assms(1) by (simp add: vmess_in_sync_def)
  then obtain r c1 where r: "dec_n (readChunk_data C conn_read) w c (length (slices data)) = Inr (slices data, r, c1)"
      "conn_avail c1 = vmess_end @ rest" "conn_ok c1"
    using vmess_tcp.dec_n_enc_all[OF _ _ w assms(3), of w "vmess_end @ rest"] assms(4) w
    by (auto simp: vmess_write_slices)
  show ?thesis
    using conn.vmess_drain_dec_n[OF r(1), of "[]"] conn.vmess_drain_end[OF r(3,2), of C r "slices data"] by auto
qed

section \<open>Properties\<close>



text \<open>A write fails exactly when it would need the 65537th chunk of its connection: the chunk
  counter is written as 16 bits and never wraps, so the write throws after sending the chunks that
  still fit.\<close>

theorem vmess_write_limit:
  assumes "aead_correct C" "chunk_count w \<le> 65536"
  shows "(snd (vmess_write C w data) = Inl RangeError \<longleftrightarrow> 65536 < chunk_count w + length (slices data))
    \<and> length (fst (vmess_write C w data)) = min (length (slices data)) (65536 - chunk_count w)"
  using vmess_enc_all[OF assms(1) vmess_slices_fit assms(2), of data]
  by (auto simp: vmess_write_slices split: if_splits)

theorem vmess_write_limit_witness:
  "let w = \<lparr>body_key = [1], body_iv = replicate 16 2, chunk_count = 65536\<rparr> in
   (snd (vmess_write sum_crypto w [7]) = Inl RangeError \<longleftrightarrow> 65536 < chunk_count w + length (slices [7 :: byte]))
   \<and> length (fst (vmess_write sum_crypto w [7])) = min (length (slices [7 :: byte])) (65536 - chunk_count w)"
  unfolding Let_def by (rule vmess_write_limit) (simp_all add: sum_crypto_correct)

text \<open>A reader never waits for ever on a malformed body: at the end of the bytes it has returned the
  chunks or thrown.\<close>

theorem vmess_reader_returns:
  assumes "conn_ok c"
  shows "vmess_drain C conn_read r c acc \<noteq> None"
  using assms by (rule conn.vmess_drain_returns)

theorem vmess_reader_returns_witness:
  "vmess_drain sum_crypto conn_read \<lparr>body_key = [], body_iv = [], chunk_count = 0\<rparr>
     \<lparr>sb = new_sockbuf, arriving = [[0, 1, 5]]\<rparr> [] \<noteq> None"
  by (rule vmess_reader_returns) (simp add: conn_ok_def)

lemma sealed_header:
  assumes "aead_correct C" "ecb_correct C" "length rand = 4" "length nonce = 8"
    "sealVmessAeadHeader C cmdKey command now rand nonce = Inr header"
  shows "openVmessAeadHeader C cmdKey (header @ data) = Inr command \<and> length header = 58 + length command"
proof -
  let ?a = "createAuthId C cmdKey now rand"
  have a: "length ?a = 16"
    using assms(2,3) by (simp add: createAuthId_def ecb_correct_def Let_def u32_bytes_def)
  have n: "length command < 65536" using assms(5) by (simp add: sealVmessAeadHeader_def u16_bytes_def Let_def split: if_splits)
  let ?p = "[latin1 ?a, latin1 nonce]"
  define l where "l = gcmSeal C (kdf16 C cmdKey (''VMess Header AEAD Key_Length'' # ?p))
                  (kdf12 C cmdKey (''VMess Header AEAD Nonce_Length'' # ?p)) (be_bytes 2 (length command)) ?a"
  define q where "q = gcmSeal C (kdf16 C cmdKey (''VMess Header AEAD Key'' # ?p))
                  (kdf12 C cmdKey (''VMess Header AEAD Nonce'' # ?p)) command ?a"
  have h: "header = ?a @ l @ nonce @ q"
    using assms(5) n by (simp add: sealVmessAeadHeader_def u16_bytes_def Let_def l_def q_def)
  have len: "length l = 18" "length q = length command + 16"
    by (simp_all add: l_def q_def gcmSeal_length[OF assms(1)])
  have parts: "take 16 (header @ data) = ?a" "take 18 (drop 16 (header @ data)) = l"
     "take 8 (drop 34 (header @ data)) = nonce" "take (length command + 16) (drop 42 (header @ data)) = q"
    using a len assms(4) by (simp_all add: h)
  have "length header = 58 + length command" using a len assms(4) by (simp add: h)
  moreover have "openVmessAeadHeader C cmdKey (header @ data) = Inr command"
    unfolding openVmessAeadHeader_def Let_def parts(1-3)
    using n parts(4) by (simp add: l_def q_def gcmOpen_gcmSeal[OF assms(1)])
  ultimately show ?thesis by blast
qed

text \<open>The request header opens: a server that knows the key gets back the command, for any clock
  value, random prefix and connection nonce.\<close>

theorem vmess_header_opens:
  assumes "aead_correct C" "ecb_correct C" "length rand = 4" "length nonce = 8"
    "sealVmessAeadHeader C cmdKey command now rand nonce = Inr header"
  shows "openVmessAeadHeader C cmdKey header = Inr command"
  using sealed_header[OF assms, of "[]"] by simp

theorem vmess_header_opens_witness:
  "openVmessAeadHeader sum_crypto [9]
     (case sealVmessAeadHeader sum_crypto [9] [1, 2, 3] 1700000000 [1, 2, 3, 4] [1, 2, 3, 4, 5, 6, 7, 8] of Inr h \<Rightarrow> h)
   = Inr [1, 2, 3]"
proof -
  obtain h where h: "sealVmessAeadHeader sum_crypto [9] [1, 2, 3] 1700000000 [1, 2, 3, 4] [1, 2, 3, 4, 5, 6, 7, 8] = Inr h"
    by (simp add: sealVmessAeadHeader_def u16_bytes_def Let_def)
  moreover have "ecb_correct sum_crypto" by (simp add: ecb_correct_def sum_crypto_def)
  ultimately show ?thesis
    using vmess_header_opens[OF sum_crypto_correct(1) _ _ _ h] by simp
qed

lemma security_byte:
  assumes "n < 16"
  shows "drop_bit 4 (or (push_bit 4 (of_nat n)) 3 :: byte) = of_nat n \<and> and (or (push_bit 4 (of_nat n)) 3) 15 = (3 :: byte)"
proof -
  have "\<forall>n < 16. drop_bit 4 (or (push_bit 4 (of_nat n)) 3 :: byte) = of_nat n \<and> and (or (push_bit 4 (of_nat n)) 3) 15 = (3 :: byte)"
    by code_simp
  then show ?thesis using assms by blast
qed

text \<open>The command carries what the server needs where it looks for it: version, request IV and key,
  the echo byte, the chunk-stream option, padding length and cipher, the address with its padding, and a
  checksum over all of it.\<close>

theorem vmess_command_layout:
  assumes "buildVmessCommand reqKey reqIV echo host port padding = Inr cmd"
    "length reqKey = 16" "length reqIV = 16" "length padding < 16"
  shows "\<exists>addr. vmessEncodeAddr host port = Inr addr
     \<and> take 33 cmd = [1] @ reqIV @ reqKey \<and> take 2 (drop 33 cmd) = [echo, 1]
     \<and> drop_bit 4 (cmd ! 35) = of_nat (length padding) \<and> and (cmd ! 35) 15 = 3 \<and> take 2 (drop 36 cmd) = [0, 1]
     \<and> take (length cmd - 42) (drop 38 cmd) = addr @ padding
     \<and> drop (length cmd - 4) cmd = u32_bytes (fnv1a32 (take (length cmd - 4) cmd))"
proof -
  define sec where "sec = or (push_bit 4 (of_nat (length padding))) (3 :: byte)"
  obtain addr where addr: "vmessEncodeAddr host port = Inr addr"
    using assms(1) by (auto simp: buildVmessCommand_def bind_res_Inr_iff)
  define body where "body = [1] @ reqIV @ reqKey @ [echo] @ [1] @ [sec, 0, 1] @ addr @ padding"
  have cmd: "cmd = body @ u32_bytes (fnv1a32 body)"
    using assms(1) addr by (simp add: buildVmessCommand_def Let_def body_def sec_def)
  define pre sum where "pre = [1] @ reqIV @ reqKey" and "sum = u32_bytes (fnv1a32 body)"
  have len: "length pre = 33" "length sum = 4" by (simp_all add: pre_def sum_def assms(2,3) u32_bytes_def)
  have c: "cmd = pre @ [echo, 1] @ [sec] @ [0, 1] @ (addr @ padding) @ sum"
    by (simp add: cmd body_def pre_def sum_def)
  have "take 33 cmd = pre \<and> take 2 (drop 33 cmd) = [echo, 1] \<and> cmd ! 35 = sec \<and> take 2 (drop 36 cmd) = [0, 1]
      \<and> take (length cmd - 42) (drop 38 cmd) = addr @ padding"
    unfolding c using len by (simp add: nth_append)
  moreover have "take (length cmd - 4) cmd = body" "drop (length cmd - 4) cmd = sum"
    using len by (simp_all add: cmd sum_def[symmetric])
  ultimately show ?thesis
    using addr security_byte[OF assms(4), folded sec_def] by (simp add: pre_def sum_def)
qed

theorem vmess_command_layout_witness:
  "\<exists>cmd addr. buildVmessCommand (replicate 16 5) (replicate 16 6) 7 ''a.b'' (Fin 80 0) [1, 2] = Inr cmd
     \<and> vmessEncodeAddr ''a.b'' (Fin 80 0) = Inr addr
     \<and> take 33 cmd = [1] @ replicate 16 6 @ replicate 16 5 \<and> take 2 (drop 33 cmd) = [7, 1]
     \<and> drop_bit 4 (cmd ! 35) = of_nat (length [1, 2 :: byte]) \<and> and (cmd ! 35) 15 = 3 \<and> take 2 (drop 36 cmd) = [0, 1]
     \<and> take (length cmd - 42) (drop 38 cmd) = addr @ [1, 2]
     \<and> drop (length cmd - 4) cmd = u32_bytes (fnv1a32 (take (length cmd - 4) cmd))"
proof -
  have "vmessEncodeAddr ''a.b'' (Fin 80 0) = Inr (be16 (Fin 80 0) @ [2, of_nat (length (utf8 ''a.b''))] @ utf8 ''a.b'')"
    by (simp add: vmessEncodeAddr_def is_ip4_text_def)
  then obtain cmd where c: "buildVmessCommand (replicate 16 5) (replicate 16 6) 7 ''a.b'' (Fin 80 0) [1, 2] = Inr cmd"
    by (simp add: buildVmessCommand_def Let_def)
  show ?thesis using vmess_command_layout[OF c] c by auto
qed

text \<open>The response header a server sends under the request's key and IV is decoded to its payload,
  and the body that follows is left on the stream.\<close>

theorem vmess_response_roundtrip:
  assumes "aead_correct C" "length payload < 65536" "conn_ok c"
    "conn_avail c = encodeVmessResponse C reqKey reqIV payload @ rest"
  shows "\<exists>c'. decodeVmessResponse C conn_read reqKey reqIV c
      = Inr ((payload, take 16 (sha256 C reqKey), take 16 (sha256 C reqIV)), c') \<and> conn_avail c' = rest \<and> conn_ok c'"
  by (rule conn.decode_response) (rule assms)+

theorem vmess_response_roundtrip_witness:
  "\<exists>c'. decodeVmessResponse sum_crypto conn_read [1] [2]
       \<lparr>sb = new_sockbuf, arriving = [encodeVmessResponse sum_crypto [1] [2] [9, 0, 0, 0], [5]]\<rparr>
     = Inr (([9, 0, 0, 0], take 16 (sha256 sum_crypto [1]), take 16 (sha256 sum_crypto [2])), c')
     \<and> conn_avail c' = [5] \<and> conn_ok c'"
  by (rule vmess_response_roundtrip) (simp_all add: sum_crypto_correct conn_ok_def conn_avail_def)

end
