(* ===== verification/Transports.thy ===== *)
theory Transports
  imports Shadowsocks Vmess Ws
begin

text \<open>
  The other transports of \<open>lib/core/transports.js\<close> and the dispatch over node types: where a node is
  reached, the handshakes of \<open>httpConnect\<close> and \<open>socks5Connect\<close>, the requests of trojan and vless,
  the vless response header, the vmess session, and \<open>connectThrough\<close>. A handshake
  gives the bytes it wrote, in order, and the source behind it or the exception that ended it.
\<close>

section \<open>Reaching a node\<close>

text \<open>\<open>net.connect\<close> to host and port, or \<open>tls.connect\<close> with a server name and the skip-verify flag.\<close>

datatype endpoint = Tcp jsval jsval | Tls jsval jsval jsval bool

definition http_endpoint :: "jsval \<Rightarrow> endpoint" where
  "http_endpoint node =
     (if truthy (get_prop node ''tls'')
      then Tls (get_prop node ''server'') (get_prop node ''port'')
             (first_of [get_prop node ''sni'', get_prop node ''server'']) (truthy (get_prop node ''skip-cert-verify''))
      else Tcp (get_prop node ''server'') (get_prop node ''port''))"

definition trojan_endpoint :: "jsval \<Rightarrow> endpoint" where
  "trojan_endpoint node =
     Tls (get_prop node ''server'') (get_prop node ''port'')
       (first_of [get_prop node ''sni'', get_prop node ''server'']) (truthy (get_prop node ''skip-cert-verify''))"

definition vless_endpoint :: "jsval \<Rightarrow> endpoint" where
  "vless_endpoint node =
     (if get_prop node ''tls'' = JBool True \<or> get_prop node ''tls'' = JStr ''true''
      then Tls (get_prop node ''server'') (get_prop node ''port'')
             (first_of [get_prop node ''servername'', get_prop node ''sni'', get_prop node ''server''])
             (truthy (get_prop node ''skip-cert-verify''))
      else Tcp (get_prop node ''server'') (get_prop node ''port''))"

text \<open>The WebSocket options: path and Host header, when the network is ws.\<close>

definition ws_network :: "(jsnum \<Rightarrow> string) \<Rightarrow> jsval \<Rightarrow> bool" where
  "ws_network num_str node = (toLowerCase (string_or num_str (get_prop node ''network'') ''tcp'') = ''ws'')"

definition ws_path_host :: "(jsnum \<Rightarrow> string) \<Rightarrow> jsval \<Rightarrow> jsval list \<Rightarrow> string \<times> string" where
  "ws_path_host num_str node fallback =
     (let opts = get_prop node ''ws-opts'';
          headers = get_prop opts ''headers''
      in (string_or num_str (get_prop opts ''path'') ''/'',
          js_String num_str (first_of ([get_prop headers ''Host'', get_prop headers ''host''] @ fallback))))"

section \<open>HTTP upstream\<close>

definition base64_char :: "nat \<Rightarrow> char" where
  "base64_char n = ''ABCDEFGHIJKLMNOPQRSTUVWXYZabcdefghijklmnopqrstuvwxyz0123456789+/'' ! n"

fun base64 :: "bytes \<Rightarrow> string" where
  "base64 [] = []"
| "base64 [a] =
     (let n = unat a * 16 in [base64_char (n div 64), base64_char (n mod 64), CHR ''='', CHR ''=''])"
| "base64 [a, b] =
     (let n = (unat a * 256 + unat b) * 4
      in [base64_char (n div 4096), base64_char (n div 64 mod 64), base64_char (n mod 64), CHR ''=''])"
| "base64 (a # b # c # bs) =
     (let n = (unat a * 256 + unat b) * 256 + unat c
      in [base64_char (n div 262144), base64_char (n div 4096 mod 64), base64_char (n div 64 mod 64),
          base64_char (n mod 64)] @ base64 bs)"

text \<open>\<open>username !== undefined && username !== null && String(username).length > 0\<close>.\<close>

definition has_auth :: "(jsnum \<Rightarrow> string) \<Rightarrow> jsval \<Rightarrow> bool" where
  "has_auth num_str node \<longleftrightarrow>
     \<not> is_nullish (get_prop node ''username'') \<and> js_String num_str (get_prop node ''username'') \<noteq> []"

definition http_connect_request :: "(jsnum \<Rightarrow> string) \<Rightarrow> jsval \<Rightarrow> string \<Rightarrow> jsnum \<Rightarrow> string" where
  "http_connect_request num_str node host port =
     (let target = host @ '':'' @ num_str port;
          auth = (if has_auth num_str node
                  then ''Proxy-Authorization: Basic ''
                    @ base64 (utf8 (js_String num_str (get_prop node ''username'') @ '':''
                                    @ string_or num_str (get_prop node ''password'') '''')) @ crlf
                  else [])
      in ''CONNECT '' @ target @ '' HTTP/1.1'' @ crlf @ ''Host: '' @ target @ crlf @ auth @ crlf)"

text \<open>\<open>Number((head.split("\r\n")[0] ?? " 0").split(" ")[1] ?? 0)\<close>.\<close>

definition http_status :: "string \<Rightarrow> jsnum" where
  "http_status head =
     (case split_char (CHR '' '') (first_line head) of
        _ # s # _ \<Rightarrow> js_Number s
      | _ \<Rightarrow> Fin 0 0)"

definition status_refused :: "jsnum \<Rightarrow> bool" where
  "status_refused status \<longleftrightarrow>
     num_less status (Fin 200 0) \<or> num_less (Fin 300 0) status \<or> num_eq status (Fin 300 0)"

definition httpConnect ::
  "('s \<Rightarrow> nat \<Rightarrow> error + bytes \<times> 's) \<Rightarrow> (jsnum \<Rightarrow> string) \<Rightarrow> jsval \<Rightarrow> string \<Rightarrow> jsnum \<Rightarrow> 's
     \<Rightarrow> (bytes list \<times> (error + 's)) option" where
  "httpConnect rd num_str node host port s =
     (let w = [utf8 (http_connect_request num_str node host port)] in
      case readUntilCrlfCrlf rd s of
        None \<Rightarrow> None
      | Some (Inl e) \<Rightarrow> Some (w, Inl e)
      | Some (Inr (head, s')) \<Rightarrow>
          (if status_refused (http_status head)
           then Some (w, Inl (Error (''http upstream CONNECT failed: '' @ first_line head)))
           else Some (w, Inr s')))"

section \<open>SOCKS5 upstream\<close>

definition socks5_greeting :: "bool \<Rightarrow> bytes" where
  "socks5_greeting hasAuth = [0x05, (if hasAuth then 2 else 1), 0x00] @ (if hasAuth then [0x02] else [])"

definition socks5_credentials :: "(jsnum \<Rightarrow> string) \<Rightarrow> jsval \<Rightarrow> bytes" where
  "socks5_credentials num_str node =
     (let user = utf8 (js_String num_str (get_prop node ''username''));
          pass = utf8 (string_or num_str (get_prop node ''password'') '''')
      in [0x01, of_nat (length user)] @ user @ [of_nat (length pass)] @ pass)"

definition socks5_auth ::
  "('s \<Rightarrow> nat \<Rightarrow> error + bytes \<times> 's) \<Rightarrow> (jsnum \<Rightarrow> string) \<Rightarrow> jsval \<Rightarrow> byte \<Rightarrow> 's \<Rightarrow> bytes list \<times> (error + 's)" where
  "socks5_auth rd num_str node method s =
     (if method = 0x02 then
        ([socks5_credentials num_str node],
         bind_res (rd s 2) (\<lambda>(authReply, s').
           if authReply ! 1 \<noteq> 0 then Inl (Error ''socks5 upstream auth failed'') else Inr s'))
      else if method \<noteq> 0x00 then ([], Inl (Error ''socks5 upstream: no acceptable auth method''))
      else ([], Inr s))"

text \<open>The reply to the request: four bytes, then the bound address by its type.\<close>

definition socks5_reply ::
  "('s \<Rightarrow> nat \<Rightarrow> error + bytes \<times> 's) \<Rightarrow> 's \<Rightarrow> error + 's" where
  "socks5_reply rd s =
     bind_res (rd s 4) (\<lambda>(reply, s1).
       if reply ! 1 \<noteq> 0
       then Inl (Error (''socks5 upstream connect failed: code '' @ show_nat (unat (reply ! 1))))
       else
         (let restLength = (if reply ! 3 = 0x01 then 6 else if reply ! 3 = 0x04 then 18 else 0 :: nat) in
          if restLength = 0 \<and> reply ! 3 = 0x03 then
            bind_res (rd s1 1) (\<lambda>(len, s2). bind_res (rd s2 (unat (len ! 0) + 2)) (\<lambda>(_, s3). Inr s3))
          else if restLength > 0 then bind_res (rd s1 restLength) (\<lambda>(_, s2). Inr s2)
          else Inr s1))"

definition socks5Connect ::
  "('s \<Rightarrow> nat \<Rightarrow> error + bytes \<times> 's) \<Rightarrow> (jsnum \<Rightarrow> string) \<Rightarrow> jsval \<Rightarrow> string \<Rightarrow> jsnum \<Rightarrow> 's
     \<Rightarrow> bytes list \<times> (error + 's)" where
  "socks5Connect rd num_str node host port s =
     (let w1 = [socks5_greeting (has_auth num_str node)] in
      case rd s 2 of
        Inl e \<Rightarrow> (w1, Inl e)
      | Inr (greeting, s1) \<Rightarrow>
          (case socks5_auth rd num_str node (greeting ! 1) s1 of
             (w2, Inl e) \<Rightarrow> (w1 @ w2, Inl e)
           | (w2, Inr s2) \<Rightarrow>
               (w1 @ w2 @ [[0x05, 0x01, 0x00] @ encodeAddr host port], socks5_reply rd s2)))"

section \<open>trojan and vless\<close>

definition hex_digit :: "nat \<Rightarrow> char" where
  "hex_digit n = ''0123456789abcdef'' ! n"

definition hex_of :: "bytes \<Rightarrow> string" where
  "hex_of bs = concat (map (\<lambda>b. [hex_digit (unat b div 16), hex_digit (unat b mod 16)]) bs)"

definition trojan_request :: "crypto \<Rightarrow> (jsnum \<Rightarrow> string) \<Rightarrow> jsval \<Rightarrow> string \<Rightarrow> jsnum \<Rightarrow> bytes" where
  "trojan_request C num_str node host port =
     utf8 (hex_of (sha224 C (utf8 (string_or num_str (get_prop node ''password'') ''''))))
     @ [13, 10] @ [0x01] @ encodeAddr host port @ [13, 10]"

text \<open>\<open>uuidBytes\<close>: dashes removed, then exactly 32 hexadecimal digits.\<close>

definition is_hex_char :: "char \<Rightarrow> bool" where
  "is_hex_char c \<longleftrightarrow>
     (let n = code_unit c in 48 \<le> n \<and> n \<le> 57 \<or> 65 \<le> n \<and> n \<le> 70 \<or> 97 \<le> n \<and> n \<le> 102)"

definition nibble_of :: "char \<Rightarrow> nat" where
  "nibble_of c =
     (let n = code_unit c in if n \<le> 57 then n - 48 else if n \<le> 70 then n - 55 else n - 87)"

fun unhex :: "string \<Rightarrow> bytes" where
  "unhex (a # b # cs) = of_nat (nibble_of a * 16 + nibble_of b) # unhex cs"
| "unhex _ = []"

definition uuidBytes :: "(jsnum \<Rightarrow> string) \<Rightarrow> jsval \<Rightarrow> error + bytes" where
  "uuidBytes num_str uuid =
     (let hex = filter (\<lambda>c. c \<noteq> CHR ''-'') (string_or num_str uuid '''') in
      if length hex = 32 \<and> list_all is_hex_char hex then Inr (unhex hex)
      else Inl (Error ''vless: invalid uuid''))"

text \<open>\<open>vlessConnect\<close> up to its request; \<open>reality\<close> is refused before anything is connected.\<close>

definition needs_reality :: "jsval \<Rightarrow> bool" where
  "needs_reality node = (\<not> is_nullish (get_prop node ''reality-opts''))"

definition vless_request ::
  "(jsnum \<Rightarrow> string) \<Rightarrow> jsval \<Rightarrow> string \<Rightarrow> jsnum \<Rightarrow> error + bytes" where
  "vless_request num_str node host port =
     (if toLowerCase (string_or num_str (get_prop node ''flow'') '''') = ''xtls-rprx-vision'' \<or> needs_reality node
      then Inl (Error ''vless: reality (xtls-rprx-vision + reality-opts) needs uTLS fingerprinting that Node cannot provide'')
      else bind_res (uuidBytes num_str (get_prop node ''uuid'')) (\<lambda>uuid.
           bind_res (vmessEncodeAddr host port) (\<lambda>addr.
             Inr ([0x00] @ uuid @ [0x00] @ [0x01] @ addr))))"

text \<open>\<open>stripHeader\<close>, done once before the first chunk is yielded.\<close>

definition vless_stripHeader :: "itersource \<Rightarrow> error + itersource" where
  "vless_stripHeader s =
     bind_res (iter_read s 1) (\<lambda>(v, s1).
       if v ! 0 \<noteq> 0
       then Inl (Error (''vless: unexpected response version '' @ show_nat (unat (v ! 0))))
       else bind_res (iter_read s1 1) (\<lambda>(n, s2).
              if n ! 0 \<noteq> 0 then bind_res (iter_read s2 (unat (n ! 0))) (\<lambda>(_, s3). Inr s3)
              else Inr s2))"

text \<open>The loop over \<open>readAny\<close> that follows: every chunk until the source is done.\<close>

function iter_drain :: "itersource \<Rightarrow> bytes list" where
  "iter_drain s =
     (case iter_readAny s of
        (None, s') \<Rightarrow> []
      | (Some c, s') \<Rightarrow> c # iter_drain s')"
  by pat_completeness auto
termination
  by (relation "measure (\<lambda>s. length (chunks s) + (if pending s = [] then 0 else 1))")
     (auto simp: iter_readAny_def split: if_splits list.splits)

declare iter_drain.simps [simp del]

definition vless_read :: "itersource \<Rightarrow> error + bytes list" where
  "vless_read s = bind_res (vless_stripHeader s) (\<lambda>s'. Inr (iter_drain s'))"

section \<open>vmess session\<close>

record vmess_session =
  req_key :: bytes
  req_iv :: bytes
  echo :: byte
  writer :: vmess_body

definition vmess_cmd_key :: "crypto \<Rightarrow> bytes \<Rightarrow> bytes" where
  "vmess_cmd_key C uuid = md5 C (uuid @ utf8 ''c48619fe-8f02-49e0-b9e9-edf763e17e21'')"

text \<open>
  \<open>vmessConnect\<close> up to the header it writes; the draws are the key, the IV, the echo byte, the
  padding, the clock, the auth id's prefix and the connection nonce.
\<close>

record draws =
  d_key :: bytes
  d_iv :: bytes
  d_echo :: byte
  d_padding :: bytes
  d_now :: nat
  d_rand :: bytes
  d_nonce :: bytes

definition vmessConnect ::
  "crypto \<Rightarrow> (jsnum \<Rightarrow> string) \<Rightarrow> jsval \<Rightarrow> string \<Rightarrow> jsnum \<Rightarrow> draws \<Rightarrow> error + bytes \<times> vmess_session" where
  "vmessConnect C num_str node host port d =
     bind_res (uuidBytes num_str (get_prop node ''uuid'')) (\<lambda>uuid.
     bind_res (buildVmessCommand (d_key d) (d_iv d) (d_echo d) host port (d_padding d)) (\<lambda>command.
     bind_res (sealVmessAeadHeader C (vmess_cmd_key C uuid) command (d_now d) (d_rand d) (d_nonce d)) (\<lambda>header.
       Inr (header, \<lparr>req_key = d_key d, req_iv = d_iv d, echo = d_echo d,
                     writer = \<lparr>body_key = d_key d, body_iv = d_iv d, chunk_count = 0\<rparr>\<rparr>))))"

text \<open>The generator \<open>read\<close>: the response header, its echo byte, then the body.\<close>

definition vmess_read ::
  "crypto \<Rightarrow> ('s \<Rightarrow> nat \<Rightarrow> error + bytes \<times> 's) \<Rightarrow> vmess_session \<Rightarrow> 's
     \<Rightarrow> (error + bytes list \<times> vmess_body \<times> 's) option" where
  "vmess_read C rd v s =
     (case decodeVmessResponse C rd (req_key v) (req_iv v) s of
        Inl e \<Rightarrow> Some (Inl e)
      | Inr ((resp, bodyKey, bodyIV), s') \<Rightarrow>
          (if resp = [] \<or> resp ! 0 \<noteq> echo v then Some (Inl (Error ''vmess: response header V mismatch''))
           else vmess_drain C rd \<lparr>body_key = bodyKey, body_iv = bodyIV, chunk_count = 0\<rparr> s' []))"

section \<open>connectThrough\<close>

datatype route = Direct | Http | Socks5 | Ss | Trojan | Vless | VmessR | Native string

definition connect_route :: "(jsnum \<Rightarrow> string) \<Rightarrow> bool \<Rightarrow> jsval \<Rightarrow> error + route" where
  "connect_route num_str hasNativeConnector node =
     (let type = get_prop node ''type''; t = toLowerCase (js_String num_str type) in
      if is_nullish node \<or> type = JStr ''direct'' \<or> type = JStr ''Direct'' then Inr Direct
      else if t = ''http'' then Inr Http
      else if t = ''socks5'' \<or> t = ''socks'' then Inr Socks5
      else if t = ''ss'' then Inr Ss
      else if t = ''trojan'' then Inr Trojan
      else if t = ''vless'' then
        (if toLowerCase (string_or num_str (get_prop node ''flow'') '''') = ''xtls-rprx-vision'' \<and> needs_reality node
         then (if hasNativeConnector then Inr (Native ''reality'')
               else Inl (Error ''vless reality needs the native connector (lib/native/connector.exe)''))
         else Inr Vless)
      else if t = ''vmess'' then Inr VmessR
      else if t = ''hysteria2'' \<or> t = ''hy2'' then
        (if hasNativeConnector then Inr (Native ''hysteria2'')
         else Inl (Error ''hysteria2 needs the native connector (lib/native/connector.exe)''))
      else if t = ''tuic'' then Inl (Error (''unsupported node type '' @ [CHR 0x22] @ ''tuic'' @ [CHR 0x22]))
      else Inl (Error (''unsupported node type '' @ [CHR 0x22] @ js_String num_str type @ [CHR 0x22]
                 @ '' (supported: http, socks5, ss, trojan, vless, vmess, hysteria2)'')))"


section \<open>Handshakes\<close>

text \<open>A reply's bound address by its type: IPv4, IPv6 or a name, each with its port.\<close>

definition bound_address :: "byte \<Rightarrow> bytes \<Rightarrow> bool" where
  "bound_address atyp bs \<longleftrightarrow>
     atyp = 1 \<and> length bs = 6 \<or> atyp = 4 \<and> length bs = 18
     \<or> atyp = 3 \<and> bs \<noteq> [] \<and> length bs = unat (hd bs) + 3"

context byte_source begin

lemma socks5_reply_ok:
  assumes "ok s" "avail s = [ver, 0, rsv, atyp] @ bs @ rest" "bound_address atyp bs"
  shows "\<exists>s'. socks5_reply rd s = Inr s' \<and> avail s' = rest \<and> ok s'"
proof -
  obtain s1 where s1: "rd s 4 = Inr ([ver, 0, rsv, atyp], s1)" "avail s1 = bs @ rest" "ok s1"
    using rd_append[OF assms(1,2), of 4] by auto
  consider "atyp = 1" "length bs = 6" | "atyp = 4" "length bs = 18"
    | n bs' where "atyp = 3" "bs = n # bs'" "length bs' = unat n + 2"
    using assms(3) by (cases bs) (auto simp: bound_address_def)
  then show ?thesis
  proof cases
    case 1
    then show ?thesis using s1(1) rd_append[OF s1(3,2), of 6] by (auto simp: socks5_reply_def)
  next
    case 2
    then show ?thesis using s1(1) rd_append[OF s1(3,2), of 18] by (auto simp: socks5_reply_def)
  next
    case 3
    obtain s2 where s2: "rd s1 1 = Inr ([n], s2)" "avail s2 = bs' @ rest" "ok s2"
      using rd_append[OF s1(3), of "[n]" "bs' @ rest" 1] s1(2) 3 by auto
    obtain s3 where "rd s2 (length bs') = Inr (bs', s3)" "avail s3 = rest" "ok s3"
      using rd_append[OF s2(3,2)] by auto
    then show ?thesis using s1(1) s2(1) 3 by (auto simp: socks5_reply_def)
  qed
qed

lemma socks5_auth_ok:
  assumes "ok s" "avail s = (if m = 2 then [1, 0] else []) @ rest" "m = 0 \<or> m = 2"
  shows "\<exists>s'. socks5_auth rd num_str node m s
      = ((if m = 2 then [socks5_credentials num_str node] else []), Inr s') \<and> avail s' = rest \<and> ok s'"
proof (cases "m = 2")
  case True
  obtain s' where "rd s 2 = Inr ([1, 0], s')" "avail s' = rest" "ok s'"
    using rd_append[OF assms(1), of "[1, 0]" rest 2] assms(2) True by auto
  then show ?thesis using True by (simp add: socks5_auth_def)
next
  case False
  then show ?thesis using assms by (simp add: socks5_auth_def)
qed

lemma socks5_connect_ok:
  assumes "ok s" "m = 0 \<or> m = 2" "bound_address atyp bs"
    "avail s = [5, m] @ (if m = 2 then [1, 0] else []) @ [5, 0, 0, atyp] @ bs @ rest"
  shows "\<exists>s'. socks5Connect rd num_str node host port s
      = ([socks5_greeting (has_auth num_str node)] @ (if m = 2 then [socks5_credentials num_str node] else [])
           @ [[5, 1, 0] @ encodeAddr host port], Inr s') \<and> avail s' = rest \<and> ok s'"
proof -
  obtain s1 where s1: "rd s 2 = Inr ([5, m], s1)"
      "avail s1 = (if m = 2 then [1, 0] else []) @ ([5, 0, 0, atyp] @ bs @ rest)" "ok s1"
    using rd_append[OF assms(1,4), of 2] by auto
  obtain s2 where s2: "socks5_auth rd num_str node m s1
      = ((if m = 2 then [socks5_credentials num_str node] else []), Inr s2)"
      "avail s2 = [5, 0, 0, atyp] @ bs @ rest" "ok s2"
    using socks5_auth_ok[OF s1(3,2) assms(2)] by blast
  obtain s3 where "socks5_reply rd s2 = Inr s3" "avail s3 = rest" "ok s3"
    using socks5_reply_ok[OF s2(3,2) assms(3)] by blast
  then show ?thesis using s1(1) s2(1) by (simp add: socks5Connect_def Let_def)
qed

end

section \<open>The vless response\<close>

lemma iter_readAny_avail:
  "iter_readAny s = (r, s') \<Longrightarrow> iter_avail s = (case r of None \<Rightarrow> [] | Some c \<Rightarrow> c @ iter_avail s')"
  by (auto simp: iter_readAny_def iter_avail_def split: if_splits list.splits)

lemma concat_iter_drain: "concat (iter_drain s) = iter_avail s"
proof (induction s rule: iter_drain.induct)
  case (1 s)
  obtain r s' where r: "iter_readAny s = (r, s')" by force
  show ?case
    using 1[OF r[symmetric]] iter_readAny_avail[OF r]
    by (cases r) (simp_all add: iter_drain.simps[of s] r)
qed

lemma vless_strip_ok:
  assumes "iter_avail s = [0, n] @ addons @ payload" "length addons = unat n"
  shows "\<exists>s'. vless_stripHeader s = Inr s' \<and> iter_avail s' = payload"
proof -
  obtain s1 where s1: "iter_read s 1 = Inr ([0], s1)" "iter_avail s1 = [n] @ addons @ payload"
    using iter.rd_append[of s "[0]" "[n] @ addons @ payload" 1] assms(1) by auto
  obtain s2 where s2: "iter_read s1 1 = Inr ([n], s2)" "iter_avail s2 = addons @ payload"
    using iter.rd_append[OF _ s1(2), of 1] by auto
  obtain s3 where s3: "iter_read s2 (unat n) = Inr (addons, s3)" "iter_avail s3 = payload"
    using iter.rd_append[OF _ s2(2) assms(2)] by auto
  have "n = 0 \<Longrightarrow> addons = []" using assms(2) by simp
  then show ?thesis
    using s1(1) s2 s3 by (cases "n = 0") (auto simp: vless_stripHeader_def)
qed

section \<open>Properties\<close>

text \<open>C25. Against a server that follows RFC 1928, with or without the password method and with any kind of
  bound address, the client sends greeting, credentials when asked for, and the request for the target,
  and then stands exactly at the first byte of the tunnel.\<close>

theorem socks5_upstream_handshake:
  assumes "conn_ok c" "m = 0 \<or> m = 2" "bound_address atyp bs"
    "conn_avail c = [5, m] @ (if m = 2 then [1, 0] else []) @ [5, 0, 0, atyp] @ bs @ rest"
  shows "\<exists>c'. socks5Connect conn_read num_str node host port c
      = ([socks5_greeting (has_auth num_str node)] @ (if m = 2 then [socks5_credentials num_str node] else [])
           @ [[5, 1, 0] @ encodeAddr host port], Inr c') \<and> conn_avail c' = rest \<and> conn_ok c'"
  by (rule conn.socks5_connect_ok[OF assms])

theorem socks5_upstream_handshake_witness:
  "\<exists>c'. socks5Connect conn_read (\<lambda>n. []) (JObj []) ''a.b'' (Fin 80 0)
      \<lparr>sb = new_sockbuf, arriving = [[5], [0, 5, 0, 0, 3, 1], [7, 0, 80, 9]]\<rparr>
      = ([socks5_greeting (has_auth (\<lambda>n. []) (JObj []))] @ (if (0 :: byte) = 2 then [socks5_credentials (\<lambda>n. []) (JObj [])] else [])
           @ [[5, 1, 0] @ encodeAddr ''a.b'' (Fin 80 0)], Inr c') \<and> conn_avail c' = [9] \<and> conn_ok c'"
  by (rule socks5_upstream_handshake[where atyp = 3 and bs = "[1, 7, 0, 80]"])
     (simp_all add: conn_ok_def conn_avail_def bound_address_def)

text \<open>The vless response header is stripped exactly: whatever the chunks and the addons, what the
  relay sees is the payload.\<close>

theorem vless_header_stripped:
  assumes "concat cs = [0, n] @ addons @ payload" "length addons = unat n"
  shows "\<exists>out. vless_read \<lparr>pending = [], chunks = cs\<rparr> = Inr out \<and> concat out = payload"
proof -
  have "iter_avail \<lparr>pending = [], chunks = cs\<rparr> = [0, n] @ addons @ payload"
    using assms(1) by (simp add: iter_avail_def)
  then obtain s where "vless_stripHeader \<lparr>pending = [], chunks = cs\<rparr> = Inr s" "iter_avail s = payload"
    using vless_strip_ok assms(2) by blast
  then show ?thesis by (simp add: vless_read_def concat_iter_drain)
qed

theorem vless_header_stripped_witness:
  "\<exists>out. vless_read \<lparr>pending = [], chunks = [[0], [2, 9], [9, 1], [2]]\<rparr> = Inr out \<and> concat out = [1, 2]"
  by (rule vless_header_stripped[where n = 2 and addons = "[9, 9]"]) simp_all

text \<open>An HTTP upstream's answer is accepted unless its status is a number outside 200..299: a status
  that is not a number at all, like \<open>HTTP/1.1 OK\<close>, also counts as success.\<close>

theorem http_upstream_accepts:
  assumes "readUntilCrlfCrlf conn_read c = Some (Inr (head, c'))"
    "split_char (CHR '' '') (first_line head) = version # status # words"
  shows "snd (the (httpConnect conn_read num_str node host port c)) = Inr c' \<longleftrightarrow>
     js_Number status = NaN
     \<or> \<not> num_less (js_Number status) (Fin 200 0) \<and> num_less (js_Number status) (Fin 300 0)"
proof -
  have *: "status_refused v \<longleftrightarrow> \<not> (v = NaN \<or> \<not> num_less v (Fin 200 0) \<and> num_less v (Fin 300 0))" for v
    by (cases v) (auto simp: status_refused_def)
  show ?thesis using assms by (simp add: httpConnect_def http_status_def Let_def *)
qed

theorem http_upstream_accepts_witness:
  "let c = \<lparr>sb = new_sockbuf, arriving = [[72, 32, 79, 13, 10, 13, 10]]\<rparr> in
   \<exists>c'. snd (the (httpConnect conn_read (\<lambda>n. []) (JObj []) ''a.b'' (Fin 80 0) c)) = Inr c' \<and> js_Number ''O'' = NaN"
proof -
  let ?c = "\<lparr>sb = new_sockbuf, arriving = [[72, 32, 79, 13, 10, 13, 10]]\<rparr>"
  have "latin1 [72, 32, 79] = ''H O''" by code_simp
  moreover have "\<forall>k < length [72, 32, 79] + 4. \<not> endsWith (latin1 (take k ([72, 32, 79] @ [13, 10, 13, 10]))) crlf2"
    by code_simp
  ultimately obtain c' where "readUntilCrlfCrlf conn_read ?c = Some (Inr (''H O'', c'))"
    using conn.header_block[of ?c "[72, 32, 79]" "[]"] by (auto simp: conn_ok_def conn_avail_def)
  moreover have "split_char (CHR '' '') (first_line ''H O'') = [''H'', ''O'']" by code_simp
  moreover have "js_Number ''O'' = NaN" by code_simp
  ultimately show ?thesis using http_upstream_accepts[of ?c "''H O''" c' "''H''" "''O''" "[]"] by (auto simp: Let_def)
qed

section \<open>Identifiers\<close>

text \<open>The usual spelling of a uuid: hexadecimal digits in groups of 4, 2, 2, 2 and 6 bytes.\<close>

definition show_uuid :: "bytes \<Rightarrow> string" where
  "show_uuid bs =
     join ''-'' [hex_of (take 4 bs), hex_of (take 2 (drop 4 bs)), hex_of (take 2 (drop 6 bs)),
                 hex_of (take 2 (drop 8 bs)), hex_of (drop 10 bs)]"

lemma hex_digit_facts:
  assumes "n < 16"
  shows "is_hex_char (hex_digit n)" "nibble_of (hex_digit n) = n" "hex_digit n \<noteq> CHR ''-''"
proof -
  have "\<forall>n < 16. is_hex_char (hex_digit n) \<and> nibble_of (hex_digit n) = n \<and> hex_digit n \<noteq> CHR ''-''"
    by code_simp
  then show "is_hex_char (hex_digit n)" "nibble_of (hex_digit n) = n" "hex_digit n \<noteq> CHR ''-''"
    using assms by auto
qed

lemma nibbles_less: "unat (b :: byte) div 16 < 16" "unat (b :: byte) mod 16 < 16"
  using byte_less[of b] by auto

lemma hex_of_append: "hex_of (xs @ ys) = hex_of xs @ hex_of ys"
  by (simp add: hex_of_def)

lemma hex_of_facts:
  "length (hex_of bs) = 2 * length bs" "list_all is_hex_char (hex_of bs)" "unhex (hex_of bs) = bs"
  "filter (\<lambda>c. c \<noteq> CHR ''-'') (hex_of bs) = hex_of bs"
  by (induction bs) (simp_all add: hex_of_def hex_digit_facts nibbles_less)

text \<open>A uuid in its usual spelling is read as its 16 bytes; the dashes do not matter.\<close>

theorem uuid_roundtrip:
  assumes "length bs = 16"
  shows "uuidBytes num_str (JStr (show_uuid bs)) = Inr bs"
proof -
  have "take 4 bs @ take 2 (drop 4 bs) @ take 2 (drop 6 bs) @ take 2 (drop 8 bs) @ drop 10 bs = bs"
    using assms by (simp add: list_eq_iff_nth_eq nth_append less_diff_conv)
  then have "filter (\<lambda>c. c \<noteq> CHR ''-'') (show_uuid bs) = hex_of bs"
    by (simp add: show_uuid_def hex_of_facts flip: hex_of_append)
  then show ?thesis using assms by (simp add: uuidBytes_def hex_of_facts)
qed

theorem uuid_roundtrip_witness:
  "uuidBytes (\<lambda>n. []) (JStr (show_uuid [0, 1, 2, 3, 4, 5, 6, 7, 8, 9, 10, 11, 12, 13, 14, 255]))
   = Inr [0, 1, 2, 3, 4, 5, 6, 7, 8, 9, 10, 11, 12, 13, 14, 255]"
  by (rule uuid_roundtrip) simp

section \<open>A vmess session\<close>

text \<open>A vmess connection end to end: a server that answers with the echo byte of the command and sends
  its body in chunks under the response key and IV is read as exactly its data; one that answers with any
  other first byte is refused.\<close>

theorem vmess_session_reads_server:
  assumes "aead_correct C" "vmessConnect C num_str node host port d = Inr (header, v)"
    "length (slices data) \<le> 65536" "conn_ok c" "length extra < 65535"
    "conn_avail c = encodeVmessResponse C (d_key d) (d_iv d) (b # extra)
       @ concat (fst (vmess_write C \<lparr>body_key = take 16 (sha256 C (d_key d)), body_iv = take 16 (sha256 C (d_iv d)), chunk_count = 0\<rparr> data))
       @ vmess_end @ rest"
  shows "if b = d_echo d
     then \<exists>r c'. vmess_read C conn_read v c = Some (Inr (slices data, r, c')) \<and> concat (slices data) = data \<and> conn_avail c' = rest
     else vmess_read C conn_read v c = Some (Inl (Error ''vmess: response header V mismatch''))"
proof -
  let ?w = "\<lparr>body_key = take 16 (sha256 C (d_key d)), body_iv = take 16 (sha256 C (d_iv d)), chunk_count = 0\<rparr>"
  have v: "req_key v = d_key d" "req_iv v = d_iv d" "echo v = d_echo d"
    using assms(2) by (auto simp: vmessConnect_def bind_res_Inr_iff)
  obtain c1 where c1: "decodeVmessResponse C conn_read (d_key d) (d_iv d) c
      = Inr ((b # extra, take 16 (sha256 C (d_key d)), take 16 (sha256 C (d_iv d))), c1)"
      "conn_avail c1 = concat (fst (vmess_write C ?w data)) @ vmess_end @ rest" "conn_ok c1"
    using conn.decode_response[OF assms(1) _ assms(4,6)] assms(5) by auto
  show ?thesis
    using vmess_body_reads[of C ?w data c1 rest] assms(1,3) c1 v by (auto simp: vmess_read_def)
qed


lemma vmessConnect_total:
  assumes "uuidBytes num_str (get_prop node ''uuid'') = Inr u" "vmessEncodeAddr host port = Inr addr"
    "length (d_iv d) + length (d_key d) + length addr + length (d_padding d) < 60000"
  shows "\<exists>header v. vmessConnect C num_str node host port d = Inr (header, v)"
  using assms
  by (auto simp: vmessConnect_def buildVmessCommand_def sealVmessAeadHeader_def u16_bytes_def Let_def u32_bytes_def
      bind_res_def split: sum.splits)

theorem vmess_session_reads_server_witness:
  "let d = \<lparr>d_key = [1, 2], d_iv = [3], d_echo = 77, d_padding = [], d_now = 5, d_rand = [], d_nonce = []\<rparr>;
       w = \<lparr>body_key = take 16 (sha256 sum_crypto (d_key d)), body_iv = take 16 (sha256 sum_crypto (d_iv d)), chunk_count = 0\<rparr>;
       c = \<lparr>sb = new_sockbuf, arriving = [encodeVmessResponse sum_crypto (d_key d) (d_iv d) (77 # [0, 0, 0]),
              concat (fst (vmess_write sum_crypto w [4, 5])), vmess_end]\<rparr>
   in \<exists>header v r c'. vmessConnect sum_crypto (\<lambda>n. []) (JObj [(''uuid'', JStr (replicate 32 (CHR ''a'')))]) ''a.b'' (Fin 80 0) d
         = Inr (header, v)
      \<and> vmess_read sum_crypto conn_read v c = Some (Inr (slices [4, 5], r, c'))"
proof -
  define d where "d = \<lparr>d_key = [1, 2], d_iv = [3], d_echo = 77, d_padding = [], d_now = 5, d_rand = [], d_nonce = []\<rparr>"
  let ?node = "JObj [(''uuid'', JStr (replicate 32 (CHR ''a'')))]"
  define w where "w = \<lparr>body_key = take 16 (sha256 sum_crypto (d_key d)), body_iv = take 16 (sha256 sum_crypto (d_iv d)), chunk_count = 0\<rparr>"
  define c where "c = \<lparr>sb = new_sockbuf, arriving = [encodeVmessResponse sum_crypto (d_key d) (d_iv d) (77 # [0, 0, 0]),
              concat (fst (vmess_write sum_crypto w [4, 5])), vmess_end]\<rparr>"
  have u: "uuidBytes (\<lambda>n. []) (get_prop ?node ''uuid'') = Inr (unhex (replicate 32 (CHR ''a'')))"
    by (simp add: uuidBytes_def is_hex_char_def code_unit_def list_all_iff)
  have a: "vmessEncodeAddr ''a.b'' (Fin 80 0) = Inr (be16 (Fin 80 0) @ [2, of_nat (length (utf8 ''a.b''))] @ utf8 ''a.b'')"
    by (simp add: vmessEncodeAddr_def is_ip4_text_def)
  have l: "length (utf8 ''a.b'') = 3" by (simp add: utf8_def utf8_char_def code_unit_def)
  obtain header v where v: "vmessConnect sum_crypto (\<lambda>n. []) ?node ''a.b'' (Fin 80 0) d = Inr (header, v)"
    using vmessConnect_total[OF u a, of d sum_crypto] by (auto simp: d_def l)
  have e: "d_echo d = 77" "length (slices [4, 5 :: byte]) \<le> 65536" by (simp_all add: d_def slices_small)
  have c: "conn_ok c" "conn_avail c = encodeVmessResponse sum_crypto (d_key d) (d_iv d) (77 # [0, 0, 0])
       @ concat (fst (vmess_write sum_crypto w [4, 5])) @ vmess_end @ []"
    by (simp_all add: c_def conn_ok_def conn_avail_def)
  show ?thesis
    unfolding Let_def d_def[symmetric] w_def[symmetric] c_def[symmetric]
    using vmess_session_reads_server[OF sum_crypto_correct(1) v e(2) c(1) _ c(2)[unfolded w_def]] v e(1) by auto
qed

end
