(* ===== verification/Subscription.thy ===== *)
theory Subscription
  imports JsValue
begin

text \<open>
  \<open>lib/core/subscription.js\<close>: recognising base64 bodies, parsing a subscription into proxies, groups
  and rules, cleaning the groups, and the choice of an upstream for the fetch. The YAML parser, the
  URL parser, base64 decoding to text and the fetch itself are arguments.
\<close>

section \<open>Recognising base64\<close>

definition is_word_or_dash :: "char \<Rightarrow> bool" where
  "is_word_or_dash c \<longleftrightarrow>
     (let n = code_unit c
      in 48 \<le> n \<and> n \<le> 57 \<or> 65 \<le> n \<and> n \<le> 90 \<or> 97 \<le> n \<and> n \<le> 122 \<or> n = 95 \<or> n = 45)"

text \<open>\<open>[a-z_][\w-]*\s*:\<close> at the start of a text; the three classes are disjoint.\<close>

definition key_at_start :: "string \<Rightarrow> bool" where
  "key_at_start s =
     (case s of
        [] \<Rightarrow> False
      | c # cs \<Rightarrow>
          (97 \<le> code_unit c \<and> code_unit c \<le> 122 \<or> code_unit c = 95)
          \<and> (case dropWhile is_space (dropWhile is_word_or_dash cs) of d # _ \<Rightarrow> d = CHR '':'' | [] \<Rightarrow> False))"

text \<open>The same at the start of any line (the \<open>m\<close> flag): after a line feed or carriage return.\<close>

fun key_at_line :: "string \<Rightarrow> bool" where
  "key_at_line [] = False"
| "key_at_line (c # cs) = ((c = unit_char 10 \<or> c = unit_char 13) \<and> key_at_start cs \<or> key_at_line cs)"

text \<open>\<open>\s*-\s\<close> anywhere: a dash with a space behind it.\<close>

fun dash_space :: "string \<Rightarrow> bool" where
  "dash_space (c # d # cs) = (c = CHR ''-'' \<and> is_space d \<or> dash_space (d # cs))"
| "dash_space _ = False"

definition is_base64_char :: "char \<Rightarrow> bool" where
  "is_base64_char c \<longleftrightarrow>
     (let n = code_unit c
      in 65 \<le> n \<and> n \<le> 90 \<or> 97 \<le> n \<and> n \<le> 122 \<or> 48 \<le> n \<and> n \<le> 57
         \<or> n = 43 \<or> n = 47 \<or> n = 61 \<or> n = 13 \<or> n = 10)"

definition no_spaces :: "string \<Rightarrow> string" where
  "no_spaces s = filter (\<lambda>c. \<not> is_space c) s"

definition looksBase64 :: "string \<Rightarrow> bool" where
  "looksBase64 txt \<longleftrightarrow>
     (let head = no_spaces (take 64 (trimStart txt)) in
      \<not> (key_at_start txt \<or> key_at_line txt \<or> dash_space txt)
      \<and> head \<noteq> [] \<and> list_all is_base64_char head)"

section \<open>Parsing\<close>

record parsed =
  sub_proxies :: "jsval list"
  sub_groups :: "jsval list"
  sub_rules :: "jsval list"
  sub_names :: "string list"

definition node_name :: "jsval \<Rightarrow> jsval" where
  "node_name proxy = (if is_str proxy then proxy else get_prop proxy ''name'')"

definition reserved_names :: "string list" where
  "reserved_names = [''DIRECT'', ''REJECT'', ''REJECT-DROP'', ''PASS'', ''COMPATIBLE'', ''GLOBAL'']"

definition keep_proxy :: "jsval \<Rightarrow> bool" where
  "keep_proxy proxy =
     (case node_name proxy of JStr n \<Rightarrow> n \<notin> set reserved_names \<and> n \<noteq> [] | _ \<Rightarrow> False)"

definition array_prop :: "jsval \<Rightarrow> string \<Rightarrow> jsval list" where
  "array_prop v k = elems (get_prop v k)"

text \<open>\<open>document !== null && typeof document === "object"\<close>.\<close>

definition is_document :: "jsval \<Rightarrow> bool" where
  "is_document v \<longleftrightarrow> v \<noteq> JNull \<and> is_object v"

text \<open>The loop over the attempts: the first that loads to an object; a parser exception is no document.\<close>

fun first_document :: "(string \<Rightarrow> jsval option) \<Rightarrow> string list \<Rightarrow> jsval option" where
  "first_document yaml [] = None"
| "first_document yaml (candidate # cs) =
     (case yaml candidate of
        Some v \<Rightarrow> if is_document v then Some v else first_document yaml cs
      | None \<Rightarrow> first_document yaml cs)"

definition read_document :: "jsval \<Rightarrow> parsed" where
  "read_document document =
     (let payload = (if is_arr document then JObj [(''proxies'', document)] else document);
          ps = filter keep_proxy (array_prop payload ''proxies'')
      in \<lparr>sub_proxies = ps, sub_groups = array_prop payload ''proxy-groups'', sub_rules = array_prop payload ''rules'',
          sub_names = filter (\<lambda>n. n \<noteq> []) (map (\<lambda>p. str_of (node_name p)) ps)\<rparr>)"

definition parseSubscription ::
  "(string \<Rightarrow> string) \<Rightarrow> (string \<Rightarrow> jsval option) \<Rightarrow> string \<Rightarrow> error + parsed" where
  "parseSubscription decode64 yaml raw =
     (let attempts = (if looksBase64 raw then [decode64 (no_spaces raw)] else []) @ [raw] in
      case first_document yaml attempts of
        None \<Rightarrow> Inl (Error ''subscription body is neither YAML nor base64-wrapped YAML'')
      | Some document \<Rightarrow> Inr (read_document document))"

section \<open>Groups\<close>

text \<open>\<open>{ ...o, [k]: v }\<close>: an own key keeps its place.\<close>

fun set_prop :: "(string \<times> jsval) list \<Rightarrow> string \<Rightarrow> jsval \<Rightarrow> (string \<times> jsval) list" where
  "set_prop [] k v = [(k, v)]"
| "set_prop ((k', v') # ps) k v = (if k' = k then (k, v) # ps else (k', v') # set_prop ps k v)"

definition keep_member :: "string list \<Rightarrow> jsval \<Rightarrow> bool" where
  "keep_member ns member =
     (case member of JStr n \<Rightarrow> n \<in> set ns \<or> n = ''DIRECT'' \<or> n = ''REJECT'' | _ \<Rightarrow> False)"

fun sanitizeGroups :: "jsval list \<Rightarrow> string list \<Rightarrow> jsval list" where
  "sanitizeGroups [] ns = []"
| "sanitizeGroups (g # gs) ns =
     (let members = filter (keep_member ns) (array_prop g ''proxies'') in
      case g of
        JObj ps \<Rightarrow>
          (if members = [] then sanitizeGroups gs ns
           else JObj (set_prop ps ''proxies'' (JArr members)) # sanitizeGroups gs ns)
      | _ \<Rightarrow> sanitizeGroups gs ns)"

section \<open>Fetching\<close>

text \<open>\<open>new URL(url).hostname\<close> is an argument; \<open>None\<close> is a URL it rejects.\<close>

definition isLoopback :: "(string \<Rightarrow> string option) \<Rightarrow> string \<Rightarrow> bool" where
  "isLoopback url_host url =
     (case url_host url of
        None \<Rightarrow> False
      | Some h \<Rightarrow> toLowerCase h \<in> {''localhost'', ''127.0.0.1'', ''::1'', ''[::1]''})"

text \<open>
  \<open>fetch\<close> takes the URL and the upstream proxy, if any, and rejects or answers with a status and a
  text. \<open>response.ok\<close> is a status in 200..299.
\<close>

definition fetchSubscription ::
  "(string \<Rightarrow> string option) \<Rightarrow> (string \<Rightarrow> string option \<Rightarrow> error + nat \<times> string) \<Rightarrow> string \<Rightarrow> string option
     \<Rightarrow> error + string" where
  "fetchSubscription url_host fetch url fetchProxyUrl =
     (let dispatcher =
        (case fetchProxyUrl of
           Some p \<Rightarrow> if \<not> isLoopback url_host url \<and> p \<noteq> [] then Some p else None
         | None \<Rightarrow> None) in
      bind_res (fetch url dispatcher) (\<lambda>(status, body).
        if 200 \<le> status \<and> status \<le> 299 then Inr body
        else Inl (Error (''subscription HTTP '' @ show_nat status))))"

section \<open>What a parsed subscription is\<close>

text \<open>Every proxy has a usable name, and the name list is theirs in order.\<close>

definition parsed_ok :: "parsed \<Rightarrow> bool" where
  "parsed_ok p \<longleftrightarrow>
     (\<forall>x \<in> set (sub_proxies p). \<exists>n. node_name x = JStr n \<and> n \<noteq> [] \<and> n \<notin> set reserved_names)
     \<and> map node_name (sub_proxies p) = map JStr (sub_names p)"

lemma keep_proxy_name: "keep_proxy x \<longleftrightarrow> (\<exists>n. node_name x = JStr n \<and> n \<noteq> [] \<and> n \<notin> set reserved_names)"
  by (cases "node_name x") (auto simp: keep_proxy_def)

lemma read_document_ok: "parsed_ok (read_document d)"
proof -
  define ps where "ps = filter keep_proxy (array_prop (if is_arr d then JObj [(''proxies'', d)] else d) ''proxies'')"
  have k: "\<forall>x \<in> set ps. \<exists>n. node_name x = JStr n \<and> n \<noteq> [] \<and> n \<notin> set reserved_names"
    by (auto simp: ps_def keep_proxy_name)
  then have "filter (\<lambda>n. n \<noteq> []) (map (\<lambda>p. str_of (node_name p)) ps) = map (\<lambda>p. str_of (node_name p)) ps"
    by (auto simp: filter_id_conv str_of_def)
  moreover have "map node_name ps = map JStr (map (\<lambda>p. str_of (node_name p)) ps)"
    using k by (auto simp: str_of_def)
  ultimately show ?thesis
    using k unfolding parsed_ok_def read_document_def Let_def ps_def[symmetric] by simp
qed

lemma get_set_prop: "get_prop (JObj (set_prop ps k v)) k' = (if k' = k then v else get_prop (JObj ps) k')"
  by (induction ps) auto

lemma set_prop_again: "set_prop (set_prop ps k v) k v = set_prop ps k v"
  by (induction ps) auto



text \<open>A base64-wrapped subscription parses to the same result as the YAML inside it.\<close>

theorem base64_wrapping_is_transparent:
  assumes "looksBase64 raw" "decode64 (no_spaces raw) = body" "\<not> looksBase64 body" "yaml body = Some d" "is_document d"
  shows "parseSubscription decode64 yaml raw = parseSubscription decode64 yaml body"
  using assms by (simp add: parseSubscription_def)

theorem base64_wrapping_is_transparent_witness:
  "parseSubscription (\<lambda>s. ''rules: []'') (\<lambda>s. if s = ''rules: []'' then Some (JObj []) else None) ''cnVsZXM6IFtd''
   = parseSubscription (\<lambda>s. ''rules: []'') (\<lambda>s. if s = ''rules: []'' then Some (JObj []) else None) ''rules: []''"
proof (rule base64_wrapping_is_transparent[where d = "JObj []"])
  show "looksBase64 ''cnVsZXM6IFtd''" "\<not> looksBase64 ''rules: []''" by code_simp+
qed (simp_all add: is_document_def is_object_def)

text \<open>After cleaning, a group has at least one member and every member is a known node or one of
  DIRECT and REJECT; all else of the group is unchanged, and cleaning again changes nothing.\<close>

theorem sanitized_groups:
  "(\<forall>g \<in> set (sanitizeGroups gs ns). \<exists>g' \<in> set gs.
      array_prop g ''proxies'' = filter (keep_member ns) (array_prop g' ''proxies'')
      \<and> array_prop g ''proxies'' \<noteq> [] \<and> (\<forall>k. k \<noteq> ''proxies'' \<longrightarrow> get_prop g k = get_prop g' k))
   \<and> sanitizeGroups (sanitizeGroups gs ns) ns = sanitizeGroups gs ns"
proof (induction gs)
  case (Cons g gs)
  let ?m = "filter (keep_member ns) (array_prop g ''proxies'')"
  show ?case
  proof (cases "\<exists>ps. g = JObj ps \<and> ?m \<noteq> []")
    case True
    then obtain ps where g: "g = JObj ps" "?m \<noteq> []" by blast
    let ?g = "JObj (set_prop ps ''proxies'' (JArr ?m))"
    have p: "array_prop ?g ''proxies'' = ?m" by (simp add: array_prop_def get_set_prop elems_def)
    have s: "sanitizeGroups (g # gs) ns = ?g # sanitizeGroups gs ns" using g by (simp add: Let_def)
    have "sanitizeGroups (?g # sanitizeGroups gs ns) ns = ?g # sanitizeGroups (sanitizeGroups gs ns) ns"
      using g(2) by (simp add: p set_prop_again)
    then show ?thesis
      unfolding s using Cons p g by (auto simp: get_set_prop)
  next
    case False
    then have "sanitizeGroups (g # gs) ns = sanitizeGroups gs ns" by (cases g) (auto simp: Let_def)
    then show ?thesis using Cons by auto
  qed
qed simp

theorem sanitized_groups_witness:
  "let gs = [JObj [(''name'', JStr ''g''), (''proxies'', JArr [JStr ''a'', JStr ''gone'', JStr ''DIRECT''])], JNull]
   in sanitizeGroups (sanitizeGroups gs [''a'']) [''a''] = sanitizeGroups gs [''a'']"
  using sanitized_groups by (simp only: Let_def)

end
