(* ===== verification/Inject.thy ===== *)
theory Inject
  imports JsValue
begin

text \<open>
  \<open>lib/core/inject.js\<close>: the proxy environment variables and their restoration, the NO_PROXY list and
  its host predicate, the fetch wrapper, and the choice between the global dispatcher and the wrapper.
  An installation that returns its disposer is the locale \<open>undoable\<close>.
\<close>

section \<open>Environment\<close>

text \<open>\<open>process.env\<close>, with \<open>None\<close> for an absent variable (names are case-sensitive, as on POSIX).\<close>

type_synonym env = "string \<Rightarrow> string option"

definition PROXY_ENV_KEYS :: "string list" where
  "PROXY_ENV_KEYS =
     [''HTTP_PROXY'', ''HTTPS_PROXY'', ''ALL_PROXY'', ''http_proxy'', ''https_proxy'', ''all_proxy'',
      ''NO_PROXY'', ''no_proxy'']"

definition proxy_target_keys :: "string list" where
  "proxy_target_keys =
     [''HTTP_PROXY'', ''HTTPS_PROXY'', ''ALL_PROXY'', ''http_proxy'', ''https_proxy'', ''all_proxy'']"

type_synonym snapshot = "(string \<times> string option) list"

definition snapshotEnv :: "env \<Rightarrow> snapshot" where
  "snapshotEnv e = map (\<lambda>k. (k, e k)) PROXY_ENV_KEYS"

definition withoutProxyEnv :: "env \<Rightarrow> env" where
  "withoutProxyEnv e = fold (\<lambda>k e. e(k := None)) PROXY_ENV_KEYS e"

section \<open>NO_PROXY\<close>

definition LOOPBACK_NO_PROXY :: string where
  "LOOPBACK_NO_PROXY = ''localhost,127.0.0.1,::1,<local>''"

text \<open>The entries of \<open>composeNoProxy\<close> and its value; \<open>None\<close> is an undefined argument.\<close>

definition no_proxy_entries :: "string option \<Rightarrow> string list" where
  "no_proxy_entries userValue =
     (let parts = [LOOPBACK_NO_PROXY] @ (case userValue of Some u \<Rightarrow> if u \<noteq> [] then [u] else [] | None \<Rightarrow> [])
      in set_order (filter (\<lambda>p. p \<noteq> []) (map trim (split_char (CHR '','') (join '','' parts)))))"

definition composeNoProxy :: "string option \<Rightarrow> string" where
  "composeNoProxy userValue = join '','' (no_proxy_entries userValue)"

definition injectEnvironment :: "string \<Rightarrow> string option \<Rightarrow> env \<Rightarrow> env \<times> snapshot" where
  "injectEnvironment port noProxyUser e =
     (let saved = snapshotEnv e;
          target = ''http://127.0.0.1:'' @ port;
          noProxy = composeNoProxy noProxyUser;
          e1 = fold (\<lambda>k e. e(k := Some target)) proxy_target_keys e
      in (e1(''NO_PROXY'' := Some noProxy, ''no_proxy'' := Some noProxy), saved))"

text \<open>The disposer.\<close>

definition restoreEnv :: "snapshot \<Rightarrow> env \<Rightarrow> env" where
  "restoreEnv saved e = fold (\<lambda>(k, v) e. e(k := v)) saved e"

section \<open>The host predicate\<close>

datatype matcher = Always | Hosts "string list" "string list"

fun sort_entries :: "string list \<Rightarrow> string list \<Rightarrow> string list \<Rightarrow> matcher" where
  "sort_entries [] exact sfxs = Hosts exact sfxs"
| "sort_entries (entry # es) exact sfxs =
     (if entry = ''*'' then Always
      else if startsWith entry ''.'' then sort_entries es exact (sfxs @ [entry])
      else sort_entries es (exact @ [entry]) sfxs)"

definition buildNoProxyMatcher :: "string option \<Rightarrow> matcher" where
  "buildNoProxyMatcher noProxyValue =
     (let entries = filter (\<lambda>p. p \<noteq> []) (map (\<lambda>e. toLowerCase (trim e)) (split_char (CHR '','') (composeNoProxy noProxyValue)))
      in sort_entries entries [] [])"

fun matches :: "matcher \<Rightarrow> string \<Rightarrow> bool" where
  "matches Always hostname = True"
| "matches (Hosts exact sfxs) hostname =
     (let host = toLowerCase hostname in
      host = [] \<or> host = ''localhost''
      \<or> CHR ''.'' \<notin> set host
      \<or> host = ''127.0.0.1'' \<or> host = ''::1'' \<or> startsWith host ''[''
      \<or> host \<in> set exact
      \<or> list_ex (\<lambda>s. endsWith host s \<or> host = drop 1 s) sfxs)"

section \<open>The fetch wrapper and the dispatcher\<close>

text \<open>
  The values of \<open>globalThis.fetch\<close> and of undici's global dispatcher; a wrapper keeps the function it
  wraps, its upstream target, its predicate and an identity.
\<close>

datatype fetch_fn = NativeFetch nat | NoFetch | WrappedFetch nat fetch_fn string matcher

datatype dispatcher = OtherDispatcher nat | EnvHttpProxyAgent nat | ProxyAgent nat string

record host_world =
  env :: env
  fetch_fn :: fetch_fn
  dispatch :: dispatcher
  made :: nat

text \<open>What \<open>node:undici\<close> offers, or \<open>None\<close> where the import throws.\<close>

record undici =
  has_set_get :: bool
  has_env_agent :: bool
  has_proxy_agent :: bool

datatype undo = NoUndo | UndoDispatcher dispatcher | UndoFetch fetch_fn fetch_fn

text \<open>\<open>process.env.HTTPS_PROXY ?? process.env.HTTP_PROXY\<close>, when it is not empty.\<close>

definition proxy_env_target :: "env \<Rightarrow> string option" where
  "proxy_env_target e =
     (case e ''HTTPS_PROXY'' of
        Some t \<Rightarrow> if t = [] then None else Some t
      | None \<Rightarrow> (case e ''HTTP_PROXY'' of Some t \<Rightarrow> if t = [] then None else Some t | None \<Rightarrow> None))"

definition wrapFetch :: "host_world \<Rightarrow> host_world \<times> undo" where
  "wrapFetch w =
     (if fetch_fn w = NoFetch then (w, NoUndo)
      else case proxy_env_target (env w) of
             None \<Rightarrow> (w, NoUndo)
           | Some target \<Rightarrow>
               (let wrapped = WrappedFetch (made w) (fetch_fn w) target (buildNoProxyMatcher (env w ''NO_PROXY''))
                in (w\<lparr>fetch_fn := wrapped, made := Suc (made w)\<rparr>, UndoFetch (fetch_fn w) wrapped)))"

definition installFetchDispatcher :: "undici option \<Rightarrow> host_world \<Rightarrow> host_world \<times> undo" where
  "installFetchDispatcher builtin w =
     (case builtin of
        None \<Rightarrow> wrapFetch w
      | Some b \<Rightarrow>
          (if has_set_get b \<and> has_env_agent b
           then (w\<lparr>dispatch := EnvHttpProxyAgent (made w), made := Suc (made w)\<rparr>, UndoDispatcher (dispatch w))
           else if has_set_get b \<and> has_proxy_agent b
           then (case proxy_env_target (env w) of
                   Some t \<Rightarrow> (w\<lparr>dispatch := ProxyAgent (made w) t, made := Suc (made w)\<rparr>, UndoDispatcher (dispatch w))
                 | None \<Rightarrow> wrapFetch w)
           else wrapFetch w))"

definition run_undo :: "undo \<Rightarrow> host_world \<Rightarrow> host_world" where
  "run_undo u w =
     (case u of
        NoUndo \<Rightarrow> w
      | UndoDispatcher previous \<Rightarrow> w\<lparr>dispatch := previous\<rparr>
      | UndoFetch original wrapped \<Rightarrow> if fetch_fn w = wrapped then w\<lparr>fetch_fn := original\<rparr> else w)"

text \<open>
  One call of the wrapper: the upstream it uses. \<open>hostname\<close> is the host of the parsed URL, empty where
  parsing throws; \<open>provided\<close> is the caller's own dispatcher.
\<close>

datatype fetch_path = Native | Through string | Provided nat

definition wrapped_call :: "matcher \<Rightarrow> string \<Rightarrow> string \<Rightarrow> nat option \<Rightarrow> fetch_path" where
  "wrapped_call m target hostname provided =
     (case provided of
        Some d \<Rightarrow> Provided d
      | None \<Rightarrow> if matches m hostname then Native else Through target)"

section \<open>Installing and undoing\<close>

text \<open>The two installations of the manager on the process, with their disposers.\<close>

definition inst_env :: "string \<Rightarrow> string option \<Rightarrow> host_world \<Rightarrow> host_world \<times> snapshot" where
  "inst_env port noProxy w =
     (case injectEnvironment port noProxy (env w) of (e, saved) \<Rightarrow> (w\<lparr>env := e\<rparr>, saved))"

definition undo_env :: "snapshot \<Rightarrow> host_world \<Rightarrow> host_world" where
  "undo_env saved w = w\<lparr>env := restoreEnv saved (env w)\<rparr>"

text \<open>
  What a caller relies on: the disposer an installation returns takes it back. \<open>part\<close> is what the
  installation touches and \<open>rest\<close> what it leaves alone; other parts may change in between.
\<close>

locale undoable =
  fixes inst :: "'w \<Rightarrow> 'w \<times> 'u"
    and undo :: "'u \<Rightarrow> 'w \<Rightarrow> 'w"
    and part :: "'w \<Rightarrow> 'p"
    and rest :: "'w \<Rightarrow> 'r"
  assumes inst_rest: "inst w = (w', u) \<Longrightarrow> rest w' = rest w"
    and undo_rest: "inst w = (w', u) \<Longrightarrow> rest (undo u v) = rest v"
    and undo_part: "inst w = (w', u) \<Longrightarrow> part v = part w' \<Longrightarrow> part (undo u v) = part w"
begin

lemma undo_inst:
  "inst w = (w', u) \<Longrightarrow> part (undo u w') = part w \<and> rest (undo u w') = rest w"
  using inst_rest undo_rest undo_part by metis

end

text \<open>Two installations that each leave the other's part alone, undone in reverse order.\<close>

locale nested_undo =
  a: undoable inst1 undo1 part1 rest1 + b: undoable inst2 undo2 part2 rest2
  for inst1 :: "'w \<Rightarrow> 'w \<times> 'u" and undo1 and part1 :: "'w \<Rightarrow> 'p" and rest1 :: "'w \<Rightarrow> 'r"
    and inst2 :: "'w \<Rightarrow> 'w \<times> 'v" and undo2 and part2 :: "'w \<Rightarrow> 'q" and rest2 :: "'w \<Rightarrow> 't" +
  assumes part1_in_rest2: "rest2 v = rest2 w \<Longrightarrow> part1 v = part1 w"
    and part2_in_rest1: "rest1 v = rest1 w \<Longrightarrow> part2 v = part2 w"
begin

lemma nested_undo:
  assumes "inst1 w = (w1, u)" "inst2 w1 = (w2, v)"
  shows "part1 (undo1 u (undo2 v w2)) = part1 w" "part2 (undo1 u (undo2 v w2)) = part2 w"
proof -
  have 2: "part2 (undo2 v w2) = part2 w1" "rest2 (undo2 v w2) = rest2 w1"
    using b.undo_inst[OF assms(2)] by auto
  show "part1 (undo1 u (undo2 v w2)) = part1 w"
    by (rule a.undo_part[OF assms(1)]) (rule part1_in_rest2[OF 2(2)])
  have "part2 (undo1 u (undo2 v w2)) = part2 (undo2 v w2)"
    by (rule part2_in_rest1) (rule a.undo_rest[OF assms(1)])
  then show "part2 (undo1 u (undo2 v w2)) = part2 w"
    using 2(1) part2_in_rest1[OF a.inst_rest[OF assms(1)]] by simp
qed

end

section \<open>The disposers are right\<close>

lemma restore_eq: "restoreEnv (snapshotEnv e) e' k = (if k \<in> set PROXY_ENV_KEYS then e k else e' k)"
proof -
  have "fold (\<lambda>(k, v) e. e(k := v)) (map (\<lambda>k. (k, e k)) ks) e' k = (if k \<in> set ks then e k else e' k)" for ks
    by (induction ks arbitrary: e') auto
  then show ?thesis by (simp add: restoreEnv_def snapshotEnv_def)
qed

lemma inject_outside: "k \<notin> set PROXY_ENV_KEYS \<Longrightarrow> fst (injectEnvironment port np e) k = e k"
  by (simp add: injectEnvironment_def Let_def PROXY_ENV_KEYS_def proxy_target_keys_def)

lemma inject_saved: "snd (injectEnvironment port np e) = snapshotEnv e"
  by (simp add: injectEnvironment_def Let_def)

definition env_part :: "host_world \<Rightarrow> string option list" where
  "env_part w = map (env w) PROXY_ENV_KEYS"

definition env_rest :: "host_world \<Rightarrow> env \<times> fetch_fn \<times> dispatcher" where
  "env_rest w = (\<lambda>k. if k \<in> set PROXY_ENV_KEYS then None else env w k, fetch_fn w, dispatch w)"

interpretation env: undoable "inst_env port np" undo_env env_part env_rest for port np
proof unfold_locales
  fix w w' u v assume "inst_env port np w = (w', u)"
  then have i: "w' = w\<lparr>env := fst (injectEnvironment port np (env w))\<rparr>" "u = snapshotEnv (env w)"
    using inject_saved[of port np "env w"] by (auto simp: inst_env_def split: prod.splits)
  show "env_rest w' = env_rest w" by (auto simp: env_rest_def i inject_outside)
  show "env_rest (undo_env u v) = env_rest v" by (auto simp: env_rest_def undo_env_def i restore_eq)
  show "env_part (undo_env u v) = env_part w" by (auto simp: env_part_def undo_env_def i restore_eq)
qed

definition fetch_part :: "host_world \<Rightarrow> fetch_fn \<times> dispatcher" where
  "fetch_part w = (fetch_fn w, dispatch w)"

lemma wrap_cases:
  assumes "installFetchDispatcher b w = (w', u)"
  shows "env w' = env w
    \<and> (u = NoUndo \<and> fetch_part w' = fetch_part w
       \<or> u = UndoDispatcher (dispatch w) \<and> fetch_fn w' = fetch_fn w
       \<or> u = UndoFetch (fetch_fn w) (fetch_fn w') \<and> dispatch w' = dispatch w)"
  using assms
  by (auto simp: installFetchDispatcher_def wrapFetch_def fetch_part_def Let_def split: option.splits if_splits)

interpretation dispatcher: undoable "installFetchDispatcher b" run_undo fetch_part env for b
proof unfold_locales
  fix w w' u v assume i: "installFetchDispatcher b w = (w', u)"
  show "env w' = env w" using wrap_cases[OF i] by simp
  show "env (run_undo u v) = env v" by (simp add: run_undo_def split: undo.splits)
  show "fetch_part v = fetch_part w' \<Longrightarrow> fetch_part (run_undo u v) = fetch_part w"
    using wrap_cases[OF i] by (auto simp: fetch_part_def run_undo_def split: if_splits)
qed

interpretation boot: nested_undo "inst_env port np" undo_env env_part env_rest
    "installFetchDispatcher b" run_undo fetch_part env for port np b
  by unfold_locales (auto simp: env_part_def env_rest_def fetch_part_def)


section \<open>Properties\<close>

text \<open>Undoing the injection restores the eight proxy variables to what they were, absent ones included,
  and leaves every change made meanwhile to other variables.\<close>

theorem environment_restored:
  "restoreEnv (snd (injectEnvironment port np e)) e' k = (if k \<in> set PROXY_ENV_KEYS then e k else e' k)"
  by (simp add: inject_saved restore_eq)

text \<open>C29. Booting and stopping leave the process as it was: after the environment is injected, the
  dispatcher or fetch wrapper installed on top of it by whichever strategy the runtime allows, and both undone in
  reverse order, the proxy variables, the fetch function and the global dispatcher have their old values.\<close>

theorem injection_undone:
  assumes "inst_env port np w = (w1, u)" "installFetchDispatcher b w1 = (w2, v)"
  shows "env_part (undo_env u (run_undo v w2)) = env_part w \<and> fetch_part (undo_env u (run_undo v w2)) = fetch_part w"
  using boot.nested_undo[OF assms] by simp

theorem injection_undone_witness:
  "let w = \<lparr>env = (\<lambda>k. if k = ''NO_PROXY'' then Some ''x'' else None), fetch_fn = NativeFetch 0, dispatch = OtherDispatcher 0, made = 0\<rparr>;
       (w1, u) = inst_env ''7890'' None w; (w2, v) = installFetchDispatcher None w1
   in fetch_fn w2 \<noteq> fetch_fn w \<and> env_part (undo_env u (run_undo v w2)) = env_part w
      \<and> fetch_part (undo_env u (run_undo v w2)) = fetch_part w"
proof -
  define w where "w = \<lparr>env = (\<lambda>k. if k = ''NO_PROXY'' then Some ''x'' else None), fetch_fn = NativeFetch 0, dispatch = OtherDispatcher 0, made = 0\<rparr>"
  obtain w1 u where 1: "inst_env ''7890'' None w = (w1, u)" by force
  obtain w2 v where 2: "installFetchDispatcher None w1 = (w2, v)" by force
  have "fetch_fn w1 = NativeFetch 0" "env w1 ''HTTPS_PROXY'' = Some ''http://127.0.0.1:7890''"
    using 1 by (auto simp: inst_env_def w_def injectEnvironment_def Let_def proxy_target_keys_def)
  then have "fetch_fn w2 \<noteq> fetch_fn w"
    using 2 by (auto simp: installFetchDispatcher_def wrapFetch_def proxy_env_target_def Let_def w_def)
  then show ?thesis
    using injection_undone[OF 1 2] by (simp add: Let_def 1 2 flip: w_def)
qed

section \<open>NO_PROXY\<close>

lemma trim_set: "set (trim s) \<subseteq> set s"
proof
  fix x assume "x \<in> set (trim s)"
  then have "x \<in> set (dropWhile is_space (rev (dropWhile is_space s)))" by (simp add: trim_def)
  then show "x \<in> set s" by (auto dest!: set_dropWhileD)
qed

lemma trim_idem [simp]: "trim (trim s) = trim s"
proof (rule trim_id)
  let ?r = "rev (dropWhile is_space s)"
  assume "trim s \<noteq> []"
  then have ne: "dropWhile is_space ?r \<noteq> []" by (simp add: trim_def)
  then have "\<not> is_space (last (trim s))"
    using hd_dropWhile[OF ne] by (simp add: trim_def last_rev)
  moreover have "last (dropWhile is_space ?r) = last ?r" using ne by (metis dropWhile_eq_Nil_conv last_appendR takeWhile_dropWhile_id)
  then have "hd (trim s) = hd (dropWhile is_space s)"
    using ne by (auto simp: trim_def hd_rev last_rev)
  moreover have "dropWhile is_space s \<noteq> []" using ne by (metis dropWhile.simps(1) rev.simps(1))
  ultimately show "\<not> is_space (hd (trim s)) \<and> \<not> is_space (last (trim s))"
    using hd_dropWhile by metis
qed

definition loopback_entries :: "string list" where
  "loopback_entries = [''localhost'', ''127.0.0.1'', ''::1'', ''<local>'']"

lemma split_loopback: "split_char (CHR '','') LOOPBACK_NO_PROXY = loopback_entries"
  by (simp add: LOOPBACK_NO_PROXY_def loopback_entries_def)

lemma loopback_facts: "distinct loopback_entries" "map trim loopback_entries = loopback_entries"
    "filter (\<lambda>p. p \<noteq> []) loopback_entries = loopback_entries" "map toLowerCase loopback_entries = loopback_entries"
  by (simp_all add: loopback_entries_def) (simp_all add: trim_def is_space_def code_unit_def toLowerCase_def lower_char_def)

definition user_entries :: "string option \<Rightarrow> string list" where
  "user_entries u = (case u of None \<Rightarrow> [] | Some u \<Rightarrow> filter (\<lambda>p. p \<noteq> []) (map trim (split_char (CHR '','') u)))"

lemma no_proxy_entries_eq:
  "no_proxy_entries u = loopback_entries @ filter (\<lambda>e. e \<notin> set loopback_entries) (set_order (user_entries u))"
proof (cases "u = None \<or> u = Some []")
  case True
  then have "no_proxy_entries u = set_order loopback_entries" "user_entries u = []"
    using split_loopback loopback_facts by (auto simp: no_proxy_entries_def user_entries_def trim_def)
  then show ?thesis by (simp add: set_order_distinct loopback_facts)
next
  case False
  then obtain v where v: "u = Some v" "v \<noteq> []" by (cases u) auto
  then have "no_proxy_entries u = set_order (loopback_entries @ user_entries u)"
    using loopback_facts by (simp add: no_proxy_entries_def user_entries_def split_char_append_sep split_loopback)
  then show ?thesis by (simp add: set_order_append set_order_distinct loopback_facts)
qed

lemma entry_facts: "e \<in> set (no_proxy_entries u) \<Longrightarrow> CHR '','' \<notin> set e \<and> trim e = e \<and> e \<noteq> []"
  using trim_set by (fastforce simp: no_proxy_entries_def Let_def dest: split_char_pieces)

lemma split_compose: "split_char (CHR '','') (composeNoProxy u) = no_proxy_entries u"
proof -
  have "no_proxy_entries u \<noteq> []" by (simp add: no_proxy_entries_eq loopback_entries_def)
  then show ?thesis using entry_facts unfolding composeNoProxy_def by (intro split_char_join) auto
qed

lemma entries_trimmed: "map trim (no_proxy_entries u) = no_proxy_entries u" "filter (\<lambda>p. p \<noteq> []) (no_proxy_entries u) = no_proxy_entries u"
  using entry_facts by (auto intro: map_idI filter_True)

lemma no_proxy_distinct: "distinct (no_proxy_entries u)"
  by (simp add: no_proxy_entries_def Let_def distinct_set_order)

text \<open>The NO_PROXY value always exempts loopback, lists every entry once, trimmed and not empty, reads
  back as its entries, and composing it again, as the fetch wrapper does, changes nothing.\<close>

theorem no_proxy_value:
  "split_char (CHR '','') (composeNoProxy u) = no_proxy_entries u \<and> distinct (no_proxy_entries u)
   \<and> set (no_proxy_entries u) = set loopback_entries \<union> set (user_entries u)
   \<and> composeNoProxy (Some (composeNoProxy u)) = composeNoProxy u"
proof -
  have "user_entries (Some (composeNoProxy u)) = no_proxy_entries u"
    by (simp add: user_entries_def split_compose entries_trimmed)
  then have "no_proxy_entries (Some (composeNoProxy u))
      = loopback_entries @ filter (\<lambda>e. e \<notin> set loopback_entries) (no_proxy_entries u)"
    using no_proxy_entries_eq[of "Some (composeNoProxy u)"] by (simp add: set_order_distinct no_proxy_distinct)
  also have "\<dots> = no_proxy_entries u" by (simp add: no_proxy_entries_eq[of u])
  finally have "composeNoProxy (Some (composeNoProxy u)) = composeNoProxy u"
    unfolding composeNoProxy_def by simp
  moreover have "set (no_proxy_entries u) = set loopback_entries \<union> set (user_entries u)"
    by (auto simp: no_proxy_entries_eq[of u])
  ultimately show ?thesis using split_compose no_proxy_distinct by blast
qed

lemma sort_entries_eq:
  "sort_entries es exact sfxs =
     (if ''*'' \<in> set es then Always
      else Hosts (exact @ filter (\<lambda>e. \<not> startsWith e ''.'') es) (sfxs @ filter (\<lambda>e. startsWith e ''.'') es))"
  by (induction es arbitrary: exact sfxs) auto

lemma matcher_eq:
  "buildNoProxyMatcher u = sort_entries (map toLowerCase (no_proxy_entries u)) [] []"
proof -
  have "map (\<lambda>e. toLowerCase (trim e)) (no_proxy_entries u) = map toLowerCase (map trim (no_proxy_entries u))" by simp
  moreover have "filter (\<lambda>p. p \<noteq> []) (map toLowerCase (no_proxy_entries u)) = map toLowerCase (no_proxy_entries u)"
    using entry_facts by (auto intro!: filter_True simp: toLowerCase_def)
  ultimately show ?thesis by (simp only: buildNoProxyMatcher_def Let_def split_compose entries_trimmed)
qed

text \<open>C30. Exactly these hosts bypass the proxy: all of them when the list has a star; an empty host, a name
  without a dot, a bracketed address; a host that is an entry; and for an entry \<open>.d\<close> the domain \<open>d\<close> and
  every name below it. Case never matters.\<close>

theorem no_proxy_predicate:
  "matches (buildNoProxyMatcher u) hostname \<longleftrightarrow>
     (let host = toLowerCase hostname; es = set (map toLowerCase (no_proxy_entries u)) in
      ''*'' \<in> es \<or> host = [] \<or> CHR ''.'' \<notin> set host \<or> startsWith host ''[''
      \<or> host \<in> es \<and> \<not> startsWith host ''.''
      \<or> (\<exists>d. CHR ''.'' # d \<in> es \<and> (host = d \<or> endsWith host (CHR ''.'' # d))))"
proof -
  define E where "E = map toLowerCase (no_proxy_entries u)"
  define host where "host = toLowerCase hostname"
  have l: "''localhost'' \<in> set E" "''127.0.0.1'' \<in> set E" "''::1'' \<in> set E"
  proof -
    have "set loopback_entries \<subseteq> set E"
      using loopback_facts(4) unfolding E_def no_proxy_entries_eq by (metis map_append set_append sup_ge1)
    then show "''localhost'' \<in> set E" "''127.0.0.1'' \<in> set E" "''::1'' \<in> set E" by (auto simp: loopback_entries_def)
  qed
  have s: "list_ex P (filter (\<lambda>e. startsWith e ''.'') E) \<longleftrightarrow> (\<exists>d. CHR ''.'' # d \<in> set E \<and> P (CHR ''.'' # d))" for P
    by (auto simp: list_ex_iff startsWith_def prefix_def)
  have "matches (buildNoProxyMatcher u) hostname \<longleftrightarrow> ''*'' \<in> set E \<or> host = [] \<or> host = ''localhost''
      \<or> CHR ''.'' \<notin> set host \<or> host = ''127.0.0.1'' \<or> host = ''::1'' \<or> startsWith host ''[''
      \<or> host \<in> set E \<and> \<not> startsWith host ''.''
      \<or> (\<exists>d. CHR ''.'' # d \<in> set E \<and> (endsWith host (CHR ''.'' # d) \<or> host = d))"
    unfolding matcher_eq sort_entries_eq E_def[symmetric] by (simp add: Let_def s host_def)
  moreover have "\<not> startsWith ''localhost'' ''.''" "\<not> startsWith ''127.0.0.1'' ''.''" "\<not> startsWith ''::1'' ''.''"
    by (simp_all add: startsWith_def)
  ultimately show ?thesis using l unfolding Let_def E_def[symmetric] host_def[symmetric] by metis
qed

theorem no_proxy_predicate_witness:
  "matches (buildNoProxyMatcher (Some '' .Corp.io'')) ''a.CORP.io'' \<and> \<not> matches (buildNoProxyMatcher (Some '' .Corp.io'')) ''acorp.io''"
proof -
  have e: "map toLowerCase (no_proxy_entries (Some '' .Corp.io'')) = loopback_entries @ [''.corp.io'']" by code_simp
  have h: "toLowerCase ''a.CORP.io'' = ''a.corp.io''" "toLowerCase ''acorp.io'' = ''acorp.io''" by code_simp+
  have "matches (buildNoProxyMatcher (Some '' .Corp.io'')) ''a.CORP.io''"
  proof -
    have "endsWith ''a.corp.io'' (CHR ''.'' # ''corp.io'')" by (simp add: endsWith_def suffix_def)
    then show ?thesis by (subst no_proxy_predicate) (simp only: e h Let_def set_append, auto)
  qed
  moreover have "\<not> matches (buildNoProxyMatcher (Some '' .Corp.io'')) ''acorp.io''"
    by (subst no_proxy_predicate) (auto simp add: e h Let_def endsWith_def startsWith_def loopback_entries_def suffix_def del: map_append)
  ultimately show ?thesis by simp
qed

end
