(* ===== verification/Nodes.thy ===== *)
theory Nodes
  imports Subscription Transports "HOL-Library.Multiset"
begin

text \<open>
  Node selection of \<open>lib/core/manager.js\<close> over the configuration of \<open>lib/index.js\<close>: the node table,
  the groups shown, the node that answers traffic, latency measurements, and the pool of workers that
  tests all nodes. \<open>num_str\<close> is the number formatting of \<open>String(v)\<close>.
\<close>

section \<open>Configuration\<close>

text \<open>The settings section, as its schema in \<open>lib/index.js\<close> leaves it: every field present and typed.\<close>

record config =
  enabled :: bool
  subscriptionUrl :: string
  fetchProxyUrl :: string
  autoUpdateHours :: nat
  groupType :: string
  latencyTestUrl :: string
  latencyTimeoutMs :: nat
  noProxy :: string
  extraRules :: "string list"
  excludeRules :: "string list"

definition default_config :: config where
  "default_config =
     \<lparr>enabled = True, subscriptionUrl = [], fetchProxyUrl = [], autoUpdateHours = 24, groupType = ''url-test'',
      latencyTestUrl = ''http://www.gstatic.com/generate_204'', latencyTimeoutMs = 3000,
      noProxy = ''localhost,127.0.0.1,::1'', extraRules = [], excludeRules = []\<rparr>"

section \<open>Nodes and groups\<close>

definition GROUP_TYPES :: "string list" where
  "GROUP_TYPES = [''select'', ''url-test'', ''fallback'', ''load-balance'']"

definition SUPPORTED_TYPES :: "string list" where
  "SUPPORTED_TYPES =
     [''http'', ''socks5'', ''socks'', ''ss'', ''trojan'', ''vless'', ''vmess'', ''hysteria2'']"

definition isSupported :: "(jsnum \<Rightarrow> string) \<Rightarrow> jsval \<Rightarrow> bool" where
  "isSupported num_str node =
     (\<not> is_str node \<and> toLowerCase (string_or num_str (get_prop node ''type'') '''') \<in> set SUPPORTED_TYPES)"

text \<open>A \<open>Map\<close> as a list in insertion order: setting a present key keeps its place.\<close>

type_synonym node_map = "(string \<times> jsval) list"

definition add_node :: "jsval \<Rightarrow> node_map \<Rightarrow> node_map" where
  "add_node node m =
     (case node_name node of JStr n \<Rightarrow> if n \<noteq> [] then set_prop m n node else m | _ \<Rightarrow> m)"

definition nodeMap :: "parsed option \<Rightarrow> node_map" where
  "nodeMap sub = (case sub of None \<Rightarrow> [] | Some p \<Rightarrow> fold add_node (sub_proxies p) [])"

text \<open>
  Delays in memory: absent, or the last measurement, which is \<open>None\<close> after a failed test.
\<close>

type_synonym latencies = "string \<Rightarrow> nat option option"

text \<open>The loop of the url-test branch: the first name with the least delay, with the delay so far.\<close>

fun best_node :: "latencies \<Rightarrow> string list \<Rightarrow> (string \<times> nat) option \<Rightarrow> (string \<times> nat) option" where
  "best_node lat [] best = best"
| "best_node lat (n # ns) best =
     best_node lat ns
       (case lat n of
          Some (Some d) \<Rightarrow>
            (case best of None \<Rightarrow> Some (n, d) | Some (b, bd) \<Rightarrow> if d < bd then Some (n, d) else best)
        | _ \<Rightarrow> best)"

definition supported_names :: "(jsnum \<Rightarrow> string) \<Rightarrow> node_map \<Rightarrow> string list" where
  "supported_names num_str m =
     filter (\<lambda>n. case map_of m n of Some node \<Rightarrow> isSupported num_str node | None \<Rightarrow> False) (map fst m)"

definition resolveNode ::
  "(jsnum \<Rightarrow> string) \<Rightarrow> string \<Rightarrow> node_map \<Rightarrow> string option \<Rightarrow> latencies \<Rightarrow> jsval option" where
  "resolveNode num_str group_type m selected lat =
     (if m = [] then None
      else if (case selected of Some s \<Rightarrow> s \<in> set (map fst m) | None \<Rightarrow> False) then map_of m (the selected)
      else case (if group_type = ''url-test'' then best_node lat (supported_names num_str m) None else None) of
             Some (b, _) \<Rightarrow> map_of m b
           | None \<Rightarrow>
               (if supported_names num_str m \<noteq> [] then map_of m (hd (supported_names num_str m))
                else map_of m (fst (hd m))))"

text \<open>A group as the page sees it; \<open>JNull\<close> is \<open>null\<close>.\<close>

record group_view =
  g_name :: jsval
  g_type :: jsval
  g_now :: jsval
  g_all :: jsval

definition first_member :: "jsval \<Rightarrow> jsval" where
  "first_member g = (case array_prop g ''proxies'' of [] \<Rightarrow> JUndef | m # _ \<Rightarrow> m)"

definition currentNodeName ::
  "(jsnum \<Rightarrow> string) \<Rightarrow> string \<Rightarrow> node_map \<Rightarrow> string option \<Rightarrow> latencies \<Rightarrow> jsval \<Rightarrow> jsval" where
  "currentNodeName num_str group_type m selected lat g =
     (if get_prop g ''type'' = JStr ''url-test''
      then (case resolveNode num_str group_type m selected lat of
              None \<Rightarrow> JNull
            | Some node \<Rightarrow> node_name node)
      else first_of [case selected of Some s \<Rightarrow> JStr s | None \<Rightarrow> JNull, first_member g, JNull])"

definition auto_group :: "string \<Rightarrow> string list \<Rightarrow> jsval" where
  "auto_group group_type ns =
     JObj [(''name'', JStr ''AUTO''), (''type'', JStr group_type), (''proxies'', JArr (map JStr ns))]"

definition is_auto :: "jsval \<Rightarrow> bool" where
  "is_auto g \<longleftrightarrow> get_prop g ''name'' = JStr ''AUTO''"

text \<open>\<open>#groups\<close>: the cleaned groups of a known type, with a synthesized AUTO in front if there is none.\<close>

definition shown_groups :: "string \<Rightarrow> parsed \<Rightarrow> jsval list" where
  "shown_groups group_type p =
     (let gs = filter (\<lambda>g. \<exists>t \<in> set GROUP_TYPES. get_prop g ''type'' = JStr t) (sanitizeGroups (sub_groups p) (sub_names p))
      in if \<not> list_ex is_auto gs \<and> sub_names p \<noteq> [] then auto_group group_type (sub_names p) # gs else gs)"

definition view_group ::
  "(jsnum \<Rightarrow> string) \<Rightarrow> string \<Rightarrow> node_map \<Rightarrow> string option \<Rightarrow> latencies \<Rightarrow> jsval \<Rightarrow> group_view" where
  "view_group num_str group_type m selected lat g =
     \<lparr>g_name = get_prop g ''name'', g_type = get_prop g ''type'',
      g_now = (if is_auto g then currentNodeName num_str group_type m selected lat g
               else first_of [get_prop g ''now'', first_member g, JNull]),
      g_all = get_prop g ''proxies''\<rparr>"

definition groups ::
  "(jsnum \<Rightarrow> string) \<Rightarrow> string \<Rightarrow> parsed option \<Rightarrow> string option \<Rightarrow> latencies \<Rightarrow> group_view list" where
  "groups num_str group_type sub selected lat =
     (case sub of
        None \<Rightarrow> []
      | Some p \<Rightarrow> map (view_group num_str group_type (nodeMap sub) selected lat) (shown_groups group_type p))"

section \<open>Latency tests\<close>

text \<open>\<open>#latencyTarget\<close>; \<open>parse_url\<close> is the URL parser, \<open>None\<close> when it throws.\<close>

record latency_url =
  l_hostname :: string
  l_port :: string
  l_protocol :: string

definition latencyTarget :: "(string \<Rightarrow> latency_url option) \<Rightarrow> config \<Rightarrow> string \<times> jsnum" where
  "latencyTarget parse_url cfg =
     (case parse_url (latencyTestUrl cfg) of
        None \<Rightarrow> (''www.gstatic.com'', Fin 443 0)
      | Some u \<Rightarrow>
          (l_hostname u,
           if 0 < length (l_port u) then js_Number (l_port u)
           else if l_protocol u = ''http:'' then Fin 80 0 else Fin 443 0))"

text \<open>
  \<open>testOne\<close>: a node of the table is measured (the argument \<open>ping\<close> stands for \<open>measureLatency\<close> on
  the configured target), a name without node gives null.
\<close>

definition testOne :: "(jsval \<Rightarrow> nat option) \<Rightarrow> node_map \<Rightarrow> string \<Rightarrow> nat option" where
  "testOne ping m n = (case map_of m n of Some node \<Rightarrow> ping node | None \<Rightarrow> None)"

text \<open>
  \<open>testAllLatencies\<close>: workers share a cursor over the names. A worker is between tests, waiting for
  the test of an index, or done. Workers step in any order.
\<close>

datatype worker = Idle | Testing nat | Finished

record pool =
  cursor :: nat
  workers :: "worker list"
  results :: "(string \<times> nat option) list"

definition start_pool :: "string list \<Rightarrow> nat \<Rightarrow> pool" where
  "start_pool list concurrency =
     \<lparr>cursor = 0, workers = replicate (min concurrency (length list)) Idle, results = []\<rparr>"

inductive pool_step :: "string list \<Rightarrow> (string \<Rightarrow> nat option) \<Rightarrow> pool \<Rightarrow> pool \<Rightarrow> bool"
  for list :: "string list" and test :: "string \<Rightarrow> nat option" where
  take_index: "\<lbrakk>w < length (workers p); workers p ! w = Idle; cursor p < length list\<rbrakk>
     \<Longrightarrow> pool_step list test p (p\<lparr>workers := (workers p)[w := Testing (cursor p)], cursor := Suc (cursor p)\<rparr>)"
| finish: "\<lbrakk>w < length (workers p); workers p ! w = Idle; length list \<le> cursor p\<rbrakk>
     \<Longrightarrow> pool_step list test p (p\<lparr>workers := (workers p)[w := Finished], cursor := Suc (cursor p)\<rparr>)"
| store: "\<lbrakk>w < length (workers p); workers p ! w = Testing i\<rbrakk>
     \<Longrightarrow> pool_step list test p (p\<lparr>workers := (workers p)[w := Idle],
           results := results p @ [(list ! i, test (list ! i))]\<rparr>)"

text \<open>What the results do to the delays in memory, in the order they arrive.\<close>

definition store_latencies :: "(string \<times> nat option) list \<Rightarrow> latencies \<Rightarrow> latencies" where
  "store_latencies rs lat = fold (\<lambda>(n, d) lat. lat(n \<mapsto> d)) rs lat"


section \<open>The node table\<close>

lemma keys_set_prop_set [simp]: "fst ` set (set_prop ps k v) = insert k (fst ` set ps)"
proof (induction ps)
  case (Cons x ps)
  then show ?case by (cases x) (simp add: insert_commute)
qed simp

lemma keys_set_prop: "map fst (set_prop ps k v) = (if k \<in> set (map fst ps) then map fst ps else map fst ps @ [k])"
proof (induction ps)
  case (Cons x ps)
  then show ?case by (cases x) simp
qed simp

lemma distinct_add: "distinct (map fst m) \<Longrightarrow> distinct (map fst (add_node x m))"
  by (simp add: add_node_def keys_set_prop split: jsval.splits)

lemma nodeMap_distinct: "distinct (map fst (nodeMap sub))"
proof -
  have "distinct (map fst m) \<Longrightarrow> distinct (map fst (fold add_node xs m))" for xs m
    by (induction xs arbitrary: m) (auto simp: distinct_add)
  then show ?thesis by (cases sub) (simp_all add: nodeMap_def)
qed

lemma keys_fold_add:
  "set (map fst (fold add_node xs m)) = set (map fst m) \<union> {n. n \<noteq> [] \<and> JStr n \<in> node_name ` set xs}"
proof (induction xs arbitrary: m)
  case (Cons x xs)
  have "set (map fst (add_node x m)) = set (map fst m) \<union> {n. n \<noteq> [] \<and> JStr n = node_name x}"
    by (cases "node_name x") (auto simp: add_node_def)
  then show ?case using Cons[of "add_node x m"] by auto
qed simp

lemma nodeMap_names: "parsed_ok p \<Longrightarrow> set (map fst (nodeMap (Some p))) = set (sub_names p)"
proof -
  assume p: "parsed_ok p"
  have "node_name ` set (sub_proxies p) = JStr ` set (sub_names p)"
  proof -
    have "map node_name (sub_proxies p) = map JStr (sub_names p)" using p by (simp add: parsed_ok_def)
    then have "set (map node_name (sub_proxies p)) = set (map JStr (sub_names p))" by (rule arg_cong)
    then show ?thesis by simp
  qed
  moreover have "n \<in> set (sub_names p) \<Longrightarrow> n \<noteq> []" for n
  proof -
    assume "n \<in> set (sub_names p)"
    then have "JStr n \<in> node_name ` set (sub_proxies p)" using calculation by simp
    then obtain x where "x \<in> set (sub_proxies p)" "node_name x = JStr n" by auto
    then show "n \<noteq> []" using p by (force simp: parsed_ok_def)
  qed
  ultimately show ?thesis unfolding nodeMap_def option.case keys_fold_add by auto
qed

section \<open>Choosing a node\<close>

text \<open>What the best node so far says of the names seen: none is measured faster.\<close>

lemma best_node_least:
  assumes "\<forall>b d. best = Some (b, d) \<longrightarrow> lat b = Some (Some d) \<and> b \<in> seen"
    "\<forall>n \<in> seen. \<forall>d. lat n = Some (Some d) \<longrightarrow> (\<exists>b bd. best = Some (b, bd) \<and> bd \<le> d)"
  shows "(\<forall>b d. best_node lat ns best = Some (b, d) \<longrightarrow> lat b = Some (Some d) \<and> b \<in> seen \<union> set ns)
    \<and> (\<forall>n \<in> seen \<union> set ns. \<forall>d. lat n = Some (Some d) \<longrightarrow> (\<exists>b bd. best_node lat ns best = Some (b, bd) \<and> bd \<le> d))"
  using assms
proof (induction ns arbitrary: best seen)
  case (Cons n ns)
  define best' where "best' = (case lat n of
          Some (Some d) \<Rightarrow>
            (case best of None \<Rightarrow> Some (n, d) | Some (b, bd) \<Rightarrow> if d < bd then Some (n, d) else best)
        | _ \<Rightarrow> best)"
  have 1: "\<forall>b d. best' = Some (b, d) \<longrightarrow> lat b = Some (Some d) \<and> b \<in> insert n seen"
    using Cons.prems(1) by (auto simp: best'_def split: option.splits if_splits)
  have 2: "\<forall>n \<in> insert n seen. \<forall>d. lat n = Some (Some d) \<longrightarrow> (\<exists>b bd. best' = Some (b, bd) \<and> bd \<le> d)"
    using Cons.prems(2) by (fastforce simp: best'_def split: option.splits if_splits)
  show ?case
    using Cons.IH[OF 1 2] by (simp add: best'_def[symmetric])
qed simp

lemma best_node_start:
  "best_node lat ns None = Some (b, d) \<Longrightarrow> lat b = Some (Some d) \<and> b \<in> set ns"
  "n \<in> set ns \<Longrightarrow> lat n = Some (Some d) \<Longrightarrow> \<exists>b bd. best_node lat ns None = Some (b, bd) \<and> bd \<le> d"
proof -
  have *: "(\<forall>b d. best_node lat ns None = Some (b, d) \<longrightarrow> lat b = Some (Some d) \<and> b \<in> {} \<union> set ns)
    \<and> (\<forall>n \<in> {} \<union> set ns. \<forall>d. lat n = Some (Some d) \<longrightarrow> (\<exists>b bd. best_node lat ns None = Some (b, bd) \<and> bd \<le> d))"
    by (rule best_node_least) simp_all
  show "best_node lat ns None = Some (b, d) \<Longrightarrow> lat b = Some (Some d) \<and> b \<in> set ns" using * by blast
  show "n \<in> set ns \<Longrightarrow> lat n = Some (Some d) \<Longrightarrow> \<exists>b bd. best_node lat ns None = Some (b, bd) \<and> bd \<le> d"
    using * by blast
qed

lemma map_of_fst: "n \<in> set (map fst m) \<Longrightarrow> \<exists>x. map_of m n = Some x"
  by (metis map_of_eq_None_iff not_None_eq set_map)

lemma supported_names_in: "n \<in> set (supported_names num_str m) \<longleftrightarrow> (\<exists>x. map_of m n = Some x \<and> isSupported num_str x)"
proof
  assume "\<exists>x. map_of m n = Some x \<and> isSupported num_str x"
  then obtain x where x: "map_of m n = Some x" "isSupported num_str x" by blast
  then have "n \<in> set (map fst m)" using map_of_SomeD[OF x(1)] by force
  then show "n \<in> set (supported_names num_str m)" using x by (simp add: supported_names_def)
qed (auto simp: supported_names_def split: option.splits)



text \<open>In a url-test group without a manual choice, the node used was measured, and no supported node has
  a smaller measured delay.\<close>

theorem url_test_picks_least:
  assumes "\<forall>s. selected = Some s \<longrightarrow> s \<notin> set (map fst m)" "map_of m n = Some x" "isSupported num_str x"
    "lat n = Some (Some d)"
  shows "\<exists>b y bd. resolveNode num_str ''url-test'' m selected lat = Some y \<and> map_of m b = Some y
     \<and> isSupported num_str y \<and> lat b = Some (Some bd) \<and> bd \<le> d"
proof -
  have "n \<in> set (supported_names num_str m)" using assms(2,3) by (auto simp: supported_names_in)
  then obtain b bd where b: "best_node lat (supported_names num_str m) None = Some (b, bd)" "bd \<le> d"
    using best_node_start(2) assms(4) by blast
  then have "lat b = Some (Some bd)" "b \<in> set (supported_names num_str m)" using best_node_start(1) by blast+
  moreover have "\<not> (case selected of Some s \<Rightarrow> s \<in> set (map fst m) | None \<Rightarrow> False)"
    using assms(1) by (auto split: option.splits)
  moreover have "m \<noteq> []" using assms(2) by auto
  ultimately show ?thesis using b by (auto simp: resolveNode_def supported_names_in)
qed

theorem url_test_picks_least_witness:
  "let m = [(''a'', JObj [(''type'', JStr ''ss'')]), (''b'', JObj [(''type'', JStr ''ss'')])] in
   \<exists>b y bd. resolveNode (\<lambda>n. []) ''url-test'' m None [''a'' \<mapsto> Some 90, ''b'' \<mapsto> Some 30] = Some y \<and> map_of m b = Some y
     \<and> isSupported (\<lambda>n. []) y \<and> [''a'' \<mapsto> Some 90, ''b'' \<mapsto> Some 30] b = Some (Some bd) \<and> bd \<le> (30 :: nat)"
proof -
  have "isSupported (\<lambda>n. []) (JObj [(''type'', JStr ''ss'')])" by code_simp
  then show ?thesis unfolding Let_def
    by (intro url_test_picks_least[where n = "''b''" and x = "JObj [(''type'', JStr ''ss'')]"]) simp_all
qed

section \<open>Groups\<close>

lemma keep_member_iff:
  "keep_member ns x \<longleftrightarrow> (\<exists>n. x = JStr n \<and> (n \<in> set ns \<or> n = ''DIRECT'' \<or> n = ''REJECT''))"
  by (cases x) (auto simp: keep_member_def)

lemma shown_group_members:
  assumes "g \<in> set (shown_groups gt p)"
  shows "get_prop g ''proxies'' = JArr (array_prop g ''proxies'') \<and> array_prop g ''proxies'' \<noteq> []
    \<and> (\<forall>x \<in> set (array_prop g ''proxies''). keep_member (sub_names p) x)"
proof -
  have clean: "\<forall>g \<in> set (sanitizeGroups gs ns). get_prop g ''proxies'' = JArr (array_prop g ''proxies'')
      \<and> array_prop g ''proxies'' \<noteq> [] \<and> (\<forall>x \<in> set (array_prop g ''proxies''). keep_member ns x)" for gs ns
  proof (induction gs)
    case (Cons g gs)
    show ?case
    proof (cases g)
      case (JObj ps)
      then show ?thesis using Cons by (auto simp: Let_def array_prop_def get_set_prop elems_def)
    qed (use Cons in \<open>simp_all add: Let_def\<close>)
  qed simp
  consider "g = auto_group gt (sub_names p)" "sub_names p \<noteq> []" | "g \<in> set (sanitizeGroups (sub_groups p) (sub_names p))"
    using assms by (auto simp: shown_groups_def Let_def split: if_splits)
  then show ?thesis
  proof cases
    case 1
    then show ?thesis by (auto simp: auto_group_def array_prop_def elems_def keep_member_def)
  qed (use clean in blast)
qed

text \<open>Every group the page shows has members, and each of them is a node of the node table or one of
  DIRECT and REJECT; a subscription with nodes always has an AUTO group.\<close>

theorem shown_groups_resolve:
  assumes "parsed_ok p"
  shows "(\<forall>v \<in> set (groups num_str gt (Some p) selected lat). \<exists>ms. g_all v = JArr ms \<and> ms \<noteq> []
       \<and> (\<forall>x \<in> set ms. \<exists>n. x = JStr n \<and> (n \<in> set (map fst (nodeMap (Some p))) \<or> n = ''DIRECT'' \<or> n = ''REJECT'')))
     \<and> (sub_names p \<noteq> [] \<longrightarrow> (\<exists>v \<in> set (groups num_str gt (Some p) selected lat). g_name v = JStr ''AUTO''))"
proof (intro conjI impI)
  show "\<forall>v \<in> set (groups num_str gt (Some p) selected lat). \<exists>ms. g_all v = JArr ms \<and> ms \<noteq> []
       \<and> (\<forall>x \<in> set ms. \<exists>n. x = JStr n \<and> (n \<in> set (map fst (nodeMap (Some p))) \<or> n = ''DIRECT'' \<or> n = ''REJECT''))"
  proof
    fix v assume "v \<in> set (groups num_str gt (Some p) selected lat)"
    then obtain g where "g \<in> set (shown_groups gt p)" "g_all v = get_prop g ''proxies''"
      by (auto simp: groups_def view_group_def)
    then show "\<exists>ms. g_all v = JArr ms \<and> ms \<noteq> [] \<and> (\<forall>x \<in> set ms. \<exists>n. x = JStr n
        \<and> (n \<in> set (map fst (nodeMap (Some p))) \<or> n = ''DIRECT'' \<or> n = ''REJECT''))"
      using shown_group_members unfolding nodeMap_names[OF assms] keep_member_iff by metis
  qed
  show "\<exists>v \<in> set (groups num_str gt (Some p) selected lat). g_name v = JStr ''AUTO''" if "sub_names p \<noteq> []"
  proof -
    have "list_ex is_auto (shown_groups gt p)"
      using that by (auto simp: shown_groups_def Let_def is_auto_def auto_group_def)
    then show ?thesis by (auto simp: groups_def view_group_def list_ex_iff is_auto_def)
  qed
qed

theorem shown_groups_resolve_witness:
  "let p = read_document (JObj [(''proxies'', JArr [JObj [(''name'', JStr ''a'')]])]) in
   \<exists>v \<in> set (groups (\<lambda>n. []) ''select'' (Some p) None Map.empty). g_name v = JStr ''AUTO''"
proof -
  let ?p = "read_document (JObj [(''proxies'', JArr [JObj [(''name'', JStr ''a'')]])])"
  have "sub_names ?p = [''a'']" by code_simp
  then show ?thesis using shown_groups_resolve[OF read_document_ok] by (simp add: Let_def)
qed

section \<open>Supported types\<close>

text \<open>The manager and the dispatch agree on what is supported, with the native connector present: a node
  whose type is a string can be connected through exactly when the manager counts it as supported, or it is
  the pseudo-type direct, or it is spelled \<open>hy2\<close>, which the dispatch takes and the manager does not.\<close>

theorem supported_types_agree:
  assumes "get_prop node ''type'' = JStr t" "\<not> is_nullish node" "\<not> is_str node"
  shows "(\<exists>r. connect_route num_str True node = Inr r)
    \<longleftrightarrow> isSupported num_str node \<or> t = ''direct'' \<or> t = ''Direct'' \<or> toLowerCase t = ''hy2''"
  using assms by (auto simp: connect_route_def isSupported_def SUPPORTED_TYPES_def Let_def)

theorem supported_types_agree_witness:
  "(\<exists>r. connect_route (\<lambda>n. []) True (JObj [(''type'', JStr ''HY2'')]) = Inr r)
    \<longleftrightarrow> isSupported (\<lambda>n. []) (JObj [(''type'', JStr ''HY2'')]) \<or> ''HY2'' = ''direct'' \<or> ''HY2'' = ''Direct'' \<or> toLowerCase ''HY2'' = ''hy2''"
  by (rule supported_types_agree) (simp_all add: is_nullish_def is_str_def)


section \<open>The worker pool\<close>

definition busy :: "worker \<Rightarrow> nat multiset" where
  "busy w = (case w of Testing i \<Rightarrow> {#i#} | _ \<Rightarrow> {#})"

definition in_flight :: "pool \<Rightarrow> nat multiset" where
  "in_flight p = \<Sum>\<^sub># (image_mset busy (mset (workers p)))"

lemma in_flight_update:
  assumes "w < length ws"
  shows "\<Sum>\<^sub># (image_mset busy (mset (ws[w := x]))) + busy (ws ! w) = \<Sum>\<^sub># (image_mset busy (mset ws)) + busy x"
proof -
  have "ws ! w \<in># mset ws" using assms by simp
  then have "image_mset busy (mset ws) = add_mset (busy (ws ! w)) (image_mset busy (mset ws - {#ws ! w#}))"
    by (metis image_mset_add_mset insert_DiffM)
  then show ?thesis using assms by (simp add: mset_update)
qed

text \<open>
  The invariant: the indices taken so far are each either being tested or have their result, once;
  a worker only gives up when no index is left.
\<close>

definition pool_inv :: "string list \<Rightarrow> (string \<Rightarrow> nat option) \<Rightarrow> nat \<Rightarrow> pool \<Rightarrow> bool" where
  "pool_inv xs test k p \<longleftrightarrow>
     length (workers p) = k
     \<and> (Finished \<in> set (workers p) \<longrightarrow> length xs \<le> cursor p)
     \<and> (\<exists>js. results p = map (\<lambda>i. (xs ! i, test (xs ! i))) js
          \<and> mset js + in_flight p = mset [0..<min (cursor p) (length xs)])"

lemma pool_inv_start: "pool_inv xs test (min k (length xs)) (start_pool xs k)"
proof -
  have "\<Sum>\<^sub># (image_mset busy (mset (replicate n Idle))) = {#}" for n
    by (induction n) (auto simp: busy_def)
  then show ?thesis by (auto simp: pool_inv_def start_pool_def in_flight_def)
qed

lemma pool_inv_step:
  assumes "pool_step xs test p p'" "pool_inv xs test k p"
  shows "pool_inv xs test k p'"
  using assms
proof (induction rule: pool_step.induct)
  case (take_index w p)
  let ?p = "p\<lparr>workers := (workers p)[w := Testing (cursor p)], cursor := Suc (cursor p)\<rparr>"
  have "in_flight ?p = in_flight p + {#cursor p#}"
    using in_flight_update[OF take_index(1), of "Testing (cursor p)"] take_index(2)
    by (simp add: in_flight_def busy_def)
  moreover have "mset [0..<min (Suc (cursor p)) (length xs)] = mset [0..<min (cursor p) (length xs)] + {#cursor p#}"
    using take_index(3) by (simp add: min_def)
  moreover have "Finished \<notin> set (workers ?p)"
    using take_index by (auto simp: pool_inv_def dest!: subsetD[OF set_update_subset_insert])
  ultimately show ?case using take_index(4) by (auto simp: pool_inv_def)
next
  case (finish w p)
  let ?p = "p\<lparr>workers := (workers p)[w := Finished], cursor := Suc (cursor p)\<rparr>"
  have "in_flight ?p = in_flight p"
    using in_flight_update[OF finish(1), of Finished] finish(2) by (simp add: in_flight_def busy_def)
  moreover have "min (Suc (cursor p)) (length xs) = min (cursor p) (length xs)" using finish(3) by simp
  ultimately show ?case using finish(3,4) by (auto simp: pool_inv_def)
next
  case (store w p i)
  let ?p = "p\<lparr>workers := (workers p)[w := Idle], results := results p @ [(xs ! i, test (xs ! i))]\<rparr>"
  have f: "in_flight p = in_flight ?p + {#i#}"
    using in_flight_update[OF store(1), of Idle] store(2) by (simp add: in_flight_def busy_def)
  obtain js where js: "results p = map (\<lambda>i. (xs ! i, test (xs ! i))) js"
      "mset js + in_flight p = mset [0..<min (cursor p) (length xs)]"
    using store(3) by (auto simp: pool_inv_def)
  have "Finished \<in> set (workers ?p) \<Longrightarrow> Finished \<in> set (workers p)"
    by (auto dest!: subsetD[OF set_update_subset_insert])
  then show ?case using store(3) js f
    by (auto simp: pool_inv_def intro!: exI[of _ "js @ [i]"])
qed

lemma pool_inv_reach:
  "(pool_step xs test)\<^sup>*\<^sup>* p p' \<Longrightarrow> pool_inv xs test k p \<Longrightarrow> pool_inv xs test k p'"
  by (induction rule: rtranclp_induct) (auto intro: pool_inv_step)

text \<open>A measure that every step decreases: work left to take, twice, and workers not idle or not done.\<close>

definition worker_cost :: "worker \<Rightarrow> nat" where
  "worker_cost w = (case w of Idle \<Rightarrow> 1 | Testing i \<Rightarrow> 2 | Finished \<Rightarrow> 0)"

definition pool_left :: "string list \<Rightarrow> pool \<Rightarrow> nat" where
  "pool_left xs p = 2 * (length xs - cursor p) + sum_list (map worker_cost (workers p))"

lemma pool_left_step: "pool_step xs test p p' \<Longrightarrow> pool_left xs p' < pool_left xs p"
proof (induction rule: pool_step.induct)
  case (take_index w p)
  then show ?case using sum_list_map_update[OF take_index(1), of worker_cost "Testing (cursor p)"]
    by (simp add: pool_left_def worker_cost_def)
next
  case (finish w p)
  then show ?case using sum_list_map_update[OF finish(1), of worker_cost Finished]
    by (simp add: pool_left_def worker_cost_def)
next
  case (store w p i)
  then show ?case using sum_list_map_update[OF store(1), of worker_cost Idle]
    by (simp add: pool_left_def worker_cost_def)
qed

lemma pool_progress:
  assumes "\<not> (\<forall>w \<in> set (workers p). w = Finished)"
  shows "\<exists>p'. pool_step xs test p p'"
proof -
  obtain w where w: "w < length (workers p)" "workers p ! w \<noteq> Finished"
    using assms by (metis in_set_conv_nth)
  then show ?thesis
  proof (cases "workers p ! w")
    case Idle
    then show ?thesis using w(1) pool_step.take_index[of w p xs] pool_step.finish[of w p xs]
      by (cases "cursor p < length xs") (auto simp: not_less)
  qed (use w pool_step.store in blast)+
qed

lemma pool_step_active: "pool_step xs test p p' \<Longrightarrow> \<exists>w \<in> set (workers p). w \<noteq> Finished"
  by (induction rule: pool_step.induct) (metis nth_mem worker.distinct)+

interpretation pool_run: run_down "pool_step xs test" "pool_left xs" "\<lambda>p. \<forall>w \<in> set (workers p). w = Finished" for xs test
  by unfold_locales (use pool_left_step pool_progress pool_step_active in blast)+

text \<open>C28. Testing all nodes with a pool of workers: however their steps interleave, the run cannot get stuck
  or go on for ever, and once every worker is done each name of the list was tested exactly once and has its
  own result.\<close>

theorem latency_pool_complete:
  assumes "0 < k" "(pool_step xs test)\<^sup>*\<^sup>* (start_pool xs k) p"
  shows "((\<forall>w \<in> set (workers p). w = Finished) \<longrightarrow>
            mset (results p) = mset (map (\<lambda>x. (x, test x)) xs))
    \<and> ((\<exists>p'. pool_step xs test p p') \<longleftrightarrow> \<not> (\<forall>w \<in> set (workers p). w = Finished))
    \<and> (\<exists>p'. (pool_step xs test)\<^sup>*\<^sup>* p p' \<and> (\<forall>w \<in> set (workers p'). w = Finished))
    \<and> wfP (\<lambda>p' p. pool_step xs test p p')"
proof (intro conjI)
  have inv: "pool_inv xs test (min k (length xs)) p" by (rule pool_inv_reach[OF assms(2) pool_inv_start])
  show "(\<forall>w \<in> set (workers p). w = Finished) \<longrightarrow> mset (results p) = mset (map (\<lambda>x. (x, test x)) xs)"
  proof
    assume fin: "\<forall>w \<in> set (workers p). w = Finished"
    have "image_mset busy (mset (workers p)) = image_mset (\<lambda>w. {#}) (mset (workers p))"
    proof (rule image_mset_cong)
      fix w assume "w \<in># mset (workers p)"
      then have "w = Finished" using fin by auto
      then show "busy w = {#}" by (simp add: busy_def)
    qed
    then have "in_flight p = {#}" by (simp add: in_flight_def)
    moreover have "length xs \<le> cursor p"
    proof (cases "xs = []")
      case False
      then have "0 < min k (length xs)" using assms(1) by simp
      moreover have "length (workers p) = min k (length xs)" using inv by (simp add: pool_inv_def)
      ultimately have "workers p \<noteq> []" by (metis length_greater_0_conv)
      then have "Finished \<in> set (workers p)" using fin by (cases "workers p") auto
      then show ?thesis using inv by (simp add: pool_inv_def)
    qed simp
    ultimately obtain js where js: "results p = map (\<lambda>i. (xs ! i, test (xs ! i))) js" "mset js = mset [0..<length xs]"
      using inv by (auto simp: pool_inv_def)
    have "mset (results p) = image_mset (\<lambda>i. (xs ! i, test (xs ! i))) (mset [0..<length xs])"
      unfolding js(2)[symmetric] by (simp add: js(1))
    also have "\<dots> = mset (map (\<lambda>x. (x, test x)) (map (\<lambda>i. xs ! i) [0..<length xs]))" by (simp add: comp_def)
    finally show "mset (results p) = mset (map (\<lambda>x. (x, test x)) xs)" by (simp only: map_nth)
  qed
  show "(\<exists>p'. pool_step xs test p p') \<longleftrightarrow> \<not> (\<forall>w \<in> set (workers p). w = Finished)"
    using pool_run.stuck_iff_over by blast
qed (rule pool_run.can_finish pool_run.runs_end)+

theorem latency_pool_complete_witness:
  "let p = \<lparr>cursor = 2, workers = [Finished], results = [(''a'', Some 5)]\<rparr> in
   mset (results p) = mset (map (\<lambda>x. (x, (\<lambda>_. Some 5) x)) [''a''])"
proof -
  let ?t = "\<lambda>_. Some 5 :: nat option"
  let ?p1 = "\<lparr>cursor = 1, workers = [Testing 0], results = []\<rparr>"
  let ?p2 = "\<lparr>cursor = 1, workers = [Idle], results = [(''a'', Some 5)]\<rparr>"
  let ?p3 = "\<lparr>cursor = 2, workers = [Finished], results = [(''a'', Some 5)]\<rparr>"
  have 1: "pool_step [''a''] ?t (start_pool [''a''] 8) ?p1"
    using pool_step.take_index[of 0 "start_pool [''a''] 8" "[''a'']" ?t] by (simp add: start_pool_def)
  have 2: "pool_step [''a''] ?t ?p1 ?p2" using pool_step.store[of 0 ?p1 0 "[''a'']" ?t] by simp
  have 3: "pool_step [''a''] ?t ?p2 ?p3" using pool_step.finish[of 0 ?p2 "[''a'']" ?t] by (simp add: numeral_2_eq_2)
  have "(pool_step [''a''] ?t)\<^sup>*\<^sup>* (start_pool [''a''] 8) ?p3" using 1 2 3 by (meson converse_rtranclp_into_rtranclp rtranclp.rtrancl_refl)
  then show ?thesis using latency_pool_complete[of 8 "[''a'']" ?t ?p3] by (simp add: Let_def)
qed

end
