(* ===== verification/Manager.thy ===== *)
theory Manager
  imports Nodes Inject Rules
begin

text \<open>
  The lifecycle of \<open>lib/core/manager.js\<close>: the fields of \<open>ClashManager\<close> with the part of the world they
  act on, the queued operations start, stop, restart and update, loading and persisting, timers, node
  selection, and the browser API. What an operation awaits (the fetch, the disk, the listening port,
  the module import) is the argument \<open>boot\<close>.
\<close>

section \<open>State\<close>

datatype mstate = Stopped | Starting | Running | Disabled | NoSubscription | Failed

record sub_state =
  updatedAt :: jsval
  body :: parsed

text \<open>
  The fields of the manager, and what it acts on: the process (environment, fetch, dispatcher), the
  servers still listening, the live timers with their periods, its three files, and the rounds of
  latency tests it has set going without waiting for them.
\<close>

record manager =
  m_state :: mstate
  m_error :: "string option"
  runtimeOff :: bool
  applied :: "config option"
  subscription :: "sub_state option"
  m_engine :: "engine option"
  server :: "nat option"
  selected :: "string option"
  m_latencies :: latencies
  undoEnv :: "snapshot option"
  undoDispatcher :: "undo option"
  autoUpdate :: "nat option"
  latencyTimer :: "nat option"
  m_port :: nat
  traffic :: "nat \<times> nat \<times> nat"
  process :: host_world
  listening :: "nat list"
  timers :: "(nat \<times> nat) list"
  fresh :: nat
  cache_file :: "string option"
  meta_file :: "(nat \<times> string) option"
  state_file :: "string option option"
  background :: "string list list"

text \<open>The parsers of a subscription, and the outcomes an operation waits for.\<close>

record parsers =
  p_decode64 :: "string \<Rightarrow> string"
  p_yaml :: "string \<Rightarrow> jsval option"

record boot =
  b_now :: nat
  b_url_env :: "string option"
  b_fetch :: "string \<Rightarrow> error + string"
  b_disk :: "error option"
  b_listen :: "error + nat"
  b_undici :: "undici option"

section \<open>Disposing\<close>

definition disposeAutoUpdate :: "manager \<Rightarrow> manager" where
  "disposeAutoUpdate m =
     (case autoUpdate m of
        None \<Rightarrow> m
      | Some t \<Rightarrow> m\<lparr>timers := filter (\<lambda>x. fst x \<noteq> t) (timers m), autoUpdate := None\<rparr>)"

definition disposeLatencyTimer :: "manager \<Rightarrow> manager" where
  "disposeLatencyTimer m =
     (case latencyTimer m of
        None \<Rightarrow> m
      | Some t \<Rightarrow> m\<lparr>timers := filter (\<lambda>x. fst x \<noteq> t) (timers m), latencyTimer := None\<rparr>)"

text \<open>\<open>await this.#undoDispatcher?.()\<close> then \<open>this.#undoEnv?.()\<close>, with both fields cleared.\<close>

definition undo_process :: "undo option \<Rightarrow> snapshot option \<Rightarrow> host_world \<Rightarrow> host_world" where
  "undo_process ud ue w =
     (let w1 = (case ud of None \<Rightarrow> w | Some u \<Rightarrow> run_undo u w)
      in case ue of None \<Rightarrow> w1 | Some s \<Rightarrow> undo_env s w1)"

definition undo_injection :: "manager \<Rightarrow> manager" where
  "undo_injection m =
     m\<lparr>process := undo_process (undoDispatcher m) (undoEnv m) (process m), undoDispatcher := None, undoEnv := None\<rparr>"

definition close_server :: "manager \<Rightarrow> manager" where
  "close_server m =
     (case server m of None \<Rightarrow> m | Some s \<Rightarrow> m\<lparr>listening := filter (\<lambda>x. x \<noteq> s) (listening m), server := None\<rparr>)"

section \<open>The subscription and the saved selection\<close>

definition load_from :: "parsers \<Rightarrow> jsval \<Rightarrow> string \<Rightarrow> manager \<Rightarrow> manager \<times> error option" where
  "load_from P at raw m =
     (case parseSubscription (p_decode64 P) (p_yaml P) raw of
        Inl e \<Rightarrow> (m, Some e)
      | Inr p \<Rightarrow> (m\<lparr>subscription := Some \<lparr>updatedAt = at, body = p\<rparr>\<rparr>, None))"

definition subscription_url :: "boot \<Rightarrow> config \<Rightarrow> string" where
  "subscription_url b cfg =
     (if subscriptionUrl cfg \<noteq> [] then subscriptionUrl cfg
      else case b_url_env b of Some u \<Rightarrow> u | None \<Rightarrow> [])"

definition loadSubscription :: "parsers \<Rightarrow> boot \<Rightarrow> config \<Rightarrow> bool \<Rightarrow> manager \<Rightarrow> manager \<times> error option" where
  "loadSubscription P b cfg force m =
     (let url = subscription_url b cfg in
      if \<not> force \<and> subscription m \<noteq> None then (m, None)
      else if url \<noteq> [] then
        (case b_fetch b url of
           Inl e \<Rightarrow> (m, Some e)
         | Inr raw \<Rightarrow>
             (case b_disk b of
                Some e \<Rightarrow> (m, Some e)
              | None \<Rightarrow>
                  load_from P (JNum (Fin (int (b_now b)) 0)) raw
                    (m\<lparr>cache_file := Some raw, meta_file := Some (b_now b, url)\<rparr>)))
      else
        (case cache_file m of
           None \<Rightarrow> (m\<lparr>subscription := None, m_state := NoSubscription\<rparr>, None)
         | Some cached \<Rightarrow>
             (if trim cached = [] then (m\<lparr>subscription := None, m_state := NoSubscription\<rparr>, None)
              else load_from P (case meta_file m of Some (at, _) \<Rightarrow> JNum (Fin (int at) 0) | None \<Rightarrow> JNull) cached m)))"

definition saveState :: "boot \<Rightarrow> manager \<Rightarrow> manager" where
  "saveState b m = (if b_disk b = None then m\<lparr>state_file := Some (selected m)\<rparr> else m)"

definition loadState :: "manager \<Rightarrow> manager" where
  "loadState m = (case state_file m of Some (Some s) \<Rightarrow> m\<lparr>selected := Some s\<rparr> | _ \<Rightarrow> m)"

section \<open>Timers\<close>

definition scheduleAutoUpdate :: "config \<Rightarrow> manager \<Rightarrow> manager" where
  "scheduleAutoUpdate cfg m =
     (let m1 = disposeAutoUpdate m; hours = autoUpdateHours cfg in
      if hours = 0 then m1
      else m1\<lparr>timers := (fresh m1, hours * 3600 * 1000) # timers m1, autoUpdate := Some (fresh m1),
              fresh := Suc (fresh m1)\<rparr>)"

definition scheduleLatencyTests :: "config \<Rightarrow> manager \<Rightarrow> manager" where
  "scheduleLatencyTests cfg m =
     (let m1 = disposeLatencyTimer m in
      if groupType cfg \<noteq> ''url-test'' then m1
      else m1\<lparr>timers := (fresh m1, 300 * 1000) # timers m1, latencyTimer := Some (fresh m1),
              fresh := Suc (fresh m1)\<rparr>)"

section \<open>Booting\<close>

text \<open>The \<open>catch\<close> of \<open>#startCore\<close>.\<close>

definition boot_failed :: "error \<Rightarrow> manager \<Rightarrow> manager" where
  "boot_failed e m =
     undo_injection ((close_server (m\<lparr>m_state := Failed, m_error := Some (error_message e)\<rparr>))\<lparr>server := None\<rparr>)"

text \<open>From the loaded subscription on: engine, server, injection, timers.\<close>

definition open_proxy :: "boot \<Rightarrow> config \<Rightarrow> parsed \<Rightarrow> manager \<Rightarrow> manager" where
  "open_proxy b cfg p m =
     (let m1 = m\<lparr>m_engine := Some (mk_engine (map JStr (extraRules cfg)) (excludeRules cfg) (sub_rules p)),
                 server := Some (fresh m), fresh := Suc (fresh m)\<rparr> in
      case b_listen b of
        Inl e \<Rightarrow> boot_failed e m1
      | Inr bound \<Rightarrow>
          (let m2 = m1\<lparr>listening := fresh m # listening m1, m_port := bound\<rparr>;
               (w1, saved) = inst_env (show_nat bound) (Some (noProxy cfg)) (process m2);
               (w2, undoer) = installFetchDispatcher (b_undici b) w1;
               m3 = m2\<lparr>process := w2, undoEnv := Some saved, undoDispatcher := Some undoer,
                       m_state := Running, m_error := None\<rparr>
           in scheduleLatencyTests cfg (scheduleAutoUpdate cfg m3)))"

definition startCore :: "parsers \<Rightarrow> boot \<Rightarrow> config \<Rightarrow> manager \<Rightarrow> manager" where
  "startCore P b cfg m =
     (let m1 = undo_injection (m\<lparr>m_state := Starting, m_error := None\<rparr>) in
      case loadSubscription P b cfg False m1 of
        (m2, Some e) \<Rightarrow> boot_failed e m2
      | (m2, None) \<Rightarrow>
          (case subscription m2 of
             None \<Rightarrow> m2\<lparr>m_state := NoSubscription\<rparr>
           | Some s \<Rightarrow> open_proxy b cfg (body s) (loadState m2)))"

section \<open>Operations\<close>

definition op_start :: "parsers \<Rightarrow> boot \<Rightarrow> config \<Rightarrow> manager \<Rightarrow> manager" where
  "op_start P b cfg m =
     (if server m \<noteq> None \<or> \<not> enabled cfg \<or> runtimeOff m
      then m\<lparr>m_state := if \<not> enabled cfg \<or> runtimeOff m then Disabled else m_state m\<rparr>
      else startCore P b cfg m)"

definition op_stop :: "manager \<Rightarrow> manager" where
  "op_stop m =
     (let m1 = close_server (undo_injection (disposeLatencyTimer (disposeAutoUpdate m))) in
      m1\<lparr>m_engine := None, m_port := 0,
         m_state := if m_state m1 \<noteq> Disabled \<and> m_state m1 \<noteq> NoSubscription then Stopped else m_state m1\<rparr>)"

text \<open>
  The body of \<open>restart()\<close>. When the proxy is disabled it changes nothing itself: it calls and awaits
  \<open>stop()\<close>, which is queued behind it (see the theory \<open>OpQueue\<close>).
\<close>

definition op_restart :: "parsers \<Rightarrow> boot \<Rightarrow> config \<Rightarrow> manager \<Rightarrow> manager" where
  "op_restart P b cfg m = (if \<not> enabled cfg \<or> runtimeOff m then m else startCore P b cfg m)"

text \<open>
  \<open>updateSubscription()\<close>, and the exception its caller gets. After the boot a round of latency tests over
  all nodes is started and not awaited.
\<close>

definition launch_tests :: "manager \<Rightarrow> manager" where
  "launch_tests m =
     (case subscription m of
        None \<Rightarrow> m
      | Some s \<Rightarrow> m\<lparr>background := background m @ [map fst (nodeMap (Some (body s)))]\<rparr>)"

definition op_update :: "parsers \<Rightarrow> boot \<Rightarrow> config \<Rightarrow> manager \<Rightarrow> manager \<times> error option" where
  "op_update P b cfg m =
     (if \<not> enabled cfg then (m, None)
      else case loadSubscription P b cfg True m of
             (m1, Some e) \<Rightarrow> (m1, Some e)
           | (m1, None) \<Rightarrow> (launch_tests (startCore P b cfg m1), None))"

definition selectNode :: "boot \<Rightarrow> string \<Rightarrow> manager \<Rightarrow> manager \<times> error option" where
  "selectNode b n m =
     (if n \<notin> set (map fst (nodeMap (map_option body (subscription m)))) then (m, Some (Error (''unknown node '' @ n)))
      else (saveState b (m\<lparr>selected := Some n\<rparr>), None))"

definition testLatency :: "(jsval \<Rightarrow> nat option) \<Rightarrow> string \<Rightarrow> manager \<Rightarrow> nat option \<times> manager" where
  "testLatency ping n m =
     (let d = testOne ping (nodeMap (map_option body (subscription m))) n
      in (d, m\<lparr>m_latencies := (m_latencies m)(n \<mapsto> d)\<rparr>))"

text \<open>\<open>#refreshLatencies\<close>, which the latency timer calls: every node of the table, one after another.\<close>

definition refreshLatencies :: "(jsval \<Rightarrow> nat option) \<Rightarrow> manager \<Rightarrow> manager" where
  "refreshLatencies ping m =
     fold (\<lambda>n m. snd (testLatency ping n m)) (map fst (nodeMap (map_option body (subscription m)))) m"

definition clearLatencies :: "manager \<Rightarrow> manager" where
  "clearLatencies m = m\<lparr>m_latencies := Map.empty\<rparr>"

text \<open>
  \<open>reconcile\<close>: the operation to run for a new configuration. Its signature is the JSON of all ten fields
  of the configuration, so comparing signatures is comparing configurations.
\<close>

datatype operation = Start | Stop | Restart | Update

definition reconcile :: "config \<Rightarrow> manager \<Rightarrow> manager \<times> operation option" where
  "reconcile cfg m =
     (if applied m = Some cfg then (m, None)
      else (m\<lparr>applied := Some cfg\<rparr>, Some (if enabled cfg then Restart else Stop)))"

definition new_manager :: "host_world \<Rightarrow> manager" where
  "new_manager w =
     \<lparr>m_state = Stopped, m_error = None, runtimeOff = False, applied = None, subscription = None, m_engine = None,
      server = None, selected = None, m_latencies = Map.empty, undoEnv = None, undoDispatcher = None,
      autoUpdate = None, latencyTimer = None, m_port = 0, traffic = (0, 0, 0), process = w, listening = [],
      timers = [], fresh = 0, cache_file = None, meta_file = None, state_file = None,
      background = []\<rparr>"

section \<open>Runs\<close>

text \<open>What can happen to a manager, one event at a time: operations as the queue runs them, and the rest.\<close>

datatype event =
    EStart boot config
  | EStop
  | ERestart boot config
  | EUpdate boot config
  | ESelect boot string
  | ETest string "jsval \<Rightarrow> nat option"
  | ERefresh "jsval \<Rightarrow> nat option"
  | EClear
  | ERuntime bool
  | EReconcile config

fun mgr_step :: "parsers \<Rightarrow> event \<Rightarrow> manager \<Rightarrow> manager" where
  "mgr_step P (EStart b cfg) m = op_start P b cfg m"
| "mgr_step P EStop m = op_stop m"
| "mgr_step P (ERestart b cfg) m = op_restart P b cfg m"
| "mgr_step P (EUpdate b cfg) m = fst (op_update P b cfg m)"
| "mgr_step P (ESelect b n) m = fst (selectNode b n m)"
| "mgr_step P (ETest n ping) m = snd (testLatency ping n m)"
| "mgr_step P (ERefresh ping) m = refreshLatencies ping m"
| "mgr_step P EClear m = clearLatencies m"
| "mgr_step P (ERuntime on) m = m\<lparr>runtimeOff := \<not> on\<rparr>"
| "mgr_step P (EReconcile cfg) m = fst (reconcile cfg m)"

definition mgr_run :: "parsers \<Rightarrow> event list \<Rightarrow> manager \<Rightarrow> manager" where
  "mgr_run P evs m = fold (mgr_step P) evs m"


section \<open>An invariant of every operation\<close>

text \<open>
  Three facts hold together: undoing what is installed gives back the process as it was; every live timer is
  one the manager can dispose of; and a manager that says it is running has an engine, a subscription, its
  injection in place and its server listening.
\<close>

definition restorable :: "host_world \<Rightarrow> manager \<Rightarrow> bool" where
  "restorable w m \<longleftrightarrow>
     (let w' = undo_process (undoDispatcher m) (undoEnv m) (process m)
      in env_part w' = env_part w \<and> fetch_part w' = fetch_part w)"

definition timers_owned :: "manager \<Rightarrow> bool" where
  "timers_owned m \<longleftrightarrow> (\<forall>t \<in> fst ` set (timers m). autoUpdate m = Some t \<or> latencyTimer m = Some t)"

definition serving :: "manager \<Rightarrow> bool" where
  "serving m \<longleftrightarrow>
     (\<exists>s. server m = Some s \<and> s \<in> set (listening m)) \<and> m_engine m \<noteq> None \<and> subscription m \<noteq> None \<and> undoEnv m \<noteq> None"

definition mgr_inv :: "host_world \<Rightarrow> manager \<Rightarrow> bool" where
  "mgr_inv w m \<longleftrightarrow> restorable w m \<and> timers_owned m \<and> (m_state m = Running \<longrightarrow> serving m)"

lemma load_frame:
  assumes "loadSubscription P b cfg force m = (m', e)"
  shows "process m' = process m" "undoDispatcher m' = undoDispatcher m" "undoEnv m' = undoEnv m"
    "timers m' = timers m" "autoUpdate m' = autoUpdate m" "latencyTimer m' = latencyTimer m"
    "server m' = server m" "listening m' = listening m" "m_engine m' = m_engine m" "fresh m' = fresh m"
    "m_state m' = m_state m \<or> m_state m' = NoSubscription"
    "m_state m' \<noteq> NoSubscription \<Longrightarrow> subscription m \<noteq> None \<Longrightarrow> subscription m' \<noteq> None"
  using assms
  by (auto simp: loadSubscription_def load_from_def Let_def split: if_splits sum.splits option.splits)

lemma undo_injection_facts:
  "timers (undo_injection m) = timers m" "autoUpdate (undo_injection m) = autoUpdate m"
  "latencyTimer (undo_injection m) = latencyTimer m" "server (undo_injection m) = server m"
  "listening (undo_injection m) = listening m" "m_state (undo_injection m) = m_state m"
  "undoDispatcher (undo_injection m) = None" "undoEnv (undo_injection m) = None"
  "process (undo_injection m) = undo_process (undoDispatcher m) (undoEnv m) (process m)"
  by (simp_all add: undo_injection_def)

lemma undo_nothing [simp]: "undo_process None None w = w"
  by (simp add: undo_process_def)

lemma launch_tests_facts [simp]:
  "m_state (launch_tests m) = m_state m" "process (launch_tests m) = process m" "timers (launch_tests m) = timers m"
  "autoUpdate (launch_tests m) = autoUpdate m" "latencyTimer (launch_tests m) = latencyTimer m"
  "undoEnv (launch_tests m) = undoEnv m" "undoDispatcher (launch_tests m) = undoDispatcher m"
  "server (launch_tests m) = server m" "listening (launch_tests m) = listening m" "m_engine (launch_tests m) = m_engine m"
  "subscription (launch_tests m) = subscription m" "cache_file (launch_tests m) = cache_file m"
  "runtimeOff (launch_tests m) = runtimeOff m" "m_error (launch_tests m) = m_error m"
  by (simp_all add: launch_tests_def split: option.split)

lemma refreshLatencies_latencies: "\<exists>l. refreshLatencies ping m = m\<lparr>m_latencies := l\<rparr>"
proof -
  have "\<exists>l. fold (\<lambda>n m. snd (testLatency ping n m)) ns m = m\<lparr>m_latencies := l\<rparr>" for ns m
  proof (induction ns arbitrary: m)
    case Nil
    have "m = m\<lparr>m_latencies := m_latencies m\<rparr>" by simp
    then show ?case by (metis fold_simps(1))
  next
    case (Cons n ns)
    obtain l where "fold (\<lambda>n m. snd (testLatency ping n m)) ns (snd (testLatency ping n m))
        = (snd (testLatency ping n m))\<lparr>m_latencies := l\<rparr>" using Cons.IH by blast
    then show ?case by (auto simp: testLatency_def Let_def)
  qed
  then show ?thesis unfolding refreshLatencies_def .
qed

lemma inv_frame:
  assumes "mgr_inv w m" "process m' = process m" "undoDispatcher m' = undoDispatcher m" "undoEnv m' = undoEnv m"
    "timers m' = timers m" "autoUpdate m' = autoUpdate m" "latencyTimer m' = latencyTimer m"
    "m_state m' = Running \<longrightarrow> serving m'"
  shows "mgr_inv w m'"
  using assms by (simp add: mgr_inv_def restorable_def timers_owned_def)

lemma inv_undo:
  assumes "mgr_inv w m" "m_state m \<noteq> Running"
  shows "mgr_inv w (undo_injection m)"
  using assms by (simp add: mgr_inv_def restorable_def timers_owned_def undo_injection_facts)

lemma inv_boot_failed:
  assumes "restorable w m" "timers_owned m"
  shows "mgr_inv w (boot_failed e m)"
proof -
  have "mgr_inv w ((close_server (m\<lparr>m_state := Failed, m_error := Some (error_message e)\<rparr>))\<lparr>server := None\<rparr>)"
    using assms by (auto simp: mgr_inv_def restorable_def timers_owned_def close_server_def split: option.splits)
  moreover have "m_state ((close_server (m\<lparr>m_state := Failed, m_error := Some (error_message e)\<rparr>))\<lparr>server := None\<rparr>) = Failed"
    by (simp add: close_server_def split: option.splits)
  ultimately show ?thesis unfolding boot_failed_def by (intro inv_undo) simp_all
qed

lemma timers_scheduled:
  assumes "timers_owned m"
  shows "timers_owned (scheduleLatencyTests cfg (scheduleAutoUpdate cfg m))"
  using assms
  by (auto simp: timers_owned_def scheduleLatencyTests_def scheduleAutoUpdate_def disposeAutoUpdate_def
      disposeLatencyTimer_def Let_def split: option.splits)

lemma scheduled_frame:
  "process (scheduleLatencyTests cfg (scheduleAutoUpdate cfg m)) = process m"
  "undoEnv (scheduleLatencyTests cfg (scheduleAutoUpdate cfg m)) = undoEnv m"
  "undoDispatcher (scheduleLatencyTests cfg (scheduleAutoUpdate cfg m)) = undoDispatcher m"
  "server (scheduleLatencyTests cfg (scheduleAutoUpdate cfg m)) = server m"
  "listening (scheduleLatencyTests cfg (scheduleAutoUpdate cfg m)) = listening m"
  "m_engine (scheduleLatencyTests cfg (scheduleAutoUpdate cfg m)) = m_engine m"
  "subscription (scheduleLatencyTests cfg (scheduleAutoUpdate cfg m)) = subscription m"
  "m_state (scheduleLatencyTests cfg (scheduleAutoUpdate cfg m)) = m_state m"
  by (simp_all add: scheduleLatencyTests_def scheduleAutoUpdate_def disposeAutoUpdate_def disposeLatencyTimer_def
      Let_def split: option.splits)

lemma inv_open_proxy:
  assumes "mgr_inv w m" "undoEnv m = None" "undoDispatcher m = None" "subscription m \<noteq> None"
  shows "mgr_inv w (open_proxy b cfg p m)"
proof (cases "b_listen b")
  case (Inl e)
  let ?m1 = "m\<lparr>m_engine := Some (mk_engine (map JStr (extraRules cfg)) (excludeRules cfg) (sub_rules p)),
                 server := Some (fresh m), fresh := Suc (fresh m)\<rparr>"
  have "mgr_inv w (boot_failed e ?m1)"
    using assms by (intro inv_boot_failed) (simp_all add: mgr_inv_def restorable_def timers_owned_def)
  then show ?thesis using Inl by (simp add: open_proxy_def Let_def)
next
  case (Inr bound)
  define w0 where "w0 = process m"
  obtain w1 u where 1: "inst_env (show_nat bound) (Some (noProxy cfg)) w0 = (w1, u)" by force
  obtain w2 v where 2: "installFetchDispatcher (b_undici b) w1 = (w2, v)" by force
  have undone: "env_part (undo_env u (run_undo v w2)) = env_part w0" "fetch_part (undo_env u (run_undo v w2)) = fetch_part w0"
    using boot.nested_undo[OF 1 2] by simp_all
  have w0: "env_part w0 = env_part w" "fetch_part w0 = fetch_part w"
    using assms(1-3) by (simp_all add: mgr_inv_def restorable_def w0_def Let_def)
  let ?m1 = "m\<lparr>m_engine := Some (mk_engine (map JStr (extraRules cfg)) (excludeRules cfg) (sub_rules p)),
                 server := Some (fresh m), fresh := Suc (fresh m)\<rparr>"
  define m3 where "m3 = (?m1\<lparr>listening := fresh m # listening ?m1, m_port := bound\<rparr>)\<lparr>process := w2, undoEnv := Some u,
      undoDispatcher := Some v, m_state := Running, m_error := None\<rparr>"
  have o: "open_proxy b cfg p m = scheduleLatencyTests cfg (scheduleAutoUpdate cfg m3)"
    using Inr 1 2 by (simp add: open_proxy_def Let_def m3_def w0_def)
  have "restorable w m3" using undone w0 by (simp add: restorable_def undo_process_def m3_def Let_def)
  moreover have "timers_owned m3" using assms(1) by (simp add: mgr_inv_def timers_owned_def m3_def)
  moreover have "serving m3" using assms(4) by (simp add: serving_def m3_def)
  ultimately show ?thesis
    unfolding o mgr_inv_def using timers_scheduled by (simp add: restorable_def serving_def scheduled_frame)
qed

lemma inv_startCore:
  assumes "mgr_inv w m"
  shows "mgr_inv w (startCore P b cfg m)"
proof -
  define m0 where "m0 = undo_injection (m\<lparr>m_state := Starting, m_error := None\<rparr>)"
  have "mgr_inv w (m\<lparr>m_state := Starting, m_error := None\<rparr>)"
    by (rule inv_frame[OF assms]) simp_all
  then have inv0: "mgr_inv w m0" unfolding m0_def by (rule inv_undo) simp
  have u0: "undoEnv m0 = None" "undoDispatcher m0 = None" "m_state m0 = Starting"
    by (simp_all add: m0_def undo_injection_facts)
  obtain m2 e where l: "loadSubscription P b cfg False m0 = (m2, e)" by force
  note f = load_frame[OF l]
  have st: "m_state m2 \<noteq> Running" using f(11) u0 by auto
  then have inv2: "mgr_inv w m2" using f(1-6) by (intro inv_frame[OF inv0]) simp_all
  show ?thesis
  proof (cases e)
    case (Some e)
    then show ?thesis using l inv2 by (simp add: startCore_def Let_def m0_def[symmetric] mgr_inv_def[of w m2] inv_boot_failed)
  next
    case None
    show ?thesis
    proof (cases "subscription m2")
      case none: None
      have "mgr_inv w (m2\<lparr>m_state := NoSubscription\<rparr>)" by (rule inv_frame[OF inv2]) simp_all
      then show ?thesis using l None none by (simp add: startCore_def Let_def m0_def[symmetric])
    next
      case (Some s)
      have ls: "process (loadState m2) = process m2" "undoDispatcher (loadState m2) = undoDispatcher m2"
          "undoEnv (loadState m2) = undoEnv m2" "timers (loadState m2) = timers m2"
          "autoUpdate (loadState m2) = autoUpdate m2" "latencyTimer (loadState m2) = latencyTimer m2"
          "m_state (loadState m2) = m_state m2" "subscription (loadState m2) = subscription m2"
        by (simp_all add: loadState_def split: option.splits)
      have "mgr_inv w (loadState m2)" using st ls by (intro inv_frame[OF inv2]) simp_all
      then have "mgr_inv w (open_proxy b cfg (body s) (loadState m2))"
        using ls f(2,3) u0 Some by (intro inv_open_proxy) simp_all
      then show ?thesis using l None Some by (simp add: startCore_def Let_def m0_def[symmetric])
    qed
  qed
qed


lemma inv_op_stop:
  assumes "mgr_inv w m"
  shows "mgr_inv w (op_stop m) \<and> timers (op_stop m) = [] \<and> undoEnv (op_stop m) = None \<and> undoDispatcher (op_stop m) = None"
proof -
  define m1 where "m1 = disposeLatencyTimer (disposeAutoUpdate m)"
  have "x \<notin> set (timers m1)" for x
    using assms by (cases x) (auto simp: m1_def mgr_inv_def timers_owned_def disposeAutoUpdate_def disposeLatencyTimer_def
        split: option.splits)
  then have "timers m1 = []" by (metis last_in_set)
  then have t: "timers m1 = []" "process m1 = process m" "undoEnv m1 = undoEnv m" "undoDispatcher m1 = undoDispatcher m"
    by (auto simp: m1_def disposeAutoUpdate_def disposeLatencyTimer_def split: option.splits)
  have c: "timers (close_server x) = timers x" "process (close_server x) = process x"
    "undoEnv (close_server x) = undoEnv x" "undoDispatcher (close_server x) = undoDispatcher x" for x
    by (simp_all add: close_server_def split: option.splits)
  show ?thesis
    using assms t unfolding op_stop_def Let_def m1_def[symmetric]
    by (simp add: mgr_inv_def restorable_def timers_owned_def c undo_injection_facts Let_def)
qed

lemma inv_same:
  assumes "mgr_inv w m" "process m' = process m" "undoDispatcher m' = undoDispatcher m" "undoEnv m' = undoEnv m"
    "timers m' = timers m" "autoUpdate m' = autoUpdate m" "latencyTimer m' = latencyTimer m" "server m' = server m"
    "listening m' = listening m" "m_engine m' = m_engine m" "subscription m' = subscription m"
    "m_state m' = Running \<longrightarrow> m_state m = Running"
  shows "mgr_inv w m'"
  using assms by (intro inv_frame[OF assms(1)]) (auto simp: mgr_inv_def serving_def)

lemma inv_step:
  assumes "mgr_inv w m"
  shows "mgr_inv w (mgr_step P ev m)"
proof (cases ev)
  case (EStart b cfg)
  have "mgr_inv w (m\<lparr>m_state := Disabled\<rparr>)" "mgr_inv w (m\<lparr>m_state := m_state m\<rparr>)"
    by (rule inv_same[OF assms]; simp)+
  then show ?thesis using EStart inv_startCore[OF assms] by (simp add: op_start_def)
next
  case EStop
  then show ?thesis using inv_op_stop[OF assms] by simp
next
  case (ERestart b cfg)
  then show ?thesis using inv_startCore[OF assms] assms by (simp add: op_restart_def)
next
  case (EUpdate b cfg)
  obtain m1 e where l: "loadSubscription P b cfg True m = (m1, e)" by force
  note f = load_frame[OF l]
  have "m_state m1 = Running \<longrightarrow> serving m1"
    using assms f(3,7-12) by (auto simp: mgr_inv_def serving_def)
  then have "mgr_inv w m1" using f(1-6) by (intro inv_frame[OF assms]) simp_all
  moreover have "mgr_inv w x \<Longrightarrow> mgr_inv w (launch_tests x)" for x by (erule inv_same; simp)
  ultimately show ?thesis using EUpdate l assms inv_startCore by (cases e) (auto simp: op_update_def)
next
  case (ERefresh ping)
  obtain l where "refreshLatencies ping m = m\<lparr>m_latencies := l\<rparr>" using refreshLatencies_latencies by blast
  then show ?thesis using ERefresh by (intro inv_same[OF assms]) simp_all
next
  case (ESelect b n)
  then show ?thesis
    by (intro inv_same[OF assms]) (simp_all add: selectNode_def saveState_def)
qed (intro inv_same[OF assms]; simp add: testLatency_def clearLatencies_def reconcile_def Let_def)+

lemma inv_run: "mgr_inv w m \<Longrightarrow> mgr_inv w (mgr_run P evs m)"
  unfolding mgr_run_def by (induction evs arbitrary: m) (auto intro: inv_step)

lemma inv_new: "mgr_inv w (new_manager w)"
  by (simp add: mgr_inv_def restorable_def timers_owned_def new_manager_def)


section \<open>Properties\<close>

text \<open>C8. Whatever operations ran, in whatever order and with whatever outcomes, stopping gives the process
  back as the plugin found it: the proxy variables, the fetch function and the global dispatcher are the
  original ones, and no timer is left.\<close>

theorem stop_restores_process:
  "let m = op_stop (mgr_run P evs (new_manager w)) in
   env_part (process m) = env_part w \<and> fetch_part (process m) = fetch_part w \<and> timers m = []"
  using inv_op_stop[OF inv_run[OF inv_new, of w P evs]]
  by (auto simp: Let_def mgr_inv_def restorable_def)

text \<open>C9. When the status says running, it is true: there is a subscription, an engine built from it, the
  injected environment, and the server is listening.\<close>

theorem running_means_serving:
  assumes "m_state (mgr_run P evs (new_manager w)) = Running"
  shows "serving (mgr_run P evs (new_manager w))"
  using inv_run[OF inv_new, of w P evs] assms by (simp add: mgr_inv_def)

text \<open>How a boot can end.\<close>

lemma boot_failed_state:
  "m_state (boot_failed e m) = Failed" "server (boot_failed e m) = None"
  "m_error (boot_failed e m) = Some (error_message e)" "undoEnv (boot_failed e m) = None"
  by (simp_all add: boot_failed_def undo_injection_def close_server_def split: option.splits)

lemma scheduled_more:
  "m_error (scheduleLatencyTests cfg (scheduleAutoUpdate cfg m)) = m_error m"
  "runtimeOff (scheduleLatencyTests cfg (scheduleAutoUpdate cfg m)) = runtimeOff m"
  "fresh m \<le> fresh (scheduleLatencyTests cfg (scheduleAutoUpdate cfg m))"
  by (simp_all add: scheduleLatencyTests_def scheduleAutoUpdate_def disposeAutoUpdate_def disposeLatencyTimer_def
      Let_def split: option.splits)

lemma open_proxy_ok:
  assumes "b_listen b = Inr bound"
  shows "m_state (open_proxy b cfg p m) = Running" "server (open_proxy b cfg p m) = Some (fresh m)"
    "listening (open_proxy b cfg p m) = fresh m # listening m" "m_error (open_proxy b cfg p m) = None"
    "runtimeOff (open_proxy b cfg p m) = runtimeOff m" "subscription (open_proxy b cfg p m) = subscription m"
    "fresh m < fresh (open_proxy b cfg p m)"
proof -
  obtain w1 u where 1: "inst_env (show_nat bound) (Some (noProxy cfg)) (process m) = (w1, u)" by force
  obtain w2 v where 2: "installFetchDispatcher (b_undici b) w1 = (w2, v)" by force
  define m3 where "m3 = m\<lparr>m_engine := Some (mk_engine (map JStr (extraRules cfg)) (excludeRules cfg) (sub_rules p)),
      server := Some (fresh m), fresh := Suc (fresh m), listening := fresh m # listening m, m_port := bound,
      process := w2, undoEnv := Some u, undoDispatcher := Some v, m_state := Running, m_error := None\<rparr>"
  have "open_proxy b cfg p m = scheduleLatencyTests cfg (scheduleAutoUpdate cfg m3)"
    using assms 1 2 by (simp add: open_proxy_def Let_def m3_def)
  moreover have "m_state m3 = Running" "server m3 = Some (fresh m)" "listening m3 = fresh m # listening m" "m_error m3 = None"
    "runtimeOff m3 = runtimeOff m" "subscription m3 = subscription m" "fresh m3 = Suc (fresh m)"
    by (simp_all add: m3_def)
  ultimately show "m_state (open_proxy b cfg p m) = Running" "server (open_proxy b cfg p m) = Some (fresh m)"
    "listening (open_proxy b cfg p m) = fresh m # listening m" "m_error (open_proxy b cfg p m) = None"
    "runtimeOff (open_proxy b cfg p m) = runtimeOff m" "subscription (open_proxy b cfg p m) = subscription m"
    "fresh m < fresh (open_proxy b cfg p m)"
    using scheduled_more(3)[of m3 cfg] by (simp_all add: scheduled_frame scheduled_more)
qed

lemma open_proxy_failed:
  "b_listen b = Inl e \<Longrightarrow> \<exists>m'. open_proxy b cfg p m = boot_failed e m'"
  by (auto simp: open_proxy_def Let_def)


lemma loadState_frame:
  "listening (loadState m) = listening m" "fresh (loadState m) = fresh m" "subscription (loadState m) = subscription m"
  "runtimeOff (loadState m) = runtimeOff m"
  by (simp_all add: loadState_def split: option.splits)

lemma startCore_loaded:
  assumes "subscription m = Some sub"
  shows "startCore P b cfg m = open_proxy b cfg (body sub) (loadState (undo_injection (m\<lparr>m_state := Starting, m_error := None\<rparr>)))"
  using assms by (simp add: startCore_def Let_def loadSubscription_def undo_injection_def)

section \<open>A sample run\<close>

text \<open>Parsers, outcomes and a configuration for which a boot succeeds.\<close>

definition sample_document :: jsval where
  "sample_document = JObj [(''proxies'', JArr [JObj [(''name'', JStr ''a''), (''type'', JStr ''ss'')]])]"

definition sample_parsers :: parsers where
  "sample_parsers = \<lparr>p_decode64 = id, p_yaml = (\<lambda>s. if s = ''ok'' then Some sample_document else None)\<rparr>"

definition sample_boot :: "string \<Rightarrow> boot" where
  "sample_boot reply = \<lparr>b_now = 1, b_url_env = None, b_fetch = (\<lambda>u. Inr reply), b_disk = None, b_listen = Inr 7890, b_undici = None\<rparr>"

definition sample_config :: config where
  "sample_config = default_config\<lparr>subscriptionUrl := ''u''\<rparr>"

lemma sample_parse:
  "parseSubscription (p_decode64 sample_parsers) (p_yaml sample_parsers) ''ok'' = Inr (read_document sample_document)"
  by (simp add: parseSubscription_def sample_parsers_def sample_document_def is_document_def is_object_def Let_def)

lemma sample_boots:
  assumes "subscription m = None" "enabled cfg" "subscriptionUrl cfg = ''u''"
  defines "m' \<equiv> startCore sample_parsers (sample_boot ''ok'') cfg m"
  shows "m_state m' = Running \<and> server m' = Some (fresh m) \<and> listening m' = fresh m # listening m
     \<and> fresh m < fresh m' \<and> runtimeOff m' = runtimeOff m
     \<and> (\<exists>at. subscription m' = Some \<lparr>updatedAt = at, body = read_document sample_document\<rparr>)"
proof -
  define m2 where "m2 = (undo_injection (m\<lparr>m_state := Starting, m_error := None\<rparr>))
     \<lparr>cache_file := Some ''ok'', meta_file := Some (1, ''u''),
      subscription := Some \<lparr>updatedAt = JNum (Fin 1 0), body = read_document sample_document\<rparr>\<rparr>"
  have l: "loadSubscription sample_parsers (sample_boot ''ok'') cfg False (undo_injection (m\<lparr>m_state := Starting, m_error := None\<rparr>))
      = (m2, None)"
    using assms(1,3) sample_parse
    by (simp add: loadSubscription_def subscription_url_def load_from_def sample_boot_def undo_injection_def m2_def Let_def)
  have s: "subscription m2 = Some \<lparr>updatedAt = JNum (Fin 1 0), body = read_document sample_document\<rparr>" by (simp add: m2_def)
  have "m' = open_proxy (sample_boot ''ok'') cfg (read_document sample_document) (loadState m2)"
    using l s by (simp add: m'_def startCore_def Let_def)
  moreover have "b_listen (sample_boot ''ok'') = Inr 7890" by (simp add: sample_boot_def)
  moreover have "fresh (loadState m2) = fresh m" "listening (loadState m2) = listening m" "runtimeOff m2 = runtimeOff m"
    by (simp_all add: loadState_frame m2_def undo_injection_def)
  ultimately show ?thesis
    using s open_proxy_ok[where b = "sample_boot ''ok''" and bound = 7890 and cfg = cfg and p = "read_document sample_document" and m = "loadState m2"]
    by (auto simp: loadState_frame)
qed

theorem running_means_serving_witness:
  "let m = mgr_run sample_parsers [EStart (sample_boot ''ok'') sample_config]
       (new_manager \<lparr>env = Map.empty, fetch_fn = NativeFetch 0, dispatch = OtherDispatcher 0, made = 0\<rparr>)
   in m_state m = Running \<and> serving m"
proof -
  let ?w = "\<lparr>env = Map.empty, fetch_fn = NativeFetch 0, dispatch = OtherDispatcher 0, made = 0\<rparr>"
  let ?m = "mgr_run sample_parsers [EStart (sample_boot ''ok'') sample_config] (new_manager ?w)"
  have "?m = startCore sample_parsers (sample_boot ''ok'') sample_config (new_manager ?w)"
    by (simp add: mgr_run_def op_start_def sample_config_def default_config_def new_manager_def)
  then have "m_state ?m = Running"
    using sample_boots[of "new_manager ?w" sample_config] by (simp add: sample_config_def default_config_def new_manager_def)
  then show ?thesis using running_means_serving unfolding Let_def by blast
qed

text \<open>Restarting a running proxy leaks its listener: the new boot replaces the server without stopping the
  old one, which goes on listening, also after the manager is stopped.\<close>

theorem restart_leaks_listener:
  assumes "enabled cfg" "\<not> runtimeOff m" "server m = Some s" "s \<in> set (listening m)" "s < fresh m"
    "subscription m = Some sub" "b_listen b = Inr bound"
  shows "m_state (op_restart P b cfg m) = Running \<and> server (op_restart P b cfg m) \<noteq> Some s
     \<and> s \<in> set (listening (op_restart P b cfg m)) \<and> s \<in> set (listening (op_stop (op_restart P b cfg m)))"
proof -
  let ?m = "loadState (undo_injection (m\<lparr>m_state := Starting, m_error := None\<rparr>))"
  have f: "fresh ?m = fresh m" "listening ?m = listening m" by (simp_all add: loadState_frame undo_injection_def)
  have r: "op_restart P b cfg m = open_proxy b cfg (body sub) ?m"
    using assms(1,2) by (simp add: op_restart_def startCore_loaded[OF assms(6)])
  have stop: "listening (op_stop x) = filter (\<lambda>y. server x \<noteq> Some y) (listening x)" for x
    by (auto simp: op_stop_def Let_def close_server_def undo_injection_def disposeLatencyTimer_def disposeAutoUpdate_def
        split: option.splits intro: filter_cong)
  show ?thesis
    unfolding r stop using open_proxy_ok[OF assms(7), where cfg = cfg and p = "body sub" and m = ?m] assms(4,5) f by simp
qed

text \<open>The runtime switch does not hold against an update: while the proxy is switched off at run time,
  updating the subscription boots it again.\<close>

theorem update_ignores_runtime_switch:
  assumes "runtimeOff m" "enabled cfg" "subscription_url b cfg \<noteq> []" "b_fetch b (subscription_url b cfg) = Inr raw"
    "b_disk b = None" "parseSubscription (p_decode64 P) (p_yaml P) raw = Inr p" "b_listen b = Inr bound"
  shows "m_state (fst (op_update P b cfg m)) = Running \<and> runtimeOff (fst (op_update P b cfg m))"
proof -
  obtain m1 where l: "loadSubscription P b cfg True m = (m1, None)" "runtimeOff m1" "subscription m1 \<noteq> None"
    using assms by (auto simp: loadSubscription_def load_from_def Let_def)
  then obtain sub where "subscription m1 = Some sub" by blast
  then show ?thesis
    using l assms(2) startCore_loaded[of m1] open_proxy_ok[OF assms(7)]
    by (simp add: op_update_def loadState_frame undo_injection_def)
qed

text \<open>An update that fetches a body it cannot parse has already replaced the cached copy: the update
  fails and the loaded subscription stays, but a later process without a subscription URL cannot boot
  from the cache any more.\<close>

theorem unparsable_update_destroys_cache:
  assumes "enabled cfg" "subscription_url b cfg \<noteq> []" "b_fetch b (subscription_url b cfg) = Inr raw" "b_disk b = None"
    "parseSubscription (p_decode64 P) (p_yaml P) raw = Inl e" "trim raw \<noteq> []"
    "subscriptionUrl cfg' = []" "b_url_env b' = None"
  shows "snd (op_update P b cfg m) = Some e \<and> subscription (fst (op_update P b cfg m)) = subscription m
     \<and> m_state (startCore P b' cfg' ((new_manager w)\<lparr>cache_file := cache_file (fst (op_update P b cfg m))\<rparr>)) = Failed"
proof -
  have u: "op_update P b cfg m = (m\<lparr>cache_file := Some raw, meta_file := Some (b_now b, subscription_url b cfg)\<rparr>, Some e)"
    using assms by (simp add: op_update_def loadSubscription_def load_from_def Let_def)
  have "subscription_url b' cfg' = []" using assms(7,8) by (simp add: subscription_url_def)
  then have "m_state (startCore P b' cfg' ((new_manager w)\<lparr>cache_file := Some raw\<rparr>)) = Failed"
    using assms(5,6)
    by (simp add: startCore_def loadSubscription_def load_from_def Let_def undo_injection_def new_manager_def boot_failed_state
        split: option.splits)
  then show ?thesis by (simp add: u)
qed

text \<open>A selection survives a restart of the process: what was selected and saved is selected again when
  the state is loaded, and an unknown name is refused and changes nothing.\<close>

theorem selection_persists:
  "if n \<in> set (map fst (nodeMap (map_option body (subscription m)))) then
     b_disk b = None \<longrightarrow> selectNode b n m = (m\<lparr>selected := Some n, state_file := Some (Some n)\<rparr>, None)
       \<and> selected (loadState ((new_manager w)\<lparr>state_file := state_file (fst (selectNode b n m))\<rparr>)) = Some n
   else selectNode b n m = (m, Some (Error (''unknown node '' @ n)))"
  by (auto simp: selectNode_def saveState_def loadState_def)



theorem restart_leaks_listener_witness:
  "let m = startCore sample_parsers (sample_boot ''ok'') sample_config
         (new_manager \<lparr>env = Map.empty, fetch_fn = NativeFetch 0, dispatch = OtherDispatcher 0, made = 0\<rparr>)
   in 0 \<in> set (listening (op_stop (op_restart sample_parsers (sample_boot ''ok'') sample_config m)))"
proof -
  let ?w = "\<lparr>env = Map.empty, fetch_fn = NativeFetch 0, dispatch = OtherDispatcher 0, made = 0\<rparr>"
  let ?m = "startCore sample_parsers (sample_boot ''ok'') sample_config (new_manager ?w)"
  have "server ?m = Some 0 \<and> listening ?m = [0] \<and> 0 < fresh ?m \<and> \<not> runtimeOff ?m \<and> enabled sample_config
     \<and> (\<exists>at. subscription ?m = Some \<lparr>updatedAt = at, body = read_document sample_document\<rparr>)"
    using sample_boots[of "new_manager ?w" sample_config] by (simp add: sample_config_def default_config_def new_manager_def)
  moreover have "b_listen (sample_boot ''ok'') = Inr 7890" by (simp add: sample_boot_def)
  ultimately show ?thesis unfolding Let_def using restart_leaks_listener[of sample_config ?m 0] by auto
qed

theorem update_ignores_runtime_switch_witness:
  "let m = (new_manager \<lparr>env = Map.empty, fetch_fn = NativeFetch 0, dispatch = OtherDispatcher 0, made = 0\<rparr>)\<lparr>runtimeOff := True\<rparr>
   in m_state (fst (op_update sample_parsers (sample_boot ''ok'') sample_config m)) = Running
      \<and> runtimeOff (fst (op_update sample_parsers (sample_boot ''ok'') sample_config m))"
  unfolding Let_def
  by (rule update_ignores_runtime_switch[where raw = "''ok''" and p = "read_document sample_document" and bound = 7890])
     (simp_all add: sample_parse, simp_all add: sample_config_def default_config_def subscription_url_def sample_boot_def)

theorem unparsable_update_destroys_cache_witness:
  "let w = \<lparr>env = Map.empty, fetch_fn = NativeFetch 0, dispatch = OtherDispatcher 0, made = 0\<rparr>;
       m = (new_manager w)\<lparr>cache_file := Some ''ok''\<rparr>;
       m' = fst (op_update sample_parsers (sample_boot ''<html>'') sample_config m)
   in subscription m' = subscription m
      \<and> m_state (startCore sample_parsers (sample_boot ''x'') default_config ((new_manager w)\<lparr>cache_file := cache_file m'\<rparr>)) = Failed"
proof -
  let ?w = "\<lparr>env = Map.empty, fetch_fn = NativeFetch 0, dispatch = OtherDispatcher 0, made = 0\<rparr>"
  have "parseSubscription (p_decode64 sample_parsers) (p_yaml sample_parsers) ''<html>''
      = Inl (Error ''subscription body is neither YAML nor base64-wrapped YAML'')"
    by (simp add: parseSubscription_def sample_parsers_def no_spaces_def)
  moreover have "trim ''<html>'' \<noteq> []" by code_simp
  ultimately show ?thesis
    using unparsable_update_destroys_cache[of sample_config "sample_boot ''<html>''" "''<html>''" sample_parsers _ default_config
        "sample_boot ''x''" "(new_manager ?w)\<lparr>cache_file := Some ''ok''\<rparr>" ?w]
    by (auto simp: Let_def sample_config_def default_config_def subscription_url_def sample_boot_def)
qed

theorem selection_persists_witness:
  "let w = \<lparr>env = Map.empty, fetch_fn = NativeFetch 0, dispatch = OtherDispatcher 0, made = 0\<rparr>;
       m = (new_manager w)\<lparr>subscription := Some \<lparr>updatedAt = JNull, body = read_document sample_document\<rparr>\<rparr>
   in selected (loadState ((new_manager w)\<lparr>state_file := state_file (fst (selectNode (sample_boot ''ok'') ''a'' m))\<rparr>)) = Some ''a''"
proof -
  define w where "w = \<lparr>env = Map.empty, fetch_fn = NativeFetch 0, dispatch = OtherDispatcher 0, made = 0\<rparr>"
  define m where "m = (new_manager w)\<lparr>subscription := Some \<lparr>updatedAt = JNull, body = read_document sample_document\<rparr>\<rparr>"
  have "''a'' \<in> set (map fst (nodeMap (Some (read_document sample_document))))" by code_simp
  then have "''a'' \<in> set (map fst (nodeMap (map_option body (subscription m))))" by (simp add: m_def)
  moreover have "b_disk (sample_boot ''ok'') = None" by (simp add: sample_boot_def)
  ultimately show ?thesis
    unfolding Let_def w_def[symmetric] m_def[symmetric] using selection_persists[of "''a''" m "sample_boot ''ok''" w] by metis
qed


text \<open>
  The fields whose change restarts the proxy, and the signature of a configuration, the list behind its JSON: with
  \<open>enabled\<close> these are all fields there are, so two configurations have one signature only if they are the same.
\<close>

definition RESTART_FIELDS :: "string list" where
  "RESTART_FIELDS =
    [''subscriptionUrl'', ''fetchProxyUrl'', ''autoUpdateHours'', ''groupType'', ''latencyTestUrl'', ''latencyTimeoutMs'',
     ''noProxy'', ''extraRules'', ''excludeRules'']"

definition config_section :: "config \<Rightarrow> (string \<times> jsval) list" where
  "config_section cfg =
    [(''enabled'', JBool (enabled cfg)), (''subscriptionUrl'', JStr (subscriptionUrl cfg)), (''fetchProxyUrl'', JStr (fetchProxyUrl cfg)),
     (''autoUpdateHours'', JNum (Fin (int (autoUpdateHours cfg)) 0)), (''groupType'', JStr (groupType cfg)),
     (''latencyTestUrl'', JStr (latencyTestUrl cfg)), (''latencyTimeoutMs'', JNum (Fin (int (latencyTimeoutMs cfg)) 0)),
     (''noProxy'', JStr (noProxy cfg)), (''extraRules'', JArr (map JStr (extraRules cfg))), (''excludeRules'', JArr (map JStr (excludeRules cfg)))]"

definition signature :: "config \<Rightarrow> (string \<times> jsval option) list" where
  "signature cfg = map (\<lambda>k. (k, map_of (config_section cfg) k)) (RESTART_FIELDS @ [''enabled''])"

lemma signature_separates: "signature c = signature d \<longleftrightarrow> c = d"
proof
  assume "signature c = signature d"
  then have "enabled c = enabled d" "subscriptionUrl c = subscriptionUrl d" "fetchProxyUrl c = fetchProxyUrl d"
    "autoUpdateHours c = autoUpdateHours d" "groupType c = groupType d" "latencyTestUrl c = latencyTestUrl d"
    "latencyTimeoutMs c = latencyTimeoutMs d" "noProxy c = noProxy d" "map JStr (extraRules c) = map JStr (extraRules d)"
    "map JStr (excludeRules c) = map JStr (excludeRules d)"
    by (simp_all add: signature_def RESTART_FIELDS_def config_section_def)
  moreover have "inj JStr" by (rule injI) simp
  ultimately show "c = d" by (simp add: inj_map_eq_map config.equality)
qed simp

lemma reconcile_compares_signatures:
  "reconcile cfg m =
     (if map_option signature (applied m) = Some (signature cfg) then (m, None)
      else (m\<lparr>applied := Some cfg\<rparr>, Some (if enabled cfg then Restart else Stop)))"
  by (cases "applied m") (auto simp: reconcile_def signature_separates)

end
