(* ===== verification/OpQueue.thy ===== *)
theory OpQueue
  imports Manager
begin

text \<open>
  The promise chain \<open>#queue\<close> of \<open>lib/core/manager.js\<close>: operations run one at a time, in the order of
  their calls. A task is the number of its call. \<open>restart()\<close> of a disabled manager awaits, from inside
  the queue, a \<open>stop()\<close> that is queued behind it.
\<close>

record op_queue =
  waiting :: "(nat \<times> operation) list"
  awaiting :: "(nat \<times> nat) option"
  settled :: "nat list"
  next_task :: nat
  q_mgr :: manager

definition new_queue :: "manager \<Rightarrow> op_queue" where
  "new_queue m = \<lparr>waiting = [], awaiting = None, settled = [], next_task = 0, q_mgr = m\<rparr>"

text \<open>The body of an operation that does not await another one.\<close>

fun run_op :: "parsers \<Rightarrow> boot \<Rightarrow> config \<Rightarrow> operation \<Rightarrow> manager \<Rightarrow> manager" where
  "run_op P b cfg Start m = op_start P b cfg m"
| "run_op P b cfg Stop m = op_stop m"
| "run_op P b cfg Restart m = op_restart P b cfg m"
| "run_op P b cfg Update m = fst (op_update P b cfg m)"

definition off :: "config \<Rightarrow> manager \<Rightarrow> bool" where
  "off cfg m \<longleftrightarrow> \<not> enabled cfg \<or> runtimeOff m"

text \<open>
  The steps: a call, also the one \<open>setRuntimeEnabled\<close> makes after it has set its flag; an operation that
  runs to its end; a restart of a disabled manager, which calls \<open>stop()\<close> and waits; and its resumption.
\<close>

inductive q_step :: "parsers \<Rightarrow> op_queue \<Rightarrow> op_queue \<Rightarrow> bool" for P :: parsers where
  call_op: "q_step P q (q\<lparr>waiting := waiting q @ [(next_task q, op)], next_task := Suc (next_task q)\<rparr>)"
| switch: "q_step P q (q\<lparr>q_mgr := (q_mgr q)\<lparr>runtimeOff := v\<rparr>\<rparr>)"
| complete: "\<lbrakk>awaiting q = None; waiting q = (i, op) # rest; \<not> (op = Restart \<and> off cfg (q_mgr q))\<rbrakk>
     \<Longrightarrow> q_step P q (q\<lparr>waiting := rest, settled := settled q @ [i], q_mgr := run_op P b cfg op (q_mgr q)\<rparr>)"
| restart_off: "\<lbrakk>awaiting q = None; waiting q = (i, Restart) # rest; off cfg (q_mgr q)\<rbrakk>
     \<Longrightarrow> q_step P q (q\<lparr>waiting := rest @ [(next_task q, Stop)], awaiting := Some (i, next_task q),
           next_task := Suc (next_task q)\<rparr>)"
| resume: "\<lbrakk>awaiting q = Some (i, j); j \<in> set (settled q)\<rbrakk>
     \<Longrightarrow> q_step P q (q\<lparr>awaiting := None, settled := settled q @ [i]\<rparr>)"

inductive_cases q_stepE: "q_step P q q'"

section \<open>The invariant\<close>

text \<open>
  Tasks settle in the order of their numbers and the rest wait in that order; or the queue waits, for
  ever, for a task that waits in it.
\<close>

definition q_inv :: "op_queue \<Rightarrow> bool" where
  "q_inv q \<longleftrightarrow>
     (case awaiting q of
        None \<Rightarrow> \<exists>k. settled q = [0..<k] \<and> map fst (waiting q) = [k..<next_task q] \<and> k \<le> next_task q
      | Some (i, j) \<Rightarrow> j \<notin> set (settled q) \<and> settled q = [0..<i])"

lemma q_inv_step:
  assumes "q_step P q q'" "q_inv q"
  shows "q_inv q'"
  using assms
proof (induction rule: q_step.induct)
  case (complete q i op rest cfg b)
  then obtain k where k: "settled q = [0..<k]" "i # map fst rest = [k..<next_task q]" "k \<le> next_task q"
    by (auto simp: q_inv_def)
  then have "k < next_task q" by (cases "k < next_task q") auto
  then have "i = k" "map fst rest = [Suc k..<next_task q]" using k(2) by (simp_all add: upt_conv_Cons)
  then show ?case using complete(1) k \<open>k < next_task q\<close> by (auto simp: q_inv_def intro!: exI[of _ "Suc k"])
next
  case (restart_off q i rest cfg)
  then obtain k where k: "settled q = [0..<k]" "i # map fst rest = [k..<next_task q]" "k \<le> next_task q"
    by (auto simp: q_inv_def)
  then have "k < next_task q" by (cases "k < next_task q") auto
  then have "i = k" using k(2) by (simp add: upt_conv_Cons)
  then show ?case using k by (simp add: q_inv_def)
qed (auto simp: q_inv_def split: option.splits)

lemma q_inv_reach: "(q_step P)\<^sup>*\<^sup>* q q' \<Longrightarrow> q_inv q \<Longrightarrow> q_inv q'"
  by (induction rule: rtranclp_induct) (auto intro: q_inv_step)

lemma stuck_step:
  assumes "q_step P q q'" "awaiting q = Some (i, j)" "j \<notin> set (settled q)"
  shows "awaiting q' = Some (i, j) \<and> settled q' = settled q"
  using assms by (cases rule: q_step.cases) auto

lemma stuck_reach:
  assumes "(q_step P)\<^sup>*\<^sup>* q q'" "awaiting q = Some (i, j)" "j \<notin> set (settled q)"
  shows "awaiting q' = Some (i, j) \<and> settled q' = settled q"
  using assms by (induction rule: rtranclp_induct) (auto dest: stuck_step)


text \<open>C32. Restarting a manager that is switched off deadlocks it: once the restart's turn has come it waits for
  a stop that is queued behind it, and from then on no operation ever settles again, whatever is called.\<close>

theorem restart_when_off_deadlocks:
  assumes "(q_step P)\<^sup>*\<^sup>* (new_queue m) q" "awaiting q = None" "waiting q = (i, Restart) # rest" "off cfg (q_mgr q)"
  shows "\<exists>q1. q_step P q q1 \<and> (\<forall>q2. (q_step P)\<^sup>*\<^sup>* q1 q2 \<longrightarrow> settled q2 = settled q \<and> i \<notin> set (settled q2))"
proof -
  let ?q1 = "q\<lparr>waiting := rest @ [(next_task q, Stop)], awaiting := Some (i, next_task q), next_task := Suc (next_task q)\<rparr>"
  have step: "q_step P q ?q1" by (rule q_step.restart_off[OF assms(2-4)])
  have "(q_step P)\<^sup>*\<^sup>* (new_queue m) ?q1" using assms(1) step by (rule rtranclp.rtrancl_into_rtrancl)
  then have "q_inv ?q1" by (rule q_inv_reach) (simp add: q_inv_def new_queue_def)
  then have "next_task q \<notin> set (settled q)" "i \<notin> set (settled q)" by (auto simp: q_inv_def)
  then show ?thesis using step stuck_reach[of P ?q1 _ i "next_task q"] by fastforce
qed

text \<open>A queue with one call, for the witnesses.\<close>

definition one_call :: "operation \<Rightarrow> op_queue" where
  "one_call op =
     \<lparr>waiting = [(0, op)], awaiting = None, settled = [], next_task = 1,
      q_mgr = new_manager \<lparr>env = Map.empty, fetch_fn = NativeFetch 0, dispatch = OtherDispatcher 0, made = 0\<rparr>\<rparr>"

lemma one_call_reachable: "(q_step P)\<^sup>*\<^sup>* (new_queue (q_mgr (one_call op))) (one_call op)"
  using q_step.call_op[of P "new_queue (q_mgr (one_call op))" op] by (auto simp: new_queue_def one_call_def)


theorem restart_when_off_deadlocks_witness:
  "\<exists>q1. q_step sample_parsers (one_call Restart) q1
     \<and> (\<forall>q2. (q_step sample_parsers)\<^sup>*\<^sup>* q1 q2 \<longrightarrow> settled q2 = settled (one_call Restart) \<and> 0 \<notin> set (settled q2))"
  by (rule restart_when_off_deadlocks[OF one_call_reachable, where rest = "[]" and cfg = "default_config\<lparr>enabled := False\<rparr>"])
     (simp_all add: one_call_def off_def)

end
