(* ===== verification/ProxyServer.thy ===== *)
theory ProxyServer
  imports AddrCodec Transports
begin

text \<open>
  \<open>lib/core/proxy-server.js\<close>: routing a client by its first byte, the SOCKS5 and HTTP sides, the target
  of a connection, the relay with its byte counters. What a handler does to its client and to the
  upstream face is a list of actions in order. The rule engine, the node thunk, the dialled connection and
  the URL parser are arguments.
\<close>

section \<open>Connecting\<close>

datatype verdict = GoDirect | GoProxy | GoReject

text \<open>\<open>#connect\<close>: the node to dial through, \<open>None\<close> for a direct connection, or the exception.\<close>

definition connect_node :: "(string \<Rightarrow> verdict) \<Rightarrow> jsval option \<Rightarrow> string \<Rightarrow> error + jsval option" where
  "connect_node decide node host =
     (case decide host of
        GoReject \<Rightarrow> Inl (Error (''rejected by rule: '' @ host))
      | GoProxy \<Rightarrow>
          (case node of
             None \<Rightarrow> Inl (Error (''no upstream node available for '' @ host @ '' (select a node or check the subscription)''))
           | Some n \<Rightarrow>
               (if is_nullish n
                then Inl (Error (''no upstream node available for '' @ host @ '' (select a node or check the subscription)''))
                else Inr (Some n)))
      | GoDirect \<Rightarrow> Inr None)"

text \<open>
  The surroundings of a handler: \<open>dial\<close> is the outcome of \<open>connectThrough\<close>, \<open>current\<close> what
  \<open>resolveNode()\<close> returns.
\<close>

record surroundings =
  decide :: "string \<Rightarrow> verdict"
  current :: "jsval option"
  dial :: "jsval option \<Rightarrow> string \<Rightarrow> jsnum \<Rightarrow> error + unit"

definition connect :: "surroundings \<Rightarrow> string \<Rightarrow> jsnum \<Rightarrow> error + unit" where
  "connect S host port =
     bind_res (connect_node (decide S) (current S) host) (\<lambda>node. dial S node host port)"

text \<open>Actions on the client, on the face, and the two ways the face is joined to the client.\<close>

datatype act =
    ClientWrite bytes
  | ClientEnd bytes
  | ClientUnshift bytes
  | ClientDestroy
  | Dial string jsnum
  | FaceWrite bytes
  | Relay
  | PumpDown

section \<open>SOCKS5\<close>

text \<open>The methods offered: \<open>greeting.subarray(2, 2 + greeting[1])\<close>, empty without a second byte.\<close>

definition socks_methods :: "bytes \<Rightarrow> bytes" where
  "socks_methods greeting =
     (if length greeting < 2 then [] else take (unat (greeting ! 1)) (drop 2 greeting))"

definition socks_method :: "bytes \<Rightarrow> byte" where
  "socks_method greeting = (if 0 \<in> set (socks_methods greeting) then 0 else 0xff)"

definition socks_answer :: "byte \<Rightarrow> bytes" where
  "socks_answer code = [0x05, code, 0x00, 0x01, 0, 0, 0, 0, 0, 0]"

text \<open>
  \<open>#handleSocks5\<close>; \<open>request\<close> is the next data chunk or the socket's error, \<open>None\<close> while it waits.
\<close>

definition handleSocks5 :: "(bytes \<Rightarrow> string) \<Rightarrow> surroundings \<Rightarrow> bytes \<Rightarrow> (error + bytes) option \<Rightarrow> act list" where
  "handleSocks5 decode S greeting request =
     (let method = socks_method greeting; hello = ClientWrite [0x05, method] in
      if method = 0xff then [hello, ClientEnd []]
      else case map_option (\<lambda>x. bind_res x (readSocks5Request decode)) request of
        None \<Rightarrow> [hello]
      | Some (Inl e) \<Rightarrow> [hello, ClientDestroy]
      | Some (Inr r) \<Rightarrow>
          (if decide S (req_host r) = GoReject then [hello, ClientEnd (socks_answer 0x02)]
           else case connect S (req_host r) (Fin (int (req_port r)) 0) of
             Inl e \<Rightarrow> [hello, ClientEnd (socks_answer 0x05)]
           | Inr _ \<Rightarrow>
               [hello, Dial (req_host r) (Fin (int (req_port r)) 0), ClientWrite (socks_answer 0x00)]
               @ (if req_rest r \<noteq> [] then [ClientUnshift (req_rest r)] else []) @ [Relay]))"

section \<open>HTTP\<close>

text \<open>\<open>buffer.indexOf("\r\n\r\n")\<close>.\<close>

fun head_end :: "bytes \<Rightarrow> nat option" where
  "head_end bs =
     (if take 4 bs = [13, 10, 13, 10] then Some 0
      else case bs of [] \<Rightarrow> None | b # bs' \<Rightarrow> map_option Suc (head_end bs'))"

declare head_end.simps [simp del]

text \<open>
  \<open>#readHttpHead\<close> over the chunks that arrive: head and what is unshifted, or \<open>None\<close> while it waits.
\<close>

fun readHttpHead :: "bytes \<Rightarrow> bytes list \<Rightarrow> (string \<times> bytes) option" where
  "readHttpHead buffer later =
     (case head_end buffer of
        Some i \<Rightarrow> Some (latin1 (take i buffer), drop (i + 4) buffer)
      | None \<Rightarrow>
          (case later of [] \<Rightarrow> None | chunk # cs \<Rightarrow> readHttpHead (buffer @ chunk) cs))"

declare readHttpHead.simps [simp del]

definition text_bytes :: "string \<Rightarrow> bytes" where
  "text_bytes s = map (\<lambda>c. of_nat (code_unit c)) s"

definition head_lines :: "string \<Rightarrow> string list" where
  "head_lines head = split_two (unit_char 13) (unit_char 10) head"

definition bad_request :: act where
  "bad_request = ClientEnd (text_bytes (''HTTP/1.1 400 Bad Request'' @ crlf @ crlf))"

definition bad_gateway :: act where
  "bad_gateway = ClientEnd (text_bytes (''HTTP/1.1 502 Bad Gateway'' @ crlf @ crlf))"

definition handleConnect :: "surroundings \<Rightarrow> string \<Rightarrow> act list" where
  "handleConnect S target =
     (case last_index_of (CHR '':'') target of
        None \<Rightarrow> [bad_request]
      | Some 0 \<Rightarrow> [bad_request]
      | Some colon \<Rightarrow>
          (let host = take colon target; port = js_Number (drop (colon + 1) target) in
           case connect S host port of
             Inl e \<Rightarrow> [bad_gateway]
           | Inr _ \<Rightarrow>
               [Dial host port, ClientWrite (text_bytes (''HTTP/1.1 200 Connection Established'' @ crlf @ crlf)), Relay]))"

text \<open>A parsed absolute URL: \<open>new URL(target)\<close>.\<close>

record url =
  hostname :: string
  url_port :: string
  pathname :: string
  search :: string

text \<open>\<open>/^(proxy-connection|connection):/i.test(line.trim())\<close>.\<close>

definition hop_header :: "string \<Rightarrow> bool" where
  "hop_header line \<longleftrightarrow>
     (let l = toLowerCase (trim line)
      in startsWith l ''proxy-connection:'' \<or> startsWith l ''connection:'')"

definition rewritten_head :: "string \<Rightarrow> url \<Rightarrow> string list \<Rightarrow> string" where
  "rewritten_head reqmethod u lines =
     reqmethod @ '' '' @ pathname u @ search u @ '' HTTP/1.1'' @ crlf
     @ join crlf (filter (\<lambda>l. \<not> hop_header l) (drop 1 lines)) @ crlf @ ''Connection: close'' @ crlf @ crlf"

definition handleAbsolute :: "(string \<Rightarrow> url option) \<Rightarrow> surroundings \<Rightarrow> string \<Rightarrow> string \<Rightarrow> string list \<Rightarrow> act list" where
  "handleAbsolute parse_url S reqmethod target lines =
     (case parse_url target of
        None \<Rightarrow> [bad_request]
      | Some u \<Rightarrow>
          (let port = (if url_port u \<noteq> [] then js_Number (url_port u) else Fin 80 0) in
           case connect S (hostname u) port of
             Inl e \<Rightarrow> [bad_gateway]
           | Inr _ \<Rightarrow> [Dial (hostname u) port, FaceWrite (utf8 (rewritten_head reqmethod u lines)), PumpDown]))"

text \<open>\<open>const [method, target] = requestLine.split(" ")\<close>: \<open>None\<close> is an undefined target.\<close>

definition request_line :: "string \<Rightarrow> string \<times> string option" where
  "request_line l =
     (case split_char (CHR '' '') l of m # t # _ \<Rightarrow> (m, Some t) | m # [] \<Rightarrow> (m, None) | [] \<Rightarrow> ([], None))"

definition is_absolute :: "string \<Rightarrow> bool" where
  "is_absolute t \<longleftrightarrow> startsWith t ''http://'' \<or> startsWith t ''https://''"

text \<open>
  \<open>#handleHttp\<close> once the head is there; the rest of the buffer is unshifted first. \<open>CONNECT\<close> without a
  target throws, and the client is destroyed.
\<close>

definition handleHttp :: "(string \<Rightarrow> url option) \<Rightarrow> surroundings \<Rightarrow> string \<Rightarrow> bytes \<Rightarrow> act list" where
  "handleHttp parse_url S head rest =
     (let lines = head_lines head; (reqmethod, target) = request_line (hd lines) in
      (if rest \<noteq> [] then [ClientUnshift rest] else [])
      @ (if reqmethod = ''CONNECT'' then
           (case target of None \<Rightarrow> [ClientDestroy] | Some t \<Rightarrow> handleConnect S t)
         else case target of
           None \<Rightarrow> [bad_request]
         | Some t \<Rightarrow> if is_absolute t then handleAbsolute parse_url S reqmethod t lines else [bad_request]))"

text \<open>\<open>#handle\<close>: the protocol by the first byte of the first chunk.\<close>

definition is_socks :: "bytes \<Rightarrow> bool" where
  "is_socks first \<longleftrightarrow> (case first of b # _ \<Rightarrow> b = 0x05 | [] \<Rightarrow> False)"

definition handle ::
  "(bytes \<Rightarrow> string) \<Rightarrow> (string \<Rightarrow> url option) \<Rightarrow> surroundings \<Rightarrow> bytes \<Rightarrow> bytes list \<Rightarrow> act list" where
  "handle decode parse_url S first later =
     (if is_socks first then
        handleSocks5 decode S first
          (case later of chunk # _ \<Rightarrow> Some (Inr chunk) | [] \<Rightarrow> None)
      else case readHttpHead first later of
        None \<Rightarrow> []
      | Some (head, rest) \<Rightarrow> handleHttp parse_url S head rest)"

section \<open>Relay and counters\<close>

text \<open>
  \<open>pumpInto\<close>. What the socket does when a chunk arrives: it takes the chunk, it is full and drains later, it
  is full and never drains, or it was destroyed before. The iterable ends, fails, or yields nothing more.
\<close>

datatype sink = Accepts | FullThenDrains | FullForever | Gone

datatype source_end = SourceEnds | SourceFails | SourcePends

datatype pump_end = SocketEnded | SocketDestroyed | SocketLeft | PumpWaits

record pumped =
  counted :: nat
  written :: "bytes list"
  pump_end :: pump_end

fun pumpInto :: "(bytes \<times> sink) list \<Rightarrow> source_end \<Rightarrow> bool \<Rightarrow> pumped" where
  "pumpInto [] SourceEnds gone =
     \<lparr>counted = 0, written = [], pump_end = (if gone then SocketLeft else SocketEnded)\<rparr>"
| "pumpInto [] SourceFails gone = \<lparr>counted = 0, written = [], pump_end = SocketDestroyed\<rparr>"
| "pumpInto [] SourcePends gone = \<lparr>counted = 0, written = [], pump_end = PumpWaits\<rparr>"
| "pumpInto ((chunk, k) # later) e gone =
     (if k = Gone then \<lparr>counted = 0, written = [], pump_end = SocketLeft\<rparr>
      else
        (let r = (if k = FullForever then \<lparr>counted = 0, written = [], pump_end = PumpWaits\<rparr>
                  else pumpInto later e gone)
         in r\<lparr>counted := length chunk + counted r, written := chunk # written r\<rparr>))"

text \<open>The upward half of \<open>#relay\<close>: the client's events drive the counter and the face.\<close>

record relay_state =
  up :: nat
  to_face :: "bytes list"
  face_open :: bool

datatype relay_event = ClientData bytes | ClientEnded | ClientClosed | ClientFailed

fun relay_step :: "relay_event \<Rightarrow> relay_state \<Rightarrow> relay_state" where
  "relay_step (ClientData chunk) s = s\<lparr>up := up s + length chunk, to_face := to_face s @ [chunk]\<rparr>"
| "relay_step ClientEnded s = s\<lparr>face_open := False\<rparr>"
| "relay_step ClientClosed s = s\<lparr>face_open := False\<rparr>"
| "relay_step ClientFailed s = s\<lparr>face_open := False\<rparr>"

section \<open>The rules decide\<close>

text \<open>When a handler may dial: the engine does not reject the host, and a proxied one has a node.\<close>

definition may_dial :: "surroundings \<Rightarrow> string \<Rightarrow> bool" where
  "may_dial S host \<longleftrightarrow>
     decide S host = GoDirect \<or> decide S host = GoProxy \<and> (\<exists>n. current S = Some n \<and> \<not> is_nullish n)"

lemma connect_may_dial: "connect S host port = Inr () \<Longrightarrow> may_dial S host"
  by (auto simp: connect_def connect_node_def bind_res_Inr_iff may_dial_def split: verdict.splits option.splits if_splits)

lemma dial_connected:
  "Dial h p \<in> set (handleSocks5 decode S g r) \<Longrightarrow> connect S h p = Inr ()"
  "Dial h p \<in> set (handleConnect S t) \<Longrightarrow> connect S h p = Inr ()"
  "Dial h p \<in> set (handleAbsolute pu S m t ls) \<Longrightarrow> connect S h p = Inr ()"
  by (auto simp: handleSocks5_def handleConnect_def handleAbsolute_def bad_request_def bad_gateway_def Let_def
      split: if_splits option.splits sum.splits nat.splits)

lemma dial_connected_http:
  "Dial h p \<in> set (handleHttp pu S hd0 rest) \<Longrightarrow> connect S h p = Inr ()"
  using dial_connected
  by (auto simp: handleHttp_def Let_def bad_request_def split: if_splits option.splits prod.splits)

section \<open>Properties\<close>

text \<open>No client can get around the rules: whatever it sends, by whichever protocol and in whatever chunks, a
  connection is dialled only to a host that the engine does not reject, and a host to be proxied only when
  there is a node.\<close>

theorem dials_respect_rules:
  assumes "Dial h p \<in> set (handle decode parse_url S first later)"
  shows "may_dial S h"
  using assms dial_connected(1) dial_connected_http connect_may_dial
  by (fastforce simp: handle_def split: if_splits option.splits list.splits prod.splits)

text \<open>A SOCKS5 client reaches the target it asks for: the request another client of this program would send
  for a host and port is answered with success and dials exactly these, with early data kept for the relay.\<close>

theorem socks5_client_reaches_target:
  assumes "canonical_host h" "length h < 256" "n < 65536" "utf8_decoder decode"
    "0 \<in> set methods" "length methods < 256" "connect S h (Fin (int n) 0) = Inr ()"
  shows "handle decode parse_url S ([5, of_nat (length methods)] @ methods)
       [[5, 1, 0] @ encodeAddr h (Fin (int n) 0) @ rest]
     = [ClientWrite [5, 0], Dial h (Fin (int n) 0), ClientWrite (socks_answer 0)]
       @ (if rest \<noteq> [] then [ClientUnshift rest] else []) @ [Relay]"
proof -
  have "socks_method ([5, of_nat (length methods)] @ methods) = 0"
    using assms(5,6) by (simp add: socks_method_def socks_methods_def)
  moreover have "decide S h \<noteq> GoReject" using connect_may_dial[OF assms(7)] by (auto simp: may_dial_def)
  ultimately show ?thesis
    using read_request[OF assms(1-4), of rest] assms(7)
    by (simp add: handle_def is_socks_def handleSocks5_def Let_def)
qed

section \<open>The request head\<close>

lemma head_end_prefix: "head_end bs = Some i \<Longrightarrow> take 4 (drop i bs) = [13, 10, 13, 10] \<and> i + 4 \<le> length bs"
proof (induction bs arbitrary: i)
  case Nil
  then show ?case by (simp add: head_end.simps)
next
  case (Cons b bs)
  show ?case
  proof (cases "take 4 (b # bs) = [13, 10, 13, 10]")
    case True
    then have "length (take 4 (b # bs)) = 4" by simp
    then show ?thesis using Cons.prems True by (simp add: head_end.simps[of "b # bs"])
  next
    case False
    then show ?thesis using Cons by (auto simp: head_end.simps[of "b # bs"])
  qed
qed

lemma head_end_append: "head_end bs = Some i \<Longrightarrow> head_end (bs @ cs) = Some i"
proof (induction bs arbitrary: i)
  case Nil
  then show ?case by (simp add: head_end.simps)
next
  case (Cons b bs)
  show ?case
  proof (cases "take 4 (b # bs) = [13, 10, 13, 10]")
    case True
    then have "length (take 4 (b # bs)) = 4" by simp
    then have "4 \<le> length (b # bs)" by simp
    then have "take 4 ((b # bs) @ cs) = take 4 (b # bs)" by simp
    then have "head_end ((b # bs) @ cs) = Some 0" using True by (subst head_end.simps) (simp only: if_True simp_thms)
    moreover have "i = 0" using Cons.prems True by (subst (asm) head_end.simps) (simp only: if_True simp_thms option.inject)
    ultimately show ?thesis by simp
  next
    case False
    then obtain j where j: "head_end bs = Some j" "i = Suc j" using Cons.prems by (auto simp: head_end.simps[of "b # bs"])
    have "j + 4 \<le> length bs" using head_end_prefix[OF j(1)] by simp
    then have "take 4 ((b # bs) @ cs) = take 4 (b # bs)" by simp
    then have "take 4 ((b # bs) @ cs) \<noteq> [13, 10, 13, 10]" using False by (simp only: not_False_eq_True)
    then have "head_end ((b # bs) @ cs) = map_option Suc (head_end (bs @ cs))"
      by (subst head_end.simps) (simp only: if_False append_Cons list.case)
    then show ?thesis using j Cons.IH[OF j(1)] by simp
  qed
qed

lemma readHttpHead_eq:
  "readHttpHead b cs = Some (h, r) \<Longrightarrow>
   \<exists>i k. head_end (b @ concat cs) = Some i \<and> h = latin1 (take i (b @ concat cs)) \<and> k \<le> length cs
     \<and> drop (i + 4) (b @ concat cs) = r @ concat (drop k cs)"
proof (induction b cs rule: readHttpHead.induct)
  case (1 b cs)
  show ?case
  proof (cases "head_end b")
    case (Some i)
    then have "i + 4 \<le> length b" using head_end_prefix by blast
    then show ?thesis
      using 1(2) Some head_end_append[OF Some, of "concat cs"]
      by (intro exI[of _ i] exI[of _ 0]) (auto simp: readHttpHead.simps[of b cs])
  next
    case None
    then obtain c cs' where c: "cs = c # cs'" using 1(2) by (cases cs) (simp_all add: readHttpHead.simps[of b "[]"])
    then have "readHttpHead (b @ c) cs' = Some (h, r)" using 1(2) None c by (simp add: readHttpHead.simps[of b "c # cs'"])
    then obtain i k where "head_end ((b @ c) @ concat cs') = Some i" "h = latin1 (take i ((b @ c) @ concat cs'))"
      "k \<le> length cs'" "drop (i + 4) ((b @ c) @ concat cs') = r @ concat (drop k cs')"
      using 1(1)[OF None c] by blast
    then show ?thesis using c by (intro exI[of _ i] exI[of _ "Suc k"]) simp
  qed
qed

lemma readHttpHead_Some:
  "head_end (b @ concat cs) = Some i \<Longrightarrow> readHttpHead b cs \<noteq> None"
proof (induction b cs rule: readHttpHead.induct)
  case (1 b cs)
  show ?case
  proof (cases "head_end b")
    case (Some j)
    then show ?thesis by (simp add: readHttpHead.simps[of b cs])
  next
    case None
    then obtain c cs' where c: "cs = c # cs'" using 1(2) by (cases cs) auto
    then show ?thesis using 1(1)[OF None c] 1(2) None c by (simp add: readHttpHead.simps[of b "c # cs'"])
  qed
qed

text \<open>The request head ends at the first blank line of what the client sends, however the bytes are cut into
  chunks: with such a line the head is found, and what is unshifted, followed by the chunks still to come,
  is everything behind the blank line.\<close>

theorem http_head_chunk_independent:
  assumes "head_end (b @ concat cs) = Some i"
  shows "\<exists>r k. readHttpHead b cs = Some (latin1 (take i (b @ concat cs)), r) \<and> k \<le> length cs
     \<and> r @ concat (drop k cs) = drop (i + 4) (b @ concat cs)"
proof -
  obtain h r where hr: "readHttpHead b cs = Some (h, r)" using readHttpHead_Some[OF assms] by auto
  obtain j k where "head_end (b @ concat cs) = Some j" "h = latin1 (take j (b @ concat cs))" "k \<le> length cs"
    "drop (j + 4) (b @ concat cs) = r @ concat (drop k cs)"
    using readHttpHead_eq[OF hr] by blast
  then show ?thesis using hr assms by (intro exI[of _ r] exI[of _ k]) simp
qed


section \<open>Absolute-form requests\<close>

text \<open>The bytes a handler writes to the face.\<close>

fun face_bytes :: "act list \<Rightarrow> bytes" where
  "face_bytes [] = []"
| "face_bytes (FaceWrite bs # as) = bs @ face_bytes as"
| "face_bytes (_ # as) = face_bytes as"

lemma handleAbsolute_no_relay: "Relay \<notin> set (handleAbsolute pu S m t ls)"
  by (auto simp: handleAbsolute_def bad_request_def bad_gateway_def Let_def split: option.splits sum.splits)

text \<open>Whatever follows the head of a plain (absolute-form) request is never forwarded: the client is not
  relayed to the face, and the bytes written to the face do not depend on what comes behind the head. A
  request with a body loses it.\<close>

theorem absolute_form_drops_body:
  assumes "fst (request_line (hd (head_lines head))) \<noteq> ''CONNECT''"
  shows "Relay \<notin> set (handleHttp parse_url S head rest)
     \<and> face_bytes (handleHttp parse_url S head rest) = face_bytes (handleHttp parse_url S head [])"
  using assms handleAbsolute_no_relay[of parse_url S]
  by (auto simp: handleHttp_def Let_def bad_request_def split: prod.splits option.splits)

text \<open>No \<open>a b\<close> in the text, the text of one piece of a split at \<open>a b\<close>.\<close>

fun pair_free :: "char \<Rightarrow> char \<Rightarrow> string \<Rightarrow> bool" where
  "pair_free a b (x # y # xs) \<longleftrightarrow> \<not> (x = a \<and> y = b) \<and> pair_free a b (y # xs)"
| "pair_free a b _ \<longleftrightarrow> True"

lemma pair_free_Cons: "pair_free a b (x # w) \<longleftrightarrow> pair_free a b w \<and> \<not> (x = a \<and> w \<noteq> [] \<and> hd w = b)"
  by (cases w) auto

lemma hd_split_two: "split_two a b s = w # ws \<Longrightarrow> w \<noteq> [] \<Longrightarrow> s \<noteq> [] \<and> hd w = hd s"
  by (induction a b s arbitrary: w ws rule: split_two.induct) (auto split: list.splits if_splits)

lemma split_two_pieces: "w \<in> set (split_two a b s) \<Longrightarrow> pair_free a b w"
proof (induction a b s arbitrary: w rule: split_two.induct)
  case (3 a b x y xs)
  show ?case
  proof (cases "x = a \<and> y = b")
    case True
    then show ?thesis using 3 by auto
  next
    case False
    obtain v vs where v: "split_two a b (y # xs) = v # vs" by (meson neq_Nil_conv split_two_nonempty)
    then have "split_two a b (x # y # xs) = (x # v) # vs" using False by auto
    moreover have "pair_free a b v" "\<forall>u\<in>set vs. pair_free a b u" using 3(2)[OF False] v by auto
    moreover have "\<not> (x = a \<and> v \<noteq> [] \<and> hd v = b)" using hd_split_two[OF v] False by auto
    ultimately show ?thesis using 3(3) by (auto simp: pair_free_Cons)
  qed
qed auto

lemma split_two_append:
  "a \<noteq> b \<Longrightarrow> pair_free a b w \<Longrightarrow> split_two a b (w @ a # b # t) = w # split_two a b t"
  by (induction a b w rule: pair_free.induct) auto


section \<open>The rewritten head\<close>

lemma pair_free_no: "a \<notin> set w \<Longrightarrow> pair_free a b w"
  by (induction a b w rule: pair_free.induct) auto

lemma split_two_join:
  assumes "a \<noteq> b"
  shows "ws \<noteq> [] \<Longrightarrow> \<forall>w\<in>set ws. pair_free a b w \<Longrightarrow>
    split_two a b (join [a, b] ws @ a # b # t) = ws @ split_two a b t"
proof (induction ws)
  case (Cons w ws)
  show ?case
  proof (cases "ws = []")
    case True
    then show ?thesis using Cons.prems split_two_append[OF assms] by simp
  next
    case False
    then show ?thesis using Cons split_two_append[OF assms] by (simp add: join_Cons)
  qed
qed simp

text \<open>An absolute-form request is forwarded in origin form: the head the server receives has the method with
  the URL's path and query, the client's other header lines in order without those of \<open>Connection\<close> and
  \<open>Proxy-Connection\<close>, and one \<open>Connection: close\<close>. The lines are empty at the end only, so the blank line
  that closes the head is the last, as long as the client sent one header that is kept.\<close>

theorem rewritten_head_lines:
  assumes "pair_free (unit_char 13) (unit_char 10) (m @ '' '' @ pathname u @ search u @ '' HTTP/1.1'')"
    "filter (\<lambda>l. \<not> hop_header l) (drop 1 (head_lines head)) \<noteq> []"
  shows "head_lines (rewritten_head m u (head_lines head))
     = (m @ '' '' @ pathname u @ search u @ '' HTTP/1.1'')
       # filter (\<lambda>l. \<not> hop_header l) (drop 1 (head_lines head)) @ [''Connection: close'', [], []]"
proof -
  let ?a = "unit_char 13" and ?b = "unit_char 10"
  let ?first = "m @ '' '' @ pathname u @ search u @ '' HTTP/1.1''"
  let ?kept = "filter (\<lambda>l. \<not> hop_header l) (drop 1 (head_lines head))"
  have ab: "?a \<noteq> ?b" by code_simp
  have crlf: "crlf = [?a, ?b]" by (simp add: crlf_def)
  have "\<forall>w\<in>set ?kept. pair_free ?a ?b w"
    by (auto simp: head_lines_def dest: in_set_dropD intro: split_two_pieces)
  then have "split_two ?a ?b (join [?a, ?b] ?kept @ ?a # ?b # ''Connection: close'' @ [?a, ?b, ?a, ?b])
      = ?kept @ split_two ?a ?b (''Connection: close'' @ [?a, ?b, ?a, ?b])"
    using split_two_join[OF ab assms(2)] by blast
  moreover have "split_two ?a ?b (''Connection: close'' @ [?a, ?b, ?a, ?b]) = [''Connection: close'', [], []]"
    by code_simp
  moreover have "split_two ?a ?b (?first @ ?a # ?b # t) = ?first # split_two ?a ?b t" for t
    using split_two_append[OF ab assms(1)] .
  ultimately show ?thesis
    unfolding head_lines_def rewritten_head_def crlf by (simp only: append_Cons append_assoc append_Nil)
qed

definition open_surroundings :: surroundings where
  "open_surroundings = \<lparr>decide = (\<lambda>h. if h = ''bad'' then GoReject else GoDirect), current = None, dial = (\<lambda>n h p. Inr ())\<rparr>"

theorem dials_respect_rules_witness:
  "Dial ''a'' (Fin 80 0) \<in> set (handle (map (\<lambda>b. unit_char (unat b))) (\<lambda>_. None) open_surroundings [5, 1, 0] [[5, 1, 0, 3, 1, 97, 0, 80]])
   \<and> may_dial open_surroundings ''a''"
proof -
  have d: "Dial ''a'' (Fin 80 0) \<in> set (handle (map (\<lambda>b. unit_char (unat b))) (\<lambda>_. None) open_surroundings [5, 1, 0] [[5, 1, 0, 3, 1, 97, 0, 80]])"
    by code_simp
  then show ?thesis using dials_respect_rules[OF d] by blast
qed

theorem socks5_client_reaches_target_witness:
  "handle (map (\<lambda>b. unit_char (unat b))) (\<lambda>_. None) open_surroundings ([5, of_nat (length [0::byte])] @ [0])
       [[5, 1, 0] @ encodeAddr ''example.com'' (Fin (int 8080) 0) @ [22]]
     = [ClientWrite [5, 0], Dial ''example.com'' (Fin (int 8080) 0), ClientWrite (socks_answer 0)]
       @ (if [22::byte] \<noteq> [] then [ClientUnshift [22]] else []) @ [Relay]"
proof (rule socks5_client_reaches_target)
  have "plain_name ''example.com''" unfolding plain_name_def ascii_def by code_simp
  then show "canonical_host ''example.com''" by (simp add: canonical_host_def)
qed (simp_all add: ascii_decoder open_surroundings_def connect_def connect_node_def bind_res_def)

theorem http_head_chunk_independent_witness:
  "\<exists>r k. readHttpHead [71, 13] [[10, 13, 10, 9], [8]] = Some (latin1 (take 1 ([71, 13] @ concat [[10, 13, 10, 9], [8]])), r)
     \<and> k \<le> length [[10, 13, 10, 9], [8::byte]]
     \<and> r @ concat (drop k [[10, 13, 10, 9], [8]]) = drop (1 + 4) ([71, 13] @ concat [[10, 13, 10, 9], [8::byte]])"
  by (rule http_head_chunk_independent) code_simp

theorem absolute_form_drops_body_witness:
  "Relay \<notin> set (handleHttp (\<lambda>_. None) open_surroundings ''POST http://a/ HTTP/1.1'' [1, 2])
     \<and> face_bytes (handleHttp (\<lambda>_. None) open_surroundings ''POST http://a/ HTTP/1.1'' [1, 2])
       = face_bytes (handleHttp (\<lambda>_. None) open_surroundings ''POST http://a/ HTTP/1.1'' [])"
  by (rule absolute_form_drops_body) code_simp

definition sample_head :: string where
  "sample_head = ''GET http://a/x HTTP/1.1'' @ crlf @ ''Host: a'' @ crlf @ ''Proxy-Connection: keep-alive''"

definition sample_url :: url where
  "sample_url = \<lparr>hostname = ''a'', url_port = [], pathname = ''/x'', search = []\<rparr>"

theorem rewritten_head_lines_witness:
  "head_lines (rewritten_head ''GET'' sample_url (head_lines sample_head))
     = (''GET'' @ '' '' @ pathname sample_url @ search sample_url @ '' HTTP/1.1'')
       # filter (\<lambda>l. \<not> hop_header l) (drop 1 (head_lines sample_head)) @ [''Connection: close'', [], []]"
proof (rule rewritten_head_lines)
  show "pair_free (unit_char 13) (unit_char 10) (''GET'' @ '' '' @ pathname sample_url @ search sample_url @ '' HTTP/1.1'')"
    by code_simp
  have "filter (\<lambda>l. \<not> hop_header l) (drop 1 (head_lines sample_head)) = [''Host: a'']"
    by code_simp
  then show "filter (\<lambda>l. \<not> hop_header l) (drop 1 (head_lines sample_head)) \<noteq> []" by simp
qed

text \<open>Without a header line to keep, the blank line comes right after the request line: the server sees a
  head without headers, and \<open>Connection: close\<close> arrives behind it.\<close>

theorem bare_request_ends_early:
  assumes "pair_free (unit_char 13) (unit_char 10) (m @ '' '' @ pathname u @ search u @ '' HTTP/1.1'')"
    "filter (\<lambda>l. \<not> hop_header l) (drop 1 lines) = []"
  shows "head_lines (rewritten_head m u lines)
     = [m @ '' '' @ pathname u @ search u @ '' HTTP/1.1'', [], ''Connection: close'', [], []]"
proof -
  let ?a = "unit_char 13" and ?b = "unit_char 10"
  let ?first = "m @ '' '' @ pathname u @ search u @ '' HTTP/1.1''"
  have ab: "?a \<noteq> ?b" by code_simp
  have crlf: "crlf = [?a, ?b]" by (simp add: crlf_def)
  have "split_two ?a ?b (?a # ?b # ''Connection: close'' @ [?a, ?b, ?a, ?b]) = [[], ''Connection: close'', [], []]"
    by code_simp
  note rest = this [simplified append_Cons append_Nil]
  have "split_two ?a ?b (?first @ ?a # ?b # t) = ?first # split_two ?a ?b t" for t
    using split_two_append[OF ab assms(1)] .
  then show ?thesis
    unfolding head_lines_def rewritten_head_def crlf assms(2) join.simps
    by (simp only: append_Cons append_assoc append_Nil rest)
qed

theorem bare_request_ends_early_witness:
  "head_lines (rewritten_head ''GET'' sample_url [''GET http://a/x HTTP/1.0''])
     = [''GET'' @ '' '' @ pathname sample_url @ search sample_url @ '' HTTP/1.1'', [], ''Connection: close'', [], []]"
  by (rule bare_request_ends_early; code_simp)

section \<open>The relay\<close>

definition relay_chunks :: "relay_event list \<Rightarrow> bytes list" where
  "relay_chunks es = concat (map (\<lambda>e. case e of ClientData c \<Rightarrow> [c] | _ \<Rightarrow> []) es)"

lemma relay_run_up:
  "up (fold relay_step es s) = up s + length (concat (relay_chunks es)) \<and>
   to_face (fold relay_step es s) = to_face s @ relay_chunks es"
proof (induction es arbitrary: s)
  case (Cons e es)
  then show ?case by (cases e) (simp_all add: relay_chunks_def)
qed (simp add: relay_chunks_def)

lemma pumpInto_counts:
  "counted (pumpInto cs e g) = length (concat (written (pumpInto cs e g))) \<and>
   prefix (written (pumpInto cs e g)) (map fst cs)"
  by (induction cs e g rule: pumpInto.induct) (auto simp: Let_def)

text \<open>The traffic counters tell the truth: each direction counts exactly the bytes passed on, the chunks are
  passed on in order and none is altered.\<close>

theorem relay_counts_what_it_forwards:
  "up (fold relay_step es s) = up s + length (concat (relay_chunks es))
   \<and> to_face (fold relay_step es s) = to_face s @ relay_chunks es
   \<and> counted (pumpInto cs e g) = length (concat (written (pumpInto cs e g)))
   \<and> prefix (written (pumpInto cs e g)) (map fst cs)"
  using relay_run_up pumpInto_counts by blast

text \<open>A client that keeps reading gets the whole answer: while its socket takes the chunks, at once or after
  draining, every chunk of the face is written to it, and the socket is ended when the face ends.\<close>

theorem pump_delivers_the_answer:
  assumes "snd ` set cs \<subseteq> {Accepts, FullThenDrains}"
  shows "pumpInto cs SourceEnds False
     = \<lparr>counted = length (concat (map fst cs)), written = map fst cs, pump_end = SocketEnded\<rparr>"
  using assms
proof (induction cs)
  case (Cons c cs)
  then show ?case by (cases c) (auto simp: Let_def)
qed simp

theorem pump_delivers_the_answer_witness:
  "pumpInto [([1, 2], Accepts), ([3], FullThenDrains)] SourceEnds False
     = \<lparr>counted = length (concat (map fst [([1, 2::byte], Accepts), ([3], FullThenDrains)])),
        written = map fst [([1, 2], Accepts), ([3], FullThenDrains)], pump_end = SocketEnded\<rparr>"
  by (rule pump_delivers_the_answer) simp

end
