(* ===== verification/CnData.thy ===== *)
theory CnData
  imports Rules AddrCodec "HOL-Library.List_Lexorder"
begin

text \<open>
  \<open>scripts/build-cn-data.mjs\<close>: the tables the rule engine embeds, computed from three published text
  files, and the engine's data as the tables give it. Downloading, compressing and the JSON text between
  the script and \<open>rules.js\<close> are outside the model: what \<open>loadJson\<close> reads is what the script wrote.
\<close>

section \<open>Downloading\<close>

text \<open>
  \<open>fetchText\<close>: the body of the first address that answers well. \<open>fetch\<close> gives the exception, or the
  status with the text read from the body.
\<close>

definition is_ok :: "nat \<Rightarrow> bool" where
  "is_ok status \<longleftrightarrow> 200 \<le> status \<and> status \<le> 299"

fun fetch_first :: "(string \<Rightarrow> error + nat \<times> (error + string)) \<Rightarrow> string list \<Rightarrow> string \<Rightarrow> error + string" where
  "fetch_first fetch [] lastError = Inl (Error (''all sources failed: '' @ lastError))"
| "fetch_first fetch (url # urls) lastError =
     (case bind_res (fetch url) (\<lambda>(status, body).
             if is_ok status then body else Inl (Error (''HTTP '' @ show_nat status))) of
        Inr s \<Rightarrow> Inr s
      | Inl e \<Rightarrow> fetch_first fetch urls (error_message e))"

definition fetchText :: "(string \<Rightarrow> error + nat \<times> (error + string)) \<Rightarrow> string list \<Rightarrow> error + string" where
  "fetchText fetch urls = fetch_first fetch urls ''undefined''"

section \<open>Domain suffixes\<close>

definition newline :: char where
  "newline = unit_char 10"

definition text_lines :: "string \<Rightarrow> string list" where
  "text_lines s = split_char newline s"

definition MULTI_LABEL_CN :: "string list" where
  "MULTI_LABEL_CN =
     [''com.cn'', ''net.cn'', ''org.cn'', ''gov.cn'', ''edu.cn'', ''ac.cn'', ''mil.cn'', ''sh.cn'', ''bj.cn'',
      ''tj.cn'', ''cq.cn'', ''he.cn'', ''sx.cn'', ''nm.cn'', ''ln.cn'', ''jl.cn'', ''hl.cn'', ''js.cn'', ''zj.cn'',
      ''ah.cn'', ''fj.cn'', ''jx.cn'', ''sd.cn'', ''ha.cn'', ''hb.cn'', ''hn.cn'', ''gd.cn'', ''gx.cn'', ''hi.cn'',
      ''sc.cn'', ''gz.cn'', ''yn.cn'', ''xz.cn'', ''sn.cn'', ''gs.cn'', ''qh.cn'', ''nx.cn'', ''xj.cn'', ''tw.cn'',
      ''hk.cn'', ''mo.cn'']"

text \<open>\<open>/^server=\/([^/]+)\//.exec(line)\<close>, the first group.\<close>

definition server_domain :: "string \<Rightarrow> string option" where
  "server_domain line =
     (if startsWith line ''server=/''
      then (let rest = drop 8 line; d = takeWhile (\<lambda>c. c \<noteq> CHR ''/'') rest
            in if d \<noteq> [] \<and> length d < length rest then Some d else None)
      else None)"

text \<open>\<open>replace(/^\.+|\.+$/g, "")\<close>.\<close>

definition strip_dots :: "string \<Rightarrow> string" where
  "strip_dots s = rev (dropWhile (\<lambda>c. c = CHR ''.'') (rev (dropWhile (\<lambda>c. c = CHR ''.'') s)))"

definition last_labels :: "nat \<Rightarrow> string list \<Rightarrow> string" where
  "last_labels n ls = join ''.'' (drop (length ls - n) ls)"

definition kept_domain :: "string \<Rightarrow> string option" where
  "kept_domain domain =
     (let ls = labels domain; tld2 = last_labels 2 ls in
      if domain = [] \<or> length ls < 2 then None
      else Some (if tld2 \<in> set MULTI_LABEL_CN \<and> 3 \<le> length ls then last_labels 3 ls else tld2))"

definition line_suffix :: "string \<Rightarrow> string option" where
  "line_suffix line =
     (case server_domain line of None \<Rightarrow> None | Some d \<Rightarrow> kept_domain (toLowerCase (strip_dots d)))"

definition list_suffixes :: "string \<Rightarrow> string list" where
  "list_suffixes s = set_order (List.map_filter line_suffix (text_lines s))"

text \<open>The loop that drops what a shorter suffix covers.\<close>

definition covered :: "string list \<Rightarrow> string \<Rightarrow> bool" where
  "covered kept s \<longleftrightarrow> (\<exists>e \<in> set kept. endsWith s (''.'' @ e) \<or> s = e)"

fun drop_covered :: "string list \<Rightarrow> string list \<Rightarrow> string list" where
  "drop_covered kept [] = kept"
| "drop_covered kept (s # ss) = drop_covered (if covered kept s then kept else kept @ [s]) ss"

text \<open>\<open>sort()\<close> without a comparator: by code units.\<close>

definition sort_strings :: "string list \<Rightarrow> string list" where
  "sort_strings ss = sort_key (map code_unit) ss"

definition extractSuffixes :: "string \<Rightarrow> string list" where
  "extractSuffixes s = sort_strings (drop_covered [] (sort_key length (list_suffixes s)))"

section \<open>Address ranges\<close>

text \<open>A line of the IPv4 list: base address and prefix length.\<close>

definition cidr_row :: "string \<Rightarrow> (int \<times> int) option" where
  "cidr_row line =
     (let t = trim line in
      if t = [] then None
      else case index_of (CHR ''/'') t of
             None \<Rightarrow> None
           | Some slash \<Rightarrow>
               (let ip = take slash t; pfx = js_Number (drop (slash + 1) t) in
                if \<not> is_ip4_text ip \<or> \<not> isInteger pfx then None
                else Some (foldl (\<lambda>a p. a * 256 + num_trunc (js_Number p)) 0 (split_char (CHR ''.'') ip), num_trunc pfx)))"

definition packCidrs :: "string \<Rightarrow> (int \<times> int) list" where
  "packCidrs s = sort_key (\<lambda>(ip, pfx). [ip, pfx]) (List.map_filter cidr_row (text_lines s))"

definition cidr6_lines :: "string \<Rightarrow> string list" where
  "cidr6_lines s =
     sort_strings (filter (\<lambda>l. CHR ''/'' \<in> set l \<and> CHR '':'' \<in> set l) (map trim (text_lines s)))"

text \<open>The data of the engine, from the three lists.\<close>

definition built_data :: "string \<Rightarrow> string \<Rightarrow> string \<Rightarrow> cn_data" where
  "built_data list4 list6 domains =
     \<lparr>cn_suffixes = extractSuffixes domains, cn_cidrs4 = packCidrs list4, cn_cidrs6 = load_cidrs6 (cidr6_lines list6)\<rparr>"


section \<open>Suffixes\<close>

text \<open>\<open>covered\<close> in terms of labels: the suffix or one of its parents is kept.\<close>

lemma covered_labels: "covered kept s \<longleftrightarrow> listed kept s"
  by (auto simp: covered_def listed_def suffix_labels endsWith_def)

lemma endsWith_dot_length: "endsWith s (''.'' @ e) \<Longrightarrow> length e < length s"
  by (auto simp: endsWith_def suffix_def)

lemma listed_trans: "listed kept s \<Longrightarrow> suffix (labels s) (labels h) \<Longrightarrow> listed kept h"
  unfolding listed_def by (meson suffix_order.trans)

lemma drop_covered_listed: "listed (drop_covered kept ss) h \<longleftrightarrow> listed (kept @ ss) h"
proof (induction kept ss rule: drop_covered.induct)
  case (2 kept s ss)
  show ?case
  proof (cases "covered kept s")
    case True
    then have "listed kept s" by (simp add: covered_labels)
    then have "suffix (labels s) (labels h) \<Longrightarrow> listed kept h" by (rule listed_trans)
    then show ?thesis using 2 True by (auto simp: listed_def)
  next
    case False
    then show ?thesis using 2 by (simp add: listed_def)
  qed
qed simp

definition independent :: "string list \<Rightarrow> bool" where
  "independent ss \<longleftrightarrow> distinct ss \<and> \<not> (\<exists>s\<in>set ss. \<exists>e\<in>set ss. e \<noteq> s \<and> suffix (labels e) (labels s))"

lemma drop_covered_independent:
  "independent kept \<Longrightarrow> sorted (map length ss) \<Longrightarrow> \<forall>k\<in>set kept. \<forall>s\<in>set ss. length k \<le> length s
   \<Longrightarrow> independent (drop_covered kept ss)"
proof (induction kept ss rule: drop_covered.induct)
  case (2 kept s ss)
  show ?case
  proof (cases "covered kept s")
    case True
    then show ?thesis using 2 by simp
  next
    case False
    have "\<not> suffix (labels s) (labels k)" if "k \<in> set kept" for k
      using that 2(4) False endsWith_dot_length[of k s] by (auto simp: suffix_labels covered_def endsWith_def)
    moreover have "\<not> suffix (labels k) (labels s)" if "k \<in> set kept" for k
      using that False by (auto simp: covered_labels listed_def)
    moreover have "s \<notin> set kept" using False by (auto simp: covered_def)
    ultimately have "independent (kept @ [s])" using 2(2) by (auto simp: independent_def)
    then show ?thesis using 2 False by auto
  qed
qed simp

lemma set_extractSuffixes: "set (extractSuffixes t) = set (drop_covered [] (sort_key length (list_suffixes t)))"
  by (simp add: extractSuffixes_def sort_strings_def)

lemma listed_set: "set xs = set ys \<Longrightarrow> listed xs h \<longleftrightarrow> listed ys h"
  by (simp add: listed_def)

lemma extractSuffixes_listed: "listed (extractSuffixes t) host \<longleftrightarrow> listed (list_suffixes t) host"
proof -
  have "listed (extractSuffixes t) host = listed (drop_covered [] (sort_key length (list_suffixes t))) host"
    by (rule listed_set) (rule set_extractSuffixes)
  then show ?thesis by (simp add: drop_covered_listed listed_set[of "sort_key length _"])
qed

text \<open>C15. Compacting the domain list keeps its meaning: the engine finds a host domestic by the compacted table
  exactly when it would by all suffixes of the list, and no entry of the table is under another one.\<close>

theorem compacted_suffixes_mean_the_list:
  "listed (extractSuffixes domains) host = listed (list_suffixes domains) host \<and> independent (extractSuffixes domains)"
proof
  have "independent (drop_covered [] (sort_key length (list_suffixes domains)))"
    by (rule drop_covered_independent) (simp_all add: independent_def)
  then show "independent (extractSuffixes domains)"
    by (simp add: independent_def set_extractSuffixes) (simp add: extractSuffixes_def sort_strings_def)
qed (rule extractSuffixes_listed)

lemma set_map_filter: "y \<in> set (List.map_filter f xs) \<longleftrightarrow> (\<exists>x\<in>set xs. f x = Some y)"
  by (force simp: List.map_filter_def)

text \<open>The list is cut to registrable names as if every top-level domain but \<open>cn\<close> had names of two labels:
  one listed host makes all hosts under its last two labels domestic. For a host under \<open>co.uk\<close> this sends every
  \<open>co.uk\<close> host direct.\<close>

theorem one_host_lists_its_second_level:
  assumes "line \<in> set (text_lines domains)" "server_domain line = Some d"
    "labels (toLowerCase (strip_dots d)) = ls @ [a, b]" "join ''.'' [a, b] \<notin> set MULTI_LABEL_CN"
    "matchHost e host = None" "suffix [a, b] (labels host)"
  shows "decide_name (built_data list4 list6 domains) e host = Direct"
proof -
  have "toLowerCase (strip_dots d) \<noteq> []" using assms(3) by (auto simp: labels_def)
  then have "line_suffix line = Some (join ''.'' [a, b])"
    using assms(2-4) by (simp add: line_suffix_def kept_domain_def Let_def last_labels_def)
  then have "join ''.'' [a, b] \<in> set (list_suffixes domains)"
    using assms(1) by (auto simp: list_suffixes_def set_map_filter)
  moreover have "labels (join ''.'' [a, b]) = [a, b]"
  proof -
    have "\<forall>w\<in>set [a, b]. CHR ''.'' \<notin> set w"
      using split_char_pieces[of _ "CHR ''.''" "toLowerCase (strip_dots d)"] assms(3) unfolding labels_def by auto
    then show ?thesis unfolding labels_def by (intro split_char_join) simp_all
  qed
  ultimately have "listed (list_suffixes domains) host" using assms(6) unfolding listed_def by metis
  then have "listed (extractSuffixes domains) host" by (simp add: extractSuffixes_listed)
  then show ?thesis using assms(5) by (simp add: decide_name_iff built_data_def)
qed

definition sample_list :: string where
  "sample_list = ''server=/www.amazon.co.uk/114.114.114.114'' @ [newline] @ ''server=/baidu.com/114.114.114.114''"

theorem one_host_lists_its_second_level_witness:
  "decide_name (built_data [] [] sample_list) (mk_engine [] [] []) ''bbc.co.uk'' = Direct"
proof (rule one_host_lists_its_second_level)
  show "''server=/www.amazon.co.uk/114.114.114.114'' \<in> set (text_lines sample_list)" by code_simp
  show "server_domain ''server=/www.amazon.co.uk/114.114.114.114'' = Some ''www.amazon.co.uk''" by code_simp
  show "labels (toLowerCase (strip_dots ''www.amazon.co.uk'')) = [''www'', ''amazon''] @ [''co'', ''uk'']" by code_simp
  show "join ''.'' [''co'', ''uk''] \<notin> set MULTI_LABEL_CN" by code_simp
  show "matchHost (mk_engine [] [] []) ''bbc.co.uk'' = None" by code_simp
  show "suffix [''co'', ''uk''] (labels ''bbc.co.uk'')" by code_simp
qed

section \<open>Ranges\<close>

lemma three_digits:
  assumes "1 \<le> length p" "length p \<le> 3" "\<forall>c\<in>set p. is_digit c"
  shows "js_Number p = Fin (dec_value p) 0 \<and> 0 \<le> dec_value p"
proof -
  have d: "0 \<le> digit_val c \<and> digit_val c \<le> 9" if "is_digit c" for c
    using that by (auto simp: is_digit_def digit_val_def)
  have "0 \<le> dec_value p \<and> dec_value p < 1000"
  proof -
    consider a where "p = [a]" | a b where "p = [a, b]" | a b c where "p = [a, b, c]"
      using assms(1,2) by (cases p; cases "tl p"; cases "tl (tl p)") auto
    then show ?thesis
    proof cases
      case (1 a)
      then show ?thesis using assms(3) d[of a] by (simp add: dec_value_def digits_value_def)
    next
      case (2 a b)
      then show ?thesis using assms(3) d[of a] d[of b] by (simp add: dec_value_def digits_value_def)
    next
      case (3 a b c)
      then show ?thesis using assms(3) d[of a] d[of b] d[of c] by (simp add: dec_value_def digits_value_def)
    qed
  qed
  moreover have "p \<noteq> []" using assms(1) by auto
  ultimately show ?thesis using to_double_small[of "dec_value p"] js_Number_digits[OF \<open>p \<noteq> []\<close> assms(3)] by simp
qed

text \<open>A base the script accepts is read by the engine's own parser to the same number.\<close>

lemma ip4_text_value:
  assumes "is_ip4_text ip"
  shows "ipv4ToInt ip = Some (foldl (\<lambda>a p. a * 256 + num_trunc (js_Number p)) 0 (split_char (CHR ''.'') ip))"
proof -
  have parts: "length (split_char (CHR ''.'') ip) = 4"
    "\<forall>p\<in>set (split_char (CHR ''.'') ip). octet_ok (js_Number p)"
    using assms three_digits by (fastforce simp: is_ip4_text_def Let_def octet_ok_iff)+
  then obtain a b c d where "split_char (CHR ''.'') ip = [a, b, c, d]"
    by (auto simp: numeral_eq_Suc length_Suc_conv)
  then show ?thesis using parts(2) by (simp add: ipv4ToInt_def)
qed

lemma cidr_row_base: "cidr_row line = Some (b, p) \<Longrightarrow> 0 \<le> b \<and> b < 2 ^ 32"
  using ip4_text_value ipv4ToInt_range
  by (fastforce simp: cidr_row_def Let_def split: if_splits option.splits)

lemma packed_rows: "r \<in> set (packCidrs t) \<longleftrightarrow> (\<exists>line\<in>set (text_lines t). cidr_row line = Some r)"
  by (simp add: packCidrs_def set_map_filter)

lemma ex_packed:
  "(\<exists>r\<in>set (packCidrs t). P r) \<longleftrightarrow> (\<exists>line\<in>set (text_lines t). \<exists>b p. cidr_row line = Some (b, p) \<and> P (b, p))"
  unfolding Bex_def packed_rows by auto

lemma packed_sorted: "sorted (map fst (packCidrs t))"
proof -
  let ?key = "\<lambda>(ip :: int, pfx :: int). [ip, pfx]"
  have "sorted (map ?key (packCidrs t))" by (simp add: packCidrs_def)
  then have "sorted_wrt (\<lambda>x y. ?key x \<le> ?key y) (packCidrs t)" by (simp add: sorted_map)
  moreover have "fst x \<le> fst y" if "?key x \<le> ?key y" for x y
    using that by (cases x, cases y) auto
  ultimately have "sorted_wrt (\<lambda>x y. fst x \<le> fst y) (packCidrs t)" by (rule sorted_wrt_mono_rel[rotated]) blast
  then show ?thesis by (simp add: sorted_map)
qed

text \<open>C14. Script and engine together: when every range of the published list is a network address with a prefix
  length up to 32, the engine's scan of the packed table says of each address exactly whether some line of
  the list contains it.\<close>

theorem packed_table_scan_exact:
  assumes "\<forall>line\<in>set (text_lines list4). \<forall>b p. cidr_row line = Some (b, p) \<longrightarrow> 0 \<le> p \<and> p \<le> 32 \<and> 2 ^ nat (32 - p) dvd b"
    "0 \<le> ip" "ip < 2 ^ 32"
  shows "inCnCidr4 (cn_cidrs4 (built_data list4 list6 domains)) ip
     = (\<exists>line\<in>set (text_lines list4). \<exists>b p. cidr_row line = Some (b, p) \<and> b \<le> ip \<and> ip < b + 2 ^ nat (32 - p))"
proof -
  have "table4_ok (packCidrs list4)"
    using assms(1) cidr_row_base packed_sorted by (fastforce simp: table4_ok_def packed_rows)
  from inCnCidr4_iff[OF this assms(2,3)] show ?thesis
    unfolding built_data_def cn_data.simps ex_packed by (simp add: in_range4_def)
qed

definition sample_ranges :: string where
  "sample_ranges = ''1.0.2.0/23'' @ [newline] @ '' 1.0.1.0/24 '' @ [newline] @ ''# end''"

theorem packed_table_scan_exact_witness:
  "inCnCidr4 (cn_cidrs4 (built_data sample_ranges [] [])) 16777980
     = (\<exists>line\<in>set (text_lines sample_ranges). \<exists>b p. cidr_row line = Some (b, p) \<and> b \<le> 16777980 \<and> 16777980 < b + 2 ^ nat (32 - p))"
proof (rule packed_table_scan_exact)
  have l: "text_lines sample_ranges = [''1.0.2.0/23'', '' 1.0.1.0/24 '', ''# end'']" by code_simp
  have "cidr_row ''1.0.2.0/23'' = Some (16777728, 23)" "cidr_row '' 1.0.1.0/24 '' = Some (16777472, 24)"
    "cidr_row ''# end'' = None" by code_simp+
  moreover have "(2 :: int) ^ nat (32 - 23) dvd 16777728" "(2 :: int) ^ nat (32 - 24) dvd 16777472" by simp_all
  ultimately show "\<forall>line\<in>set (text_lines sample_ranges). \<forall>b p. cidr_row line = Some (b, p) \<longrightarrow> 0 \<le> p \<and> p \<le> 32 \<and> 2 ^ nat (32 - p) dvd b"
    unfolding l by (simp only: list.set ball_simps option.inject prod.inject) (simp del: numeral_nat)
qed simp_all

section \<open>Downloads\<close>

text \<open>Does an address answer well, and with what.\<close>

definition answers :: "(string \<Rightarrow> error + nat \<times> (error + string)) \<Rightarrow> string \<Rightarrow> string option" where
  "answers fetch url =
     (case fetch url of Inr (st, Inr s) \<Rightarrow> if is_ok st then Some s else None | _ \<Rightarrow> None)"

lemma fetch_first_eq:
  "case List.map_filter (answers fetch) urls of
     s # _ \<Rightarrow> fetch_first fetch urls m = Inr s
   | [] \<Rightarrow> \<exists>e. fetch_first fetch urls m = Inl e"
proof (induction urls arbitrary: m)
  case (Cons url urls)
  show ?case
  proof (cases "answers fetch url")
    case (Some s)
    then show ?thesis by (auto simp: List.map_filter_simps answers_def split: sum.splits if_splits prod.splits)
  next
    case None
    then have "\<exists>e. bind_res (fetch url) (\<lambda>(st, body). if is_ok st then body else Inl (Error (''HTTP '' @ show_nat st))) = Inl e"
      by (cases "fetch url") (auto simp: answers_def split: sum.splits if_splits)
    then obtain e where "fetch_first fetch (url # urls) m = fetch_first fetch urls (error_message e)" by auto
    then show ?thesis using Cons.IH[of "error_message e"] None by (simp only: List.map_filter_simps option.case)
  qed
qed (simp add: List.map_filter_simps)

text \<open>A download falls back: it gives the body of the first address that answers well, and fails exactly
  when none does.\<close>

theorem download_takes_first_answer:
  "(case fetchText fetch urls of Inr s \<Rightarrow> Some s | Inl e \<Rightarrow> None)
     = (case List.map_filter (answers fetch) urls of s # _ \<Rightarrow> Some s | [] \<Rightarrow> None)"
  using fetch_first_eq[of fetch urls "''undefined''"]
  by (auto simp: fetchText_def split: list.splits sum.splits)


section \<open>The run of the script\<close>

definition SOURCES_cidr :: "string list" where
  "SOURCES_cidr =
    [''https://raw.githubusercontent.com/17mon/china_ip_list/master/china_ip_list.txt'',
     ''https://cdn.jsdelivr.net/gh/17mon/china_ip_list@master/china_ip_list.txt'']"

definition SOURCES_cidr6 :: "string list" where
  "SOURCES_cidr6 =
    [''https://raw.githubusercontent.com/gaoyifan/china-operator-ip/ip-lists/china6.txt'',
     ''https://cdn.jsdelivr.net/gh/gaoyifan/china-operator-ip@ip-lists/china6.txt'']"

definition SOURCES_domains :: "string list" where
  "SOURCES_domains =
    [''https://raw.githubusercontent.com/felixonmars/dnsmasq-china-list/master/accelerated-domains.china.conf'',
     ''https://cdn.jsdelivr.net/gh/felixonmars/dnsmasq-china-list@master/accelerated-domains.china.conf'']"

text \<open>What a data file holds, before JSON and gzip.\<close>

datatype payload = Rows "(int \<times> int) list" | Names "string list"

text \<open>\<open>writeGz\<close>: \<open>refuse\<close> is the error of writing a file, if any.\<close>

definition writeGz ::
  "(string \<Rightarrow> error option) \<Rightarrow> string \<Rightarrow> payload \<Rightarrow> (string \<rightharpoonup> payload) \<Rightarrow> (string \<rightharpoonup> payload) \<times> error option" where
  "writeGz refuse name p files = (case refuse name of None \<Rightarrow> (files(name \<mapsto> p), None) | Some e \<Rightarrow> (files, Some e))"

text \<open>One part: download, transform, write; an exception ends the script.\<close>

definition build_part ::
  "(string \<Rightarrow> error + nat \<times> (error + string)) \<Rightarrow> (string \<Rightarrow> error option) \<Rightarrow> string list \<Rightarrow> (string \<Rightarrow> payload) \<Rightarrow> string
     \<Rightarrow> (string \<rightharpoonup> payload) \<times> error option \<Rightarrow> (string \<rightharpoonup> payload) \<times> error option" where
  "build_part fetch refuse urls convert name r =
     (case r of
        (files, Some e) \<Rightarrow> (files, Some e)
      | (files, None) \<Rightarrow>
          (case fetchText fetch urls of Inl e \<Rightarrow> (files, Some e) | Inr s \<Rightarrow> writeGz refuse name (convert s) files))"

definition build_main ::
  "(string \<Rightarrow> error + nat \<times> (error + string)) \<Rightarrow> (string \<Rightarrow> error option) \<Rightarrow> (string \<rightharpoonup> payload)
     \<Rightarrow> (string \<rightharpoonup> payload) \<times> error option" where
  "build_main fetch refuse files =
     build_part fetch refuse SOURCES_domains (\<lambda>s. Names (extractSuffixes s)) ''cn-domains.json.gz''
       (build_part fetch refuse SOURCES_cidr6 (\<lambda>s. Names (cidr6_lines s)) ''cn-cidrs6.json.gz''
         (build_part fetch refuse SOURCES_cidr (\<lambda>s. Rows (packCidrs s)) ''cn-cidrs.json.gz'' (files, None)))"

text \<open>The engine's module loads the files; without one of them it throws.\<close>

definition loadJson :: "(string \<rightharpoonup> payload) \<Rightarrow> string \<Rightarrow> payload option" where
  "loadJson files name = files name"

definition load_tables :: "(string \<rightharpoonup> payload) \<Rightarrow> cn_data option" where
  "load_tables files =
     (case (loadJson files ''cn-domains.json.gz'', loadJson files ''cn-cidrs.json.gz'', loadJson files ''cn-cidrs6.json.gz'') of
        (Some (Names ss), Some (Rows rows), Some (Names ls)) \<Rightarrow>
          Some \<lparr>cn_suffixes = ss, cn_cidrs4 = rows, cn_cidrs6 = load_cidrs6 ls\<rparr>
      | _ \<Rightarrow> None)"

lemma build_files:
  assumes "build_main fetch refuse files = (files', None)"
  shows "\<exists>c c6 d. fetchText fetch SOURCES_cidr = Inr c \<and> fetchText fetch SOURCES_cidr6 = Inr c6 \<and> fetchText fetch SOURCES_domains = Inr d
    \<and> files' = files(''cn-cidrs.json.gz'' \<mapsto> Rows (packCidrs c), ''cn-cidrs6.json.gz'' \<mapsto> Names (cidr6_lines c6),
        ''cn-domains.json.gz'' \<mapsto> Names (extractSuffixes d))"
  using assms by (auto simp: build_main_def build_part_def writeGz_def split: prod.splits option.splits sum.splits)

text \<open>After a run without an error the engine loads the tables of the three texts downloaded, and no other file has changed.\<close>

theorem engine_loads_the_build:
  assumes "build_main fetch refuse files = (files', None)"
  shows "\<exists>c c6 d. fetchText fetch SOURCES_cidr = Inr c \<and> fetchText fetch SOURCES_cidr6 = Inr c6 \<and> fetchText fetch SOURCES_domains = Inr d
    \<and> load_tables files' = Some (built_data c c6 d)
    \<and> (\<forall>f. f \<notin> {''cn-cidrs.json.gz'', ''cn-cidrs6.json.gz'', ''cn-domains.json.gz''} \<longrightarrow> files' f = files f)"
proof -
  obtain c c6 d where b: "fetchText fetch SOURCES_cidr = Inr c" "fetchText fetch SOURCES_cidr6 = Inr c6" "fetchText fetch SOURCES_domains = Inr d"
    "files' = files(''cn-cidrs.json.gz'' \<mapsto> Rows (packCidrs c), ''cn-cidrs6.json.gz'' \<mapsto> Names (cidr6_lines c6),
        ''cn-domains.json.gz'' \<mapsto> Names (extractSuffixes d))"
    using build_files[OF assms] by blast
  have "load_tables files' = Some (built_data c c6 d)" unfolding b(4) by (simp add: load_tables_def loadJson_def built_data_def)
  moreover have "\<forall>f. f \<notin> {''cn-cidrs.json.gz'', ''cn-cidrs6.json.gz'', ''cn-domains.json.gz''} \<longrightarrow> files' f = files f"
    unfolding b(4) by simp
  ultimately show ?thesis using b(1-3) by blast
qed

text \<open>A run that fails may have replaced some of the tables: those before the failure are new, the others as they were.\<close>

theorem failed_build_is_partial:
  assumes "fetchText fetch SOURCES_cidr = Inr c" "fetchText fetch SOURCES_cidr6 = Inr c6" "fetchText fetch SOURCES_domains = Inl e"
    "\<forall>n. refuse n = None"
  shows "build_main fetch refuse files
    = (files(''cn-cidrs.json.gz'' \<mapsto> Rows (packCidrs c), ''cn-cidrs6.json.gz'' \<mapsto> Names (cidr6_lines c6)), Some e)"
  using assms by (simp add: build_main_def build_part_def writeGz_def)

definition one_answer :: "string \<Rightarrow> error + nat \<times> (error + string)" where
  "one_answer url = (if url \<in> set SOURCES_domains then Inl TypeError else Inr (200, Inr ''1.0.1.0/24''))"

lemma example_downloads:
  "fetchText one_answer SOURCES_cidr = Inr ''1.0.1.0/24''" "fetchText one_answer SOURCES_cidr6 = Inr ''1.0.1.0/24''"
  "\<exists>e. fetchText one_answer SOURCES_domains = Inl e"
  by (simp_all add: fetchText_def SOURCES_cidr_def SOURCES_cidr6_def SOURCES_domains_def one_answer_def is_ok_def)

theorem failed_build_is_partial_witness:
  "\<exists>e. build_main one_answer (\<lambda>_. None) Map.empty
    = ([''cn-cidrs.json.gz'' \<mapsto> Rows (packCidrs ''1.0.1.0/24''), ''cn-cidrs6.json.gz'' \<mapsto> Names (cidr6_lines ''1.0.1.0/24'')], Some e)"
  using failed_build_is_partial[OF example_downloads(1,2)] example_downloads(3) by fastforce

theorem engine_loads_the_build_witness:
  "\<exists>c c6 d. fetchText (\<lambda>_. Inr (200, Inr [])) SOURCES_cidr = Inr c \<and> fetchText (\<lambda>_. Inr (200, Inr [])) SOURCES_cidr6 = Inr c6
     \<and> fetchText (\<lambda>_. Inr (200, Inr [])) SOURCES_domains = Inr d
     \<and> load_tables (fst (build_main (\<lambda>_. Inr (200, Inr [])) (\<lambda>_. None) Map.empty)) = Some (built_data c c6 d)"
proof -
  have "snd (build_main (\<lambda>_. Inr (200, Inr [])) (\<lambda>_. None) Map.empty) = None"
    by (simp add: build_main_def build_part_def writeGz_def fetchText_def SOURCES_cidr_def SOURCES_cidr6_def SOURCES_domains_def is_ok_def)
  then have "build_main (\<lambda>_. Inr (200, Inr [])) (\<lambda>_. None) Map.empty = (fst (build_main (\<lambda>_. Inr (200, Inr [])) (\<lambda>_. None) Map.empty), None)"
    by (simp only: prod_eq_iff fst_conv snd_conv simp_thms)
  from engine_loads_the_build[OF this] show ?thesis by (elim exE conjE) (intro exI conjI; assumption)
qed

end
