(* ===== verification/ManagerApi.thy ===== *)
theory ManagerApi
  imports OpQueue
begin

text \<open>
  The JSON API of \<open>lib/core/manager.js\<close>: \<open>status()\<close>, \<open>setRuntimeEnabled\<close> and \<open>handleHttp\<close> with its body
  reader. A request finds the operation queue idle and the operation it awaits runs to its end; a request
  without reply is one whose operation never ends. JSON text is the library's: bodies arrive parsed by an
  argument and payloads are values.
\<close>

section \<open>Status\<close>

fun state_name :: "mstate \<Rightarrow> string" where
  "state_name Stopped = ''stopped''"
| "state_name Starting = ''starting''"
| "state_name Running = ''running''"
| "state_name Disabled = ''disabled''"
| "state_name NoSubscription = ''no-subscription''"
| "state_name Failed = ''failed''"

definition j_nat :: "nat \<Rightarrow> jsval" where
  "j_nat n = JNum (Fin (int n) 0)"

definition j_opt :: "string option \<Rightarrow> jsval" where
  "j_opt s = (case s of Some x \<Rightarrow> JStr x | None \<Rightarrow> JNull)"

definition mgr_status :: "string \<Rightarrow> config \<Rightarrow> manager \<Rightarrow> jsval" where
  "mgr_status url_env cfg m = JObj
     [(''state'', JStr (state_name (m_state m))),
      (''error'', j_opt (m_error m)),
      (''runtimeOff'', JBool (runtimeOff m)),
      (''enabled'', JBool (enabled cfg)),
      (''subscriptionUrlSet'', JBool (0 < length (subscriptionUrl cfg))),
      (''subscriptionUrlEnv'', JStr url_env),
      (''lastSubscriptionUpdate'', case subscription m of Some s \<Rightarrow> or_else (updatedAt s) JNull | None \<Rightarrow> JNull),
      (''nodeCount'', j_nat (case subscription m of Some s \<Rightarrow> length (sub_names (body s)) | None \<Rightarrow> 0)),
      (''port'', j_nat (m_port m)),
      (''selected'', j_opt (selected m)),
      (''groupType'', JStr (groupType cfg)),
      (''latencyTestUrl'', JStr (latencyTestUrl cfg)),
      (''autoUpdateHours'', j_nat (autoUpdateHours cfg)),
      (''version'', JStr ''2'')]"

section \<open>The request body\<close>

datatype body_event = BodyChunk bytes | BodyEnd | BodyError error

text \<open>
  \<open>readBody\<close> from the size and chunks so far; \<open>parse\<close> is \<open>JSON.parse\<close> of the bytes as UTF-8, \<open>None\<close> when
  it throws. \<open>None\<close> is a promise still pending.
\<close>

fun read_body :: "(bytes \<Rightarrow> jsval option) \<Rightarrow> nat \<Rightarrow> bytes list \<Rightarrow> body_event list \<Rightarrow> (error + jsval) option" where
  "read_body parse seen kept [] = None"
| "read_body parse seen kept (BodyChunk c # es) =
     (let seen = seen + length c in
      if seen > 1024 * 1024 then Some (Inl (Error ''request body too large''))
      else read_body parse seen (kept @ [c]) es)"
| "read_body parse seen kept (BodyEnd # es) =
     Some (Inr (if kept = [] then JObj []
                else case parse (concat kept) of Some v \<Rightarrow> v | None \<Rightarrow> JObj []))"
| "read_body parse seen kept (BodyError e # es) = Some (Inl e)"

section \<open>Traffic\<close>

text \<open>
  Rates since the last request: \<open>Math.max(0, up - last) / seconds\<close> with
  \<open>seconds = Math.max(0.001, (now - at) / 1000)\<close>, in binary64.
\<close>

definition seconds_since :: "int \<Rightarrow> jsnum" where
  "seconds_since ms =
     (let least = to_double 1 1000; s = (if 0 \<le> ms then to_double ms 1000 else num_neg (to_double (- ms) 1000))
      in if num_less s least then least else s)"

definition rate :: "nat \<Rightarrow> nat \<Rightarrow> jsnum \<Rightarrow> jsnum" where
  "rate now_bytes last_bytes seconds =
     (case seconds of Fin m k \<Rightarrow> to_double (int (now_bytes - last_bytes) * 2 ^ k) m | _ \<Rightarrow> Fin 0 0)"

definition mgr_traffic :: "nat \<times> nat \<Rightarrow> nat \<Rightarrow> manager \<Rightarrow> manager \<times> jsval" where
  "mgr_traffic counters now m =
     (let (up, down) = (if server m = None then (0, 0) else counters);
          (last_up, last_down, at) = traffic m;
          seconds = seconds_since (int now - int at)
      in (m\<lparr>traffic := (up, down, now)\<rparr>,
          JObj [(''up'', j_nat up), (''down'', j_nat down),
                (''upRate'', JNum (rate up last_up seconds)), (''downRate'', JNum (rate down last_down seconds))]))"

section \<open>Requests\<close>

text \<open>
  What a request meets: the configuration, the outcomes for an operation it starts, \<open>measureLatency\<close>, the
  results a finished pool of latency tests delivers for some names (in the order they arrive), the server's
  counters and the clock.
\<close>

record api_env =
  e_parsers :: parsers
  e_boot :: boot
  e_cfg :: config
  e_url_env :: string
  e_num_str :: "jsnum \<Rightarrow> string"
  e_ping :: "jsval \<Rightarrow> nat option"
  e_pool :: "string list \<Rightarrow> (string \<times> nat option) list"
  e_counters :: "nat \<times> nat"
  e_now :: nat
  e_json :: "bytes \<Rightarrow> jsval option"

record api_request =
  rq_method :: "string option"
  rq_path :: string
  rq_body :: "body_event list"

type_synonym reply = "(nat \<times> jsval) option"

definition json_error :: "string \<Rightarrow> jsval" where
  "json_error msg = JObj [(''error'', JStr msg)]"

text \<open>The property of a value: null and undefined throw.\<close>

definition member :: "jsval \<Rightarrow> string \<Rightarrow> error + jsval" where
  "member v k = (if is_nullish v then Inl TypeError else Inr (get_prop v k))"

definition sub_path :: "string \<Rightarrow> string" where
  "sub_path path = dropWhile (\<lambda>c. c = CHR ''/'') (drop (length ''/clash-proxy'') path)"

definition req_method :: "api_request \<Rightarrow> string" where
  "req_method r = toUpperCase (case rq_method r of Some v \<Rightarrow> v | None \<Rightarrow> ''GET'')"

text \<open>The outer \<open>catch\<close>: status 500 with the message.\<close>

definition caught :: "error \<Rightarrow> reply" where
  "caught e = Some (500, json_error (error_message e))"

definition with_body :: "api_env \<Rightarrow> api_request \<Rightarrow> manager \<Rightarrow> (jsval \<Rightarrow> manager \<times> reply) \<Rightarrow> manager \<times> reply" where
  "with_body E r m f =
     (case read_body (e_json E) 0 [] (rq_body r) of
        None \<Rightarrow> (m, None)
      | Some (Inl e) \<Rightarrow> (m, caught e)
      | Some (Inr v) \<Rightarrow> f v)"

definition with_member :: "jsval \<Rightarrow> string \<Rightarrow> manager \<Rightarrow> (jsval \<Rightarrow> manager \<times> reply) \<Rightarrow> manager \<times> reply" where
  "with_member v k m f = (case member v k of Inl e \<Rightarrow> (m, caught e) | Inr x \<Rightarrow> f x)"

definition status_reply :: "api_env \<Rightarrow> manager \<Rightarrow> reply" where
  "status_reply E m = Some (200, mgr_status (e_url_env E) (e_cfg E) m)"

text \<open>\<open>await this.restart()\<close>: it settles only when the proxy is enabled.\<close>

definition api_restart :: "api_env \<Rightarrow> manager \<Rightarrow> manager \<times> reply" where
  "api_restart E m =
     (let m' = op_restart (e_parsers E) (e_boot E) (e_cfg E) m in
      (m', if off (e_cfg E) m then None else status_reply E m'))"

definition api_update :: "api_env \<Rightarrow> manager \<Rightarrow> manager \<times> reply" where
  "api_update E m =
     (case op_update (e_parsers E) (e_boot E) (e_cfg E) m of
        (m', Some e) \<Rightarrow> (m', caught e)
      | (m', None) \<Rightarrow> (m', status_reply E m'))"

definition setRuntimeEnabled :: "api_env \<Rightarrow> bool \<Rightarrow> manager \<Rightarrow> manager \<times> reply" where
  "setRuntimeEnabled E on m =
     (let m1 = m\<lparr>runtimeOff := \<not> on\<rparr> in
      if on then api_restart E m1 else (let m' = op_stop m1 in (m', status_reply E m')))"

definition node_view :: "latencies \<Rightarrow> string \<times> jsval \<Rightarrow> jsval" where
  "node_view lat = (\<lambda>(n, node).
     JObj [(''name'', JStr n),
           (''type'', if is_str node then JStr ''uri'' else get_prop node ''type''),
           (''delay'', case lat n of Some (Some d) \<Rightarrow> j_nat d | _ \<Rightarrow> JNull),
           (''alive'', case lat n of None \<Rightarrow> JNull | Some d \<Rightarrow> JBool (d \<noteq> None))])"

definition group_value :: "group_view \<Rightarrow> jsval" where
  "group_value g = JObj [(''name'', g_name g), (''type'', g_type g), (''now'', g_now g), (''all'', g_all g)]"

definition mgr_proxies :: "api_env \<Rightarrow> manager \<Rightarrow> jsval" where
  "mgr_proxies E m =
     (let sub = map_option body (subscription m) in
      JObj [(''groups'', JArr (map group_value (groups (e_num_str E) (groupType (e_cfg E)) sub (selected m) (m_latencies m)))),
            (''nodes'', JArr (map (node_view (m_latencies m)) (nodeMap sub)))])"

definition j_delay :: "nat option \<Rightarrow> jsval" where
  "j_delay d = (case d of Some n \<Rightarrow> j_nat n | None \<Rightarrow> JNull)"

definition api_delay :: "api_env \<Rightarrow> jsval \<Rightarrow> manager \<Rightarrow> manager \<times> reply" where
  "api_delay E v m =
     with_member v ''name'' m (\<lambda>x.
       case x of
         JStr n \<Rightarrow> (let (d, m') = testLatency (e_ping E) n m
                   in (m', Some (200, JObj [(''name'', JStr n), (''delay'', j_delay d)])))
       | _ \<Rightarrow> (m, Some (400, json_error ''missing name'')))"

text \<open>The names a round of tests runs over, and the object of its results.\<close>

definition requested_names :: "manager \<Rightarrow> jsval \<Rightarrow> string list" where
  "requested_names m names =
     (if is_arr names \<and> elems names \<noteq> [] then strings_of (elems names)
      else map fst (nodeMap (map_option body (subscription m))))"

definition api_delay_all :: "api_env \<Rightarrow> jsval \<Rightarrow> manager \<Rightarrow> manager \<times> reply" where
  "api_delay_all E v m =
     with_member v ''names'' m (\<lambda>names.
       let rs = e_pool E (requested_names m names)
       in (m\<lparr>m_latencies := store_latencies rs (m_latencies m)\<rparr>,
           Some (200, JObj [(''results'', JObj (fold (\<lambda>(n, d) o'. set_prop o' n (j_delay d)) rs []))])))"

definition api_select :: "api_env \<Rightarrow> jsval \<Rightarrow> manager \<Rightarrow> manager \<times> reply" where
  "api_select E v m =
     with_member v ''name'' m (\<lambda>x.
       case x of
         JStr n \<Rightarrow> (case selectNode (e_boot E) n m of
                     (m', Some e) \<Rightarrow> (m', caught e)
                   | (m', None) \<Rightarrow> (m', Some (200, JObj [(''ok'', JBool True)])))
       | _ \<Rightarrow> (m, Some (400, json_error ''missing name'')))"

text \<open>\<open>handleHttp\<close>. The guard on the method comes first at every endpoint.\<close>

definition only :: "string \<Rightarrow> string \<Rightarrow> manager \<Rightarrow> manager \<times> reply \<Rightarrow> manager \<times> reply" where
  "only want meth m r = (if meth \<noteq> want then (m, Some (405, json_error (want @ '' only''))) else r)"

definition handle_api :: "api_env \<Rightarrow> api_request \<Rightarrow> manager \<Rightarrow> manager \<times> reply" where
  "handle_api E r m =
     (let sub = sub_path (rq_path r); meth = req_method r in
      if sub = ''status'' then only ''GET'' meth m (m, status_reply E m)
      else if sub = ''restart'' then only ''POST'' meth m (api_restart E m)
      else if sub = ''update-subscription'' then only ''POST'' meth m (api_update E m)
      else if sub = ''runtime-enabled'' then
        only ''POST'' meth m (with_body E r m (\<lambda>v.
          with_member v ''enabled'' m (\<lambda>x. setRuntimeEnabled E (x \<noteq> JBool False) m)))
      else if sub = ''proxies'' then only ''GET'' meth m (m, Some (200, mgr_proxies E m))
      else if sub = ''traffic'' then
        only ''GET'' meth m (let (m', v) = mgr_traffic (e_counters E) (e_now E) m in (m', Some (200, v)))
      else if sub = ''delay'' then only ''POST'' meth m (with_body E r m (\<lambda>v. api_delay E v m))
      else if sub = ''delay-all'' then only ''POST'' meth m (with_body E r m (\<lambda>v. api_delay_all E v m))
      else if sub = ''clear-latencies'' then
        only ''POST'' meth m (clearLatencies m, Some (200, JObj [(''ok'', JBool True)]))
      else if sub = ''select'' then only ''POST'' meth m (with_body E r m (\<lambda>v. api_select E v m))
      else (m, Some (404, json_error (''unknown endpoint '' @ sub))))"


section \<open>Every endpoint, once\<close>

lemmas api_defs = handle_api_def only_def with_body_def with_member_def caught_def status_reply_def
  api_restart_def api_update_def setRuntimeEnabled_def api_delay_def api_delay_all_def api_select_def Let_def

text \<open>Reading is safe: a GET request is always answered and leaves the manager as it was, but for the sample
  of the traffic counters it may take.\<close>

theorem api_get_changes_nothing:
  assumes "req_method r = ''GET''"
  shows "\<exists>t c v. handle_api E r m = (m\<lparr>traffic := t\<rparr>, Some (c, v))"
proof -
  have same: "m = m\<lparr>traffic := traffic m\<rparr>" by simp
  have "\<exists>c v. handle_api E r m = (m, Some (c, v))" if "sub_path (rq_path r) \<noteq> ''traffic''"
    using that assms by (simp add: handle_api_def only_def status_reply_def Let_def)
  moreover have "\<exists>t c v. handle_api E r m = (m\<lparr>traffic := t\<rparr>, Some (c, v))" if "sub_path (rq_path r) = ''traffic''"
    using that assms by (auto simp: handle_api_def only_def mgr_traffic_def Let_def split: prod.splits)
  ultimately show ?thesis using same by metis
qed

text \<open>A refused request has no effect: a reply of status 400, 404 or 405 leaves the manager unchanged.\<close>

theorem api_refusals_change_nothing:
  assumes "handle_api E r m = (m', Some (c, v))" "c \<in> {400, 404, 405}"
  shows "m' = m"
  using assms
  by (auto simp: api_defs member_def mgr_traffic_def split: if_splits option.splits sum.splits prod.splits jsval.splits)

lemma read_body_chunks:
  "n \<le> 1048576 \<Longrightarrow> n = length (concat kept) \<Longrightarrow>
   read_body parse n kept (map BodyChunk cs @ BodyEnd # es) = Some
     (if 1048576 < n + length (concat cs) then Inl (Error ''request body too large'')
      else Inr (if kept @ cs = [] then JObj []
                else case parse (concat (kept @ cs)) of Some v \<Rightarrow> v | None \<Rightarrow> JObj []))"
proof (induction cs arbitrary: n kept)
  case (Cons c cs)
  then show ?case using Cons.IH[of "n + length c" "kept @ [c]"] by (simp add: Let_def)
qed simp

text \<open>The body reader accepts a body of up to one mebibyte whole, however it is cut into chunks, and refuses a
  longer one; text that is not JSON counts as the empty object.\<close>

theorem read_body_limit:
  "read_body parse 0 [] (map BodyChunk cs @ BodyEnd # es) = Some
     (if 1048576 < length (concat cs) then Inl (Error ''request body too large'')
      else Inr (if cs = [] then JObj [] else case parse (concat cs) of Some v \<Rightarrow> v | None \<Rightarrow> JObj []))"
  using read_body_chunks[of 0 "[]"] by simp

text \<open>The status keeps the secrets: two configurations that differ in the subscription address (both set, or
  both not) and in the proxy of the download give the same status.\<close>

theorem status_hides_secrets:
  assumes "(a = []) = (b = [])"
  shows "mgr_status u (cfg\<lparr>subscriptionUrl := a, fetchProxyUrl := x\<rparr>) m
       = mgr_status u (cfg\<lparr>subscriptionUrl := b, fetchProxyUrl := y\<rparr>) m"
  using assms by (simp add: mgr_status_def)

lemma read_body_ends: "BodyEnd \<in> set es \<Longrightarrow> read_body parse n kept es \<noteq> None"
  by (induction parse n kept es rule: read_body.induct) (auto simp: Let_def)

text \<open>While the proxy is enabled every request whose body ends is answered.\<close>

theorem api_answers_when_enabled:
  assumes "enabled (e_cfg E)" "\<not> runtimeOff m" "BodyEnd \<in> set (rq_body r)"
  shows "\<exists>c v. snd (handle_api E r m) = Some (c, v)"
  using assms read_body_ends[of "rq_body r" "e_json E" 0 "[]"]
  by (auto simp: api_defs off_def split: if_splits option.splits sum.splits prod.splits jsval.splits)

text \<open>While it is disabled a restart is never answered, and the manager stays as it was.\<close>

theorem api_restart_when_off_hangs:
  assumes "off (e_cfg E) m" "sub_path (rq_path r) = ''restart''" "req_method r = ''POST''"
  shows "handle_api E r m = (m, None)"
  using assms by (simp add: api_defs op_restart_def off_def)

lemma inv_traffic: "mgr_inv w m \<Longrightarrow> mgr_inv w (m\<lparr>traffic := t\<rparr>)"
  "mgr_inv w m \<Longrightarrow> mgr_inv w (m\<lparr>m_latencies := l\<rparr>)"
  "mgr_inv w m \<Longrightarrow> mgr_inv w (m\<lparr>runtimeOff := v\<rparr>)"
  by (erule inv_same; simp)+

text \<open>C34. The API is as safe as the operations behind it: every request keeps the manager's invariant, so a
  stop after any requests still gives the process back as it was.\<close>

theorem api_keeps_invariant:
  assumes "mgr_inv w m"
  shows "mgr_inv w (fst (handle_api E r m))"
proof -
  have step: "mgr_inv w x \<Longrightarrow> mgr_inv w (op_restart P b cfg x)" "mgr_inv w x \<Longrightarrow> mgr_inv w (fst (op_update P b cfg x))"
    "mgr_inv w x \<Longrightarrow> mgr_inv w (fst (selectNode b n x))" "mgr_inv w x \<Longrightarrow> mgr_inv w (snd (testLatency ping n x))"
    "mgr_inv w x \<Longrightarrow> mgr_inv w (clearLatencies x)" "mgr_inv w x \<Longrightarrow> mgr_inv w (op_stop x)" for x P b cfg n ping
    using inv_step[of w x P "ERestart b cfg"] inv_step[of w x P "EUpdate b cfg"] inv_step[of w x P "ESelect b n"]
      inv_step[of w x P "ETest n ping"] inv_step[of w x P EClear] inv_step[of w x P EStop] by simp_all
  have pairs: "testLatency ping n m = (d, x) \<Longrightarrow> mgr_inv w x" "selectNode b n m = (x, e) \<Longrightarrow> mgr_inv w x"
    "op_update P b cfg m = (x, e) \<Longrightarrow> mgr_inv w x" for ping n d x b e P cfg
    using step(2-4)[OF assms] by (metis fst_conv snd_conv)+
  note t = inv_traffic[OF assms]
  have "mgr_inv w (fst (api_update E m))"
    using pairs(3) by (auto simp: api_update_def split: prod.splits option.splits)
  moreover have "mgr_inv w (fst (setRuntimeEnabled E x m))" for x
    using step(1,6)[OF t(3)] by (simp add: setRuntimeEnabled_def api_restart_def Let_def)
  moreover have "mgr_inv w (fst (api_delay E v m))" for v
    using pairs(1) assms by (auto simp: api_delay_def with_member_def Let_def split: sum.splits jsval.splits prod.splits)
  moreover have "mgr_inv w (fst (api_delay_all E v m))" for v
    using t(2) assms by (auto simp: api_delay_all_def with_member_def Let_def split: sum.splits)
  moreover have "mgr_inv w (fst (api_select E v m))" for v
    using pairs(2) assms
    by (auto simp: api_select_def with_member_def split: sum.splits jsval.splits prod.splits option.splits)
  moreover have "mgr_inv w (fst (mgr_traffic (e_counters E) (e_now E) m))"
    using t(1) by (auto simp: mgr_traffic_def Let_def split: prod.splits)
  ultimately show ?thesis
    using assms step(1,5)[OF assms]
    by (auto simp: handle_api_def only_def with_body_def with_member_def api_restart_def Let_def
        split: option.splits sum.splits prod.splits)
qed

text \<open>Selecting a node over the API takes effect at once: the reply is ok and the proxy answers traffic
  through that node, whatever the group type and the measured delays.\<close>

theorem api_selection_takes_effect:
  assumes "sub_path (rq_path r) = ''select''" "req_method r = ''POST''"
    "read_body (e_json E) 0 [] (rq_body r) = Some (Inr (JObj [(''name'', JStr n)]))"
    "n \<in> set (map fst (nodeMap (map_option body (subscription m))))"
  shows "snd (handle_api E r m) = Some (200, JObj [(''ok'', JBool True)])
     \<and> (let m' = fst (handle_api E r m); table = nodeMap (map_option body (subscription m'))
        in resolveNode num_str group_type table (selected m') lat = map_of table n)"
proof -
  have h: "handle_api E r m = (saveState (e_boot E) (m\<lparr>selected := Some n\<rparr>), Some (200, JObj [(''ok'', JBool True)]))"
    using assms by (simp add: api_defs member_def is_nullish_def selectNode_def)
  have "subscription (saveState (e_boot E) (m\<lparr>selected := Some n\<rparr>)) = subscription m"
    "selected (saveState (e_boot E) (m\<lparr>selected := Some n\<rparr>)) = Some n"
    by (simp_all add: saveState_def)
  then show ?thesis using h assms(4) by (auto simp: resolveNode_def Let_def)
qed

section \<open>Witnesses\<close>

definition sample_world :: host_world where
  "sample_world = \<lparr>env = Map.empty, fetch_fn = NativeFetch 0, dispatch = OtherDispatcher 0, made = 0\<rparr>"

definition sample_env :: api_env where
  "sample_env =
     \<lparr>e_parsers = sample_parsers, e_boot = sample_boot ''ok'', e_cfg = sample_config, e_url_env = ''CLASH_SUBSCRIPTION_URL'',
      e_num_str = (\<lambda>_. []), e_ping = (\<lambda>_. None), e_pool = (\<lambda>ns. map (\<lambda>n. (n, None)) ns), e_counters = (0, 0),
      e_now = 0, e_json = (\<lambda>_. Some (JObj [(''name'', JStr ''a'')]))\<rparr>"

definition sample_request :: "string \<Rightarrow> string \<Rightarrow> api_request" where
  "sample_request v path = \<lparr>rq_method = Some v, rq_path = ''/clash-proxy/'' @ path, rq_body = [BodyChunk [123, 125], BodyEnd]\<rparr>"

theorem api_get_changes_nothing_witness:
  "\<exists>t c v. handle_api sample_env (sample_request ''get'' ''status'') (new_manager sample_world)
     = ((new_manager sample_world)\<lparr>traffic := t\<rparr>, Some (c, v))"
  by (rule api_get_changes_nothing) code_simp

theorem api_refusals_change_nothing_witness:
  "fst (handle_api sample_env (sample_request ''POST'' ''nowhere'') (new_manager sample_world)) = new_manager sample_world"
proof -
  have "handle_api sample_env (sample_request ''POST'' ''nowhere'') (new_manager sample_world)
      = (new_manager sample_world, Some (404, json_error ''unknown endpoint nowhere''))"
    by (simp add: handle_api_def sample_request_def sub_path_def Let_def)
  then show ?thesis using api_refusals_change_nothing by (metis fst_conv insertI1 insertI2)
qed

theorem status_hides_secrets_witness:
  "mgr_status ''E'' (default_config\<lparr>subscriptionUrl := ''https://a/secret'', fetchProxyUrl := ''http://u:p@x''\<rparr>) (new_manager sample_world)
     = mgr_status ''E'' (default_config\<lparr>subscriptionUrl := ''https://b'', fetchProxyUrl := []\<rparr>) (new_manager sample_world)"
  by (rule status_hides_secrets) simp

theorem api_answers_when_enabled_witness:
  "\<exists>c v. snd (handle_api sample_env (sample_request ''POST'' ''restart'') (new_manager sample_world)) = Some (c, v)"
  by (rule api_answers_when_enabled)
     (simp_all add: sample_env_def sample_config_def default_config_def new_manager_def sample_request_def)

theorem api_restart_when_off_hangs_witness:
  "handle_api sample_env (sample_request ''POST'' ''restart'') ((new_manager sample_world)\<lparr>runtimeOff := True\<rparr>)
     = ((new_manager sample_world)\<lparr>runtimeOff := True\<rparr>, None)"
proof (rule api_restart_when_off_hangs)
  show "sub_path (rq_path (sample_request ''POST'' ''restart'')) = ''restart''" by code_simp
  show "req_method (sample_request ''POST'' ''restart'') = ''POST''" by code_simp
qed (simp add: off_def)

theorem api_keeps_invariant_witness:
  "mgr_inv sample_world (fst (handle_api sample_env (sample_request ''POST'' ''restart'') (new_manager sample_world)))"
  by (rule api_keeps_invariant) (rule inv_new)

definition loaded_manager :: manager where
  "loaded_manager = (new_manager sample_world)\<lparr>subscription := Some \<lparr>updatedAt = JNull, body = read_document sample_document\<rparr>\<rparr>"

theorem api_selection_takes_effect_witness:
  "snd (handle_api sample_env (sample_request ''POST'' ''select'') loaded_manager) = Some (200, JObj [(''ok'', JBool True)])
   \<and> (let m' = fst (handle_api sample_env (sample_request ''POST'' ''select'') loaded_manager);
          table = nodeMap (map_option body (subscription m'))
      in resolveNode (\<lambda>_. []) ''url-test'' table (selected m') Map.empty = map_of table ''a'')"
proof (rule api_selection_takes_effect)
  show "sub_path (rq_path (sample_request ''POST'' ''select'')) = ''select''" by code_simp
  show "req_method (sample_request ''POST'' ''select'') = ''POST''" by code_simp
  show "read_body (e_json sample_env) 0 [] (rq_body (sample_request ''POST'' ''select'')) = Some (Inr (JObj [(''name'', JStr ''a'')]))"
    by (simp add: sample_env_def sample_request_def)
  have "''a'' \<in> set (map fst (nodeMap (Some (read_document sample_document))))" by code_simp
  then show "''a'' \<in> set (map fst (nodeMap (map_option body (subscription loaded_manager))))"
    by (simp add: loaded_manager_def)
qed

end
