(* ===== verification/Dialing.thy ===== *)
theory Dialing
  imports Transports
begin

text \<open>
  \<open>lib/core/transports.js\<close>, the rest of a dial: the promises of connecting and writing, the face over a plain
  socket, the connections that run over TCP, TLS or a WebSocket (trojan, vless, vmess) from the opened socket to
  the first write, the child process of the native connector, and which endpoint a node type dials.
\<close>

section \<open>Promises over a socket\<close>

datatype sock_event = SockConnect | SockSecure | SockDrain | SockError error | SockClose

text \<open>\<open>tcpConnect\<close>, \<open>tlsConnect\<close>: the first of two events settles, \<open>None\<close> while neither came.\<close>

fun tcpConnect :: "sock_event list \<Rightarrow> (error + unit) option" where
  "tcpConnect [] = None"
| "tcpConnect (SockConnect # es) = Some (Inr ())"
| "tcpConnect (SockError e # es) = Some (Inl e)"
| "tcpConnect (_ # es) = tcpConnect es"

fun tlsConnect :: "sock_event list \<Rightarrow> (error + unit) option" where
  "tlsConnect [] = None"
| "tlsConnect (SockSecure # es) = Some (Inr ())"
| "tlsConnect (SockError e # es) = Some (Inl e)"
| "tlsConnect (_ # es) = tlsConnect es"

text \<open>\<open>socketWrite\<close>: \<open>full\<close> is a write that returned false.\<close>

fun wait_drain :: "sock_event list \<Rightarrow> (error + unit) option" where
  "wait_drain [] = None"
| "wait_drain (SockDrain # es) = Some (Inr ())"
| "wait_drain (SockError e # es) = Some (Inl e)"
| "wait_drain (_ # es) = wait_drain es"

definition socketWrite :: "bool \<Rightarrow> sock_event list \<Rightarrow> (error + unit) option" where
  "socketWrite full es = (if full then wait_drain es else Some (Inr ()))"

section \<open>The plain face\<close>

text \<open>\<open>buffer.readAny()\<close> on a connection: what is buffered, or the next chunk, or null at the close.\<close>

definition conn_readAny :: "conn \<Rightarrow> outcome \<times> conn" where
  "conn_readAny c =
     (case buf_step (sb c) (CallReadAny 0) of (rs, s) \<Rightarrow> conn_wait rs s (arriving c))"

text \<open>\<open>rawFace\<close>'s generator \<open>read\<close>, and the same loop in \<open>trojanConnect\<close> and \<open>vlessConnect\<close>, \<open>n\<close> rounds of it.\<close>

fun raw_chunks :: "nat \<Rightarrow> conn \<Rightarrow> bytes list" where
  "raw_chunks 0 c = []"
| "raw_chunks (Suc n) c =
     (case conn_readAny c of
        (Resolved chunk, c') \<Rightarrow> chunk # raw_chunks n c'
      | _ \<Rightarrow> [])"

section \<open>Over a socket or a WebSocket\<close>

datatype carrier = Raw | WebSocket

text \<open>\<open>writeRaw\<close>; \<open>maskKey\<close> is the key drawn for the frame.\<close>

definition writeRaw :: "carrier \<Rightarrow> bytes \<Rightarrow> bytes \<Rightarrow> bytes" where
  "writeRaw c maskKey data = (case c of Raw \<Rightarrow> data | WebSocket \<Rightarrow> ws_write maskKey data)"

text \<open>
  The part the three connections share: over \<open>ws\<close> the handshake with the node's path and Host header (whose
  last fallbacks are given), else nothing. \<open>key\<close> is the base64 text of the drawn key. What is written, and
  the carrier with the source behind it; \<open>None\<close> is a loop without end.
\<close>

definition open_carrier ::
  "('s \<Rightarrow> nat \<Rightarrow> error + bytes \<times> 's) \<Rightarrow> (jsnum \<Rightarrow> string) \<Rightarrow> string \<Rightarrow> jsval list \<Rightarrow> jsval \<Rightarrow> 's
     \<Rightarrow> bytes list \<times> (error + carrier \<times> 's) option" where
  "open_carrier rd num_str key fallback node s =
     (if ws_network num_str node then
        (let (path, host) = ws_path_host num_str node fallback in
         ([utf8 (ws_request key path host [])],
          case wsHandshake rd s of
            None \<Rightarrow> None
          | Some (Inl e) \<Rightarrow> Some (Inl e)
          | Some (Inr s') \<Rightarrow> Some (Inr (WebSocket, s'))))
      else ([], Some (Inr (Raw, s))))"

text \<open>Then the first write, which may itself throw.\<close>

definition then_write ::
  "bytes list \<times> (error + carrier \<times> 's) option \<Rightarrow> bytes \<Rightarrow> (error + bytes \<times> 'a)
     \<Rightarrow> bytes list \<times> (error + carrier \<times> 's \<times> 'a) option" where
  "then_write opened maskKey request =
     (case opened of
        (w, None) \<Rightarrow> (w, None)
      | (w, Some (Inl e)) \<Rightarrow> (w, Some (Inl e))
      | (w, Some (Inr (c, s))) \<Rightarrow>
          (case request of
             Inl e \<Rightarrow> (w, Some (Inl e))
           | Inr (bs, x) \<Rightarrow> (w @ [writeRaw c maskKey bs], Some (Inr (c, s, x)))))"

definition trojanConnect ::
  "crypto \<Rightarrow> ('s \<Rightarrow> nat \<Rightarrow> error + bytes \<times> 's) \<Rightarrow> (jsnum \<Rightarrow> string) \<Rightarrow> string \<Rightarrow> bytes \<Rightarrow> jsval \<Rightarrow> string \<Rightarrow> jsnum \<Rightarrow> 's
     \<Rightarrow> bytes list \<times> (error + carrier \<times> 's \<times> unit) option" where
  "trojanConnect C rd num_str key maskKey node host port s =
     then_write (open_carrier rd num_str key [get_prop node ''sni'', get_prop node ''server''] node s) maskKey
       (Inr (trojan_request C num_str node host port, ()))"

text \<open>\<open>vlessConnect\<close>: reality and a bad uuid are refused before anything is written.\<close>

definition vlessConnect ::
  "('s \<Rightarrow> nat \<Rightarrow> error + bytes \<times> 's) \<Rightarrow> (jsnum \<Rightarrow> string) \<Rightarrow> string \<Rightarrow> bytes \<Rightarrow> jsval \<Rightarrow> string \<Rightarrow> jsnum \<Rightarrow> 's
     \<Rightarrow> bytes list \<times> (error + carrier \<times> 's \<times> unit) option" where
  "vlessConnect rd num_str key maskKey node host port s =
     (if toLowerCase (string_or num_str (get_prop node ''flow'') []) = ''xtls-rprx-vision'' \<or> needs_reality node
      then ([], Some (Inl (Error ''vless: reality (xtls-rprx-vision + reality-opts) needs uTLS fingerprinting that Node cannot provide'')))
      else case uuidBytes num_str (get_prop node ''uuid'') of
             Inl e \<Rightarrow> ([], Some (Inl e))
           | Inr uuid \<Rightarrow>
               then_write (open_carrier rd num_str key [get_prop node ''server''] node s) maskKey
                 (bind_res (vmessEncodeAddr host port) (\<lambda>addr. Inr ([0x00] @ uuid @ [0x00] @ [0x01] @ addr, ()))))"

text \<open>\<open>vmessConnect\<close> from the opened socket on; the header and the session are those of \<open>Transports.vmessConnect\<close>.\<close>

definition vmessDial ::
  "crypto \<Rightarrow> ('s \<Rightarrow> nat \<Rightarrow> error + bytes \<times> 's) \<Rightarrow> (jsnum \<Rightarrow> string) \<Rightarrow> string \<Rightarrow> bytes \<Rightarrow> jsval \<Rightarrow> string \<Rightarrow> jsnum \<Rightarrow> draws \<Rightarrow> 's
     \<Rightarrow> bytes list \<times> (error + carrier \<times> 's \<times> vmess_session) option" where
  "vmessDial C rd num_str key maskKey node host port d s =
     then_write (open_carrier rd num_str key [get_prop node ''server''] node s) maskKey
       (vmessConnect C num_str node host port d)"

section \<open>Where a node is dialled\<close>

definition server_endpoint :: "jsval \<Rightarrow> endpoint" where
  "server_endpoint node = Tcp (get_prop node ''server'') (get_prop node ''port'')"

text \<open>The socket each transport opens first; the native connector opens its own.\<close>

fun route_endpoint :: "route \<Rightarrow> jsval \<Rightarrow> string \<Rightarrow> jsnum \<Rightarrow> endpoint option" where
  "route_endpoint Direct node host port = Some (Tcp (JStr host) (JNum port))"
| "route_endpoint Http node host port = Some (http_endpoint node)"
| "route_endpoint Socks5 node host port = Some (server_endpoint node)"
| "route_endpoint Ss node host port = Some (server_endpoint node)"
| "route_endpoint Trojan node host port = Some (trojan_endpoint node)"
| "route_endpoint Vless node host port = Some (vless_endpoint node)"
| "route_endpoint VmessR node host port = Some (http_endpoint node)"
| "route_endpoint (Native _) node host port = None"

section \<open>The native connector\<close>

text \<open>\<open>Number(v)\<close>.\<close>

fun js_to_number :: "(jsnum \<Rightarrow> string) \<Rightarrow> jsval \<Rightarrow> jsnum" where
  "js_to_number num_str JUndef = NaN"
| "js_to_number num_str JNull = Fin 0 0"
| "js_to_number num_str (JBool b) = Fin (if b then 1 else 0) 0"
| "js_to_number num_str (JNum n) = n"
| "js_to_number num_str v = js_Number (js_String num_str v)"

definition native_payload :: "(jsnum \<Rightarrow> string) \<Rightarrow> jsval \<Rightarrow> jsval" where
  "native_payload num_str node = JObj
     [(''type'', get_prop node ''type''),
      (''server'', get_prop node ''server''),
      (''port'', JNum (js_to_number num_str (get_prop node ''port''))),
      (''password'', get_prop node ''password''),
      (''sni'', get_prop node ''sni''),
      (''skip-cert-verify'', JBool (get_prop node ''skip-cert-verify'' = JBool True)),
      (''ports'', get_prop node ''ports''),
      (''uuid'', get_prop node ''uuid''),
      (''flow'', get_prop node ''flow''),
      (''servername'', get_prop node ''servername''),
      (''public-key'', get_prop (get_prop node ''reality-opts'') ''public-key''),
      (''short-id'', get_prop (get_prop node ''reality-opts'') ''short-id''),
      (''client-fingerprint'', get_prop node ''client-fingerprint'')]"

text \<open>The arguments of the child; \<open>stringify\<close> is \<open>JSON.stringify\<close>.\<close>

definition native_args ::
  "(jsnum \<Rightarrow> string) \<Rightarrow> (jsval \<Rightarrow> string) \<Rightarrow> string \<Rightarrow> jsval \<Rightarrow> string \<Rightarrow> jsnum \<Rightarrow> string list" where
  "native_args num_str stringify proto node host port =
     [proto, base64 (utf8 (stringify (native_payload num_str node))), host, num_str port]"

text \<open>The child as the face sees it: what was written to it, the tail of its diagnostics, what it was told.\<close>

record child =
  exited :: bool
  stderrTail :: string
  stdin :: "bytes list"
  stdin_open :: bool
  stdout_open :: bool
  kill_in :: "nat option"

definition new_child :: child where
  "new_child = \<lparr>exited = False, stderrTail = [], stdin = [], stdin_open = True, stdout_open = True, kill_in = None\<rparr>"

datatype child_event = ChildStderr string | ChildExit | ChildWrite bytes | ChildClose

text \<open>\<open>slice(-512)\<close>.\<close>

definition last_chars :: "nat \<Rightarrow> string \<Rightarrow> string" where
  "last_chars n s = drop (length s - n) s"

fun child_step :: "child_event \<Rightarrow> child \<Rightarrow> child" where
  "child_step (ChildStderr t) c = c\<lparr>stderrTail := last_chars 512 (stderrTail c @ t)\<rparr>"
| "child_step ChildExit c = c\<lparr>exited := True\<rparr>"
| "child_step (ChildWrite bs) c = (if \<not> exited c then c\<lparr>stdin := stdin c @ [bs]\<rparr> else c)"
| "child_step ChildClose c =
     c\<lparr>stdin_open := False, stdout_open := False, kill_in := (if \<not> exited c then Some 500 else kill_in c)\<rparr>"

section \<open>Measuring latency\<close>

text \<open>
  \<open>measureLatency\<close>: a race between the dial and a timer. The dial settles after some milliseconds or never;
  \<open>first\<close> says which promise is settled first when both fall into the same millisecond. The result is the
  delay, and whether a face was opened that nothing closes.
\<close>

record measured =
  m_delay :: "nat option"
  left_open :: bool

definition measureLatency :: "(nat \<times> (error + unit)) option \<Rightarrow> nat \<Rightarrow> bool \<Rightarrow> measured" where
  "measureLatency settles timeoutMs first =
     (case settles of
        None \<Rightarrow> \<lparr>m_delay = None, left_open = False\<rparr>
      | Some (t, r) \<Rightarrow>
          (if t < timeoutMs \<or> t = timeoutMs \<and> first then
             (case r of
                Inl e \<Rightarrow> \<lparr>m_delay = None, left_open = False\<rparr>
              | Inr _ \<Rightarrow> \<lparr>m_delay = Some t, left_open = False\<rparr>)
           else \<lparr>m_delay = None, left_open = (\<exists>u. r = Inr u)\<rparr>))"


section \<open>Where the traffic goes\<close>

fun endpoint_target :: "endpoint \<Rightarrow> jsval \<times> jsval" where
  "endpoint_target (Tcp h p) = (h, p)"
| "endpoint_target (Tls h p name skip) = (h, p)"

text \<open>Proxied traffic goes to the node: unless the node is absent or of type direct, the socket that is opened
  is one to the node's own server and port, whatever the target.\<close>

theorem proxied_traffic_goes_to_the_node:
  assumes "connect_route num_str native node = Inr r" "\<not> is_nullish node"
    "get_prop node ''type'' \<noteq> JStr ''direct''" "get_prop node ''type'' \<noteq> JStr ''Direct''"
    "route_endpoint r node host port = Some e"
  shows "endpoint_target e = (get_prop node ''server'', get_prop node ''port'')"
proof -
  have "r \<noteq> Direct" using assms(1-4) by (auto simp: connect_route_def Let_def split: if_splits)
  then show ?thesis
    using assms(5)
    by (cases r) (auto simp: server_endpoint_def http_endpoint_def trojan_endpoint_def vless_endpoint_def split: if_splits)
qed

section \<open>What a server reads\<close>

text \<open>
  A trojan server: 56 hexadecimal characters, a line end, the command, an address in SOCKS layout, a line end.
\<close>

definition parse_trojan :: "(bytes \<Rightarrow> string) \<Rightarrow> bytes \<Rightarrow> (bytes \<times> string \<times> nat \<times> bytes) option" where
  "parse_trojan decode bs =
     (if take 3 (drop 56 bs) \<noteq> [13, 10, 1] then None
      else case readSocks5Request decode ([5, 1, 0] @ drop 59 bs) of
             Inl e \<Rightarrow> None
           | Inr r \<Rightarrow> (if take 2 (req_rest r) = [13, 10]
                      then Some (take 56 bs, req_host r, req_port r, drop 2 (req_rest r)) else None))"

lemma ascii_hex: "ascii (hex_of bs)"
proof -
  have "c \<in> set (hex_of bs) \<Longrightarrow> is_hex_char c" for c
    using hex_of_facts(2)[of bs] by (auto simp: list_all_iff)
  then show ?thesis by (fastforce simp: ascii_def is_hex_char_def Let_def)
qed

text \<open>A trojan request is what a trojan server expects: it reads the digest of the password, the target's
  host and port, and behind them exactly the data the client sends.\<close>

theorem trojan_request_is_understood:
  assumes "digests_correct C" "canonical_host h" "length h < 256" "n < 65536" "utf8_decoder decode"
  shows "parse_trojan decode (trojan_request C num_str node h (Fin (int n) 0) @ data)
     = Some (utf8 (hex_of (sha224 C (utf8 (string_or num_str (get_prop node ''password'') [])))), h, n, data)"
proof -
  define x where "x = utf8 (hex_of (sha224 C (utf8 (string_or num_str (get_prop node ''password'') []))))"
  have len: "length x = 56"
    using assms(1) by (simp add: x_def length_utf8_ascii ascii_hex hex_of_facts digests_correct_def)
  have "trojan_request C num_str node h (Fin (int n) 0) @ data
      = x @ [13, 10, 1] @ (encodeAddr h (Fin (int n) 0) @ [13, 10] @ data)"
    by (simp add: trojan_request_def x_def)
  moreover have "drop 59 (x @ [13, 10, 1] @ ys) = ys" for ys using len by simp
  ultimately show ?thesis
    using len read_request[OF assms(2-5), of "[13, 10] @ data"] by (simp add: parse_trojan_def x_def)
qed

text \<open>A vless server: version, uuid, no addons, the command, then port, address type and address.\<close>

definition addr_length :: "byte \<Rightarrow> bytes \<Rightarrow> nat" where
  "addr_length t bs = (if t = 1 then 4 else if t = 2 then 1 + unat (hd bs) else 16)"

definition parse_port_addr :: "(bytes \<Rightarrow> string) \<Rightarrow> bytes \<Rightarrow> error + socks_request" where
  "parse_port_addr decode bs =
     (let t = bs ! 2; rest = drop 3 bs; n = addr_length t rest in
      readSocks5Request decode ([5, 1, 0] @ [if t = 1 then 1 else if t = 2 then 3 else 4] @ take n rest @ take 2 bs @ drop n rest))"

definition parse_vless :: "(bytes \<Rightarrow> string) \<Rightarrow> bytes \<Rightarrow> (bytes \<times> string \<times> nat \<times> bytes) option" where
  "parse_vless decode bs =
     (if take 1 bs \<noteq> [0] \<or> take 2 (drop 17 bs) \<noteq> [0, 1] then None
      else case parse_port_addr decode (drop 19 bs) of
             Inl e \<Rightarrow> None
           | Inr r \<Rightarrow> Some (take 16 (drop 1 bs), req_host r, req_port r, req_rest r))"

lemma two_layouts:
  assumes "canonical_host h" "length h < 256"
  shows "\<exists>t addr. encodeAddr h port = [if t = 1 then 1 else if t = 2 then 3 else 4] @ addr @ be16 port
    \<and> vmessEncodeAddr h port = Inr (be16 port @ [t] @ addr) \<and> (\<forall>rest. addr_length t (addr @ rest) = length addr)"
proof -
  consider (ip4) ns where "length ns = 4" "\<forall>k\<in>set ns. k < 256" "h = dotted ns"
    | (ip6) gs where "length gs = 8" "h = full_ip6 gs" | (name) "plain_name h"
    using assms(1) unfolding canonical_host_def by blast
  then show ?thesis
  proof cases
    case ip4
    then have t: "is_ip4_text h" by (simp add: is_ip4_text_dotted)
    then show ?thesis
      by (intro exI[of _ 1] exI[of _ "ip4_bytes h"])
        (simp add: encodeAddr_def vmessEncodeAddr_def addr_length_def length_ip4_bytes)
  next
    case ip6
    moreover have "length (concat (map (\<lambda>(a, b). [a, b]) gs)) = 16" using ip6(1) by (simp add: length_pairs)
    ultimately show ?thesis
      by (intro exI[of _ 3] exI[of _ "concat (map (\<lambda>(a, b). [a, b]) gs)"])
        (simp add: encodeAddr_ip6 vmess_ip6 addr_length_def)
  next
    case name
    then have "length (utf8 h) < 256" using assms(2) by (simp add: plain_name_def length_utf8_ascii)
    then show ?thesis using name
      by (intro exI[of _ 2] exI[of _ "of_nat (length (utf8 h)) # utf8 h"])
        (auto simp: encodeAddr_def vmessEncodeAddr_def plain_name_def addr_length_def unat_of_nat_byte)
  qed
qed

lemma two_addresses:
  assumes "vmessEncodeAddr h port = Inr addr" "canonical_host h" "length h < 256"
  shows "parse_port_addr decode (addr @ data) = readSocks5Request decode ([5, 1, 0] @ encodeAddr h port @ data)"
proof -
  obtain t a where l: "encodeAddr h port = [if t = 1 then 1 else if t = 2 then 3 else 4] @ a @ be16 port"
    "vmessEncodeAddr h port = Inr (be16 port @ [t] @ a)" "\<forall>rest. addr_length t (a @ rest) = length a"
    using two_layouts[OF assms(2,3)] by blast
  then show ?thesis using assms(1) by (simp add: parse_port_addr_def Let_def length_be16 nth_append numeral_eq_Suc)
qed

text \<open>A vless request is what a vless server expects: it reads the uuid, the target's host and port, and
  behind them exactly the data.\<close>

theorem vless_request_is_understood:
  assumes "vless_request num_str node h (Fin (int n) 0) = Inr req" "canonical_host h" "length h < 256" "n < 65536"
    "utf8_decoder decode"
  shows "\<exists>uuid. uuidBytes num_str (get_prop node ''uuid'') = Inr uuid
     \<and> parse_vless decode (req @ data) = Some (uuid, h, n, data)"
proof -
  let ?p = "Fin (int n) 0"
  obtain uuid addr where u: "uuidBytes num_str (get_prop node ''uuid'') = Inr uuid"
    and v: "vmessEncodeAddr h ?p = Inr addr" and r: "req = [0] @ uuid @ [0, 1] @ addr"
    using assms(1) by (auto simp: vless_request_def bind_res_Inr_iff split: if_splits)
  have len: "length uuid = 16"
  proof -
    have "length (unhex s) = length s div 2" for s by (induction s rule: unhex.induct) auto
    then show ?thesis using u by (auto simp: uuidBytes_def Let_def split: if_splits)
  qed
  have "parse_port_addr decode (addr @ data) = readSocks5Request decode ([5, 1, 0] @ encodeAddr h ?p @ data)"
    by (rule two_addresses[OF v assms(2,3)])
  then have p: "parse_port_addr decode (addr @ data) = Inr \<lparr>req_host = h, req_port = n, req_rest = data\<rparr>"
    using read_request[OF assms(2-5)] by simp
  have "drop 19 (req @ data) = addr @ data" "take 2 (drop 17 (req @ data)) = [0, 1]" "take 1 (req @ data) = [0]"
    "take 16 (drop 1 (req @ data)) = uuid"
    using len by (simp_all add: r)
  then show ?thesis using u p by (simp add: parse_vless_def)
qed

section \<open>Client frames\<close>

context byte_source begin

lemma client_frames:
  "ok (ws_src w) \<Longrightarrow>
   avail (ws_src w) = concat (map (\<lambda>(k, d). ws_write k d) kds) @ frame_bytes 8 None reason @ rest \<Longrightarrow>
   \<forall>(k, d)\<in>set kds. length k = 4 \<and> length d < 2 ^ 53 \<Longrightarrow> length reason < 126 \<Longrightarrow>
   \<exists>w'. ws_drain rd rnd w acc = Some (Inr (acc @ filter (\<lambda>d. d \<noteq> []) (map snd kds), w'))"
proof (induction kds arbitrary: w acc)
  case Nil
  obtain s' where "ws_frame rd rnd w = Inr (frame_effect rnd 8 reason (w\<lparr>ws_src := s'\<rparr>))"
    using ws_frame_reads[of w 8 None reason rest rnd] Nil by auto
  then have "ws_frame rd rnd w = Inr (Return, w\<lparr>ws_src := s'\<rparr>)" by (simp add: frame_effect_def)
  then have "ws_next rd rnd w = Some (Inr (None, w\<lparr>ws_src := s'\<rparr>))" by (simp add: ws_next.simps[of rd rnd w])
  then show ?case by (simp add: ws_drain.simps[of rd rnd w])
next
  case (Cons kd kds)
  obtain k d where kd: "kd = (k, d)" by force
  let ?rest = "concat (map (\<lambda>(k, d). ws_write k d) kds) @ frame_bytes 8 None reason @ rest"
  have "avail (ws_src w) = frame_bytes 2 (Some k) d @ ?rest"
    using Cons.prems(2) by (simp add: kd ws_write_frame)
  then obtain s' where s': "ws_frame rd rnd w = Inr (frame_effect rnd 2 d (w\<lparr>ws_src := s'\<rparr>))"
      "avail s' = ?rest" "ok s'"
    using ws_frame_reads[of w 2 "Some k" d ?rest rnd] Cons.prems(1,3) kd by auto
  obtain w2 where ih: "ws_drain rd rnd (w\<lparr>ws_src := s'\<rparr>) acc' = Some (Inr (acc' @ filter (\<lambda>d. d \<noteq> []) (map snd kds), w2))"
    if "acc' = (if d = [] then acc else acc @ [d])" for acc'
    using Cons.IH[of "w\<lparr>ws_src := s'\<rparr>"] s'(2,3) Cons.prems(3,4) by fastforce
  show ?case
  proof (cases "d = []")
    case True
    then have "ws_next rd rnd w = ws_next rd rnd (w\<lparr>ws_src := s'\<rparr>)"
      using s'(1) by (simp add: ws_next.simps[of rd rnd w] frame_effect_def)
    then have "ws_drain rd rnd w acc = ws_drain rd rnd (w\<lparr>ws_src := s'\<rparr>) acc" by (rule ws_drain_next)
    then show ?thesis using ih True kd by auto
  next
    case False
    then have "ws_next rd rnd w = Some (Inr (Some d, w\<lparr>ws_src := s'\<rparr>))"
      using s'(1) by (simp add: ws_next.simps[of rd rnd w] frame_effect_def)
    then have "ws_drain rd rnd w acc = ws_drain rd rnd (w\<lparr>ws_src := s'\<rparr>) (acc @ [d])"
      by (simp add: ws_drain.simps[of rd rnd w])
    then show ?thesis using ih False kd by auto
  qed
qed

end

text \<open>A WebSocket carries a trojan or vless connection faithfully: what \<open>writeRaw\<close> sends for the request and the
  data after it, closed by a close frame, is read on the other side as exactly these messages in order, empty
  ones left out, however the bytes are cut into chunks.\<close>

theorem websocket_carries_the_writes:
  assumes "iter_avail s = concat (map (\<lambda>(k, d). writeRaw WebSocket k d) kds) @ frame_bytes 8 None []"
    "\<forall>kd\<in>set kds. length (fst kd) = 4 \<and> length (snd kd) < 2 ^ 53"
  shows "\<exists>w'. ws_drain iter_read rnd \<lparr>ws_src = s, ws_sent = [], ws_draws = 0\<rparr> []
     = Some (Inr (filter (\<lambda>d. d \<noteq> []) (map snd kds), w'))"
  using iter.client_frames[of "\<lparr>ws_src = s, ws_sent = [], ws_draws = 0\<rparr>" kds "[]" "[]" rnd "[]"] assms
  by (simp add: writeRaw_def case_prod_beta)

section \<open>The plain face delivers\<close>

lemma buf_Nil: "buf s = [] \<Longrightarrow> s\<lparr>buf := [], waiters := ws\<rparr> = s\<lparr>waiters := ws\<rparr>"
  by (cases s) simp

lemma waiters_same: "waiters s = ws \<Longrightarrow> s\<lparr>waiters := ws\<rparr> = s"
  by (cases s) simp

lemma conn_wait_any:
  assumes "\<not> ended s" "waiters s = [Any i]" "buf s = []"
  shows "case dropWhile (\<lambda>x. x = []) cs of
     [] \<Rightarrow> \<exists>c. conn_wait [] s cs = (ResolvedNull, c)
   | x # xs \<Rightarrow> conn_wait [] s cs = (Resolved x, \<lparr>sb = s\<lparr>waiters := []\<rparr>, arriving = xs\<rparr>)"
  using assms
proof (induction cs arbitrary: s)
  case (Cons x cs)
  show ?case
  proof (cases "x = []")
    case True
    then have "buf_step s (OnData x) = ([], s)"
      using Cons.prems by (simp add: flush_state_def buf_Nil waiters_same)
    moreover have "conn_wait [] s (x # cs) = (case buf_step s (OnData x) of (rs, s') \<Rightarrow> conn_wait rs s' cs)" by simp
    ultimately have eq: "conn_wait [] s (x # cs) = conn_wait [] s cs" by (simp only: prod.case)
    have "dropWhile (\<lambda>x. x = []) (x # cs) = dropWhile (\<lambda>x. x = []) cs" using True by simp
    then show ?thesis using Cons.IH[OF Cons.prems] by (simp only: eq)
  next
    case False
    then have "buf_step s (OnData x) = ([(i, Resolved x)], s\<lparr>waiters := []\<rparr>)"
      using Cons.prems by (simp add: flush_state_def buf_Nil)
    moreover have "conn_wait [] s (x # cs) = (case buf_step s (OnData x) of (rs, s') \<Rightarrow> conn_wait rs s' cs)" by simp
    ultimately have "conn_wait [] s (x # cs) = (Resolved x, \<lparr>sb = s\<lparr>waiters := []\<rparr>, arriving = cs\<rparr>)"
      by (simp only: prod.case conn_wait.simps(1) snd_conv)
    then show ?thesis using False by simp
  qed
qed simp

text \<open>The chunks the face yields: what is buffered, then every chunk that is not empty.\<close>

definition face_chunks :: "conn \<Rightarrow> bytes list" where
  "face_chunks c = (if buf (sb c) = [] then [] else [buf (sb c)]) @ filter (\<lambda>x. x \<noteq> []) (arriving c)"

lemma conn_readAny_chunks:
  assumes "conn_ok c"
  shows "case face_chunks c of
     [] \<Rightarrow> \<exists>c'. conn_readAny c = (ResolvedNull, c')
   | x # xs \<Rightarrow> \<exists>c'. conn_readAny c = (Resolved x, c') \<and> conn_ok c' \<and> face_chunks c' = xs"
proof (cases "buf (sb c) = []")
  case True
  let ?s = "(sb c)\<lparr>waiters := [Any 0]\<rparr>"
  have s: "\<not> ended ?s" "waiters ?s = [Any 0]" "buf ?s = []" using assms True by (simp_all add: conn_ok_def)
  have r: "conn_readAny c = conn_wait [] ?s (arriving c)"
    using assms True by (simp add: conn_readAny_def conn_ok_def flush_state_def buf_Nil[OF True])
  have f: "filter (\<lambda>x. x \<noteq> []) cs = (case dropWhile (\<lambda>x. x = []) cs of [] \<Rightarrow> [] | x # xs \<Rightarrow> x # filter (\<lambda>x. x \<noteq> []) xs)"
    for cs :: "bytes list" by (induction cs) auto
  show ?thesis
  proof (cases "dropWhile (\<lambda>x. x = []) (arriving c)")
    case Nil
    then show ?thesis using conn_wait_any[OF s, of "arriving c"] True
      by (simp add: r face_chunks_def f[of "arriving c"] del: dropWhile_eq_Nil_conv)
  next
    case (Cons x xs)
    then show ?thesis
      using conn_wait_any[OF s, of "arriving c"] assms True
      by (simp add: r face_chunks_def f[of "arriving c"] conn_ok_def)
  qed
next
  case False
  then show ?thesis using assms by (auto simp: conn_readAny_def conn_ok_def flush_state_def face_chunks_def)
qed

text \<open>The plain face loses nothing: a consumer that pulls \<open>n\<close> chunks gets the first \<open>n\<close> of them, the bytes a
  handshake left in the buffer first.\<close>

theorem raw_face_delivers:
  assumes "conn_ok c"
  shows "raw_chunks n c = take n (face_chunks c)"
  using assms
proof (induction n arbitrary: c)
  case (Suc n)
  then show ?case
    using conn_readAny_chunks[OF Suc.prems] by (cases "face_chunks c") (auto split: list.splits)
qed simp

section \<open>The child process\<close>

lemma last_chars_append: "last_chars n (last_chars n s @ t) = last_chars n (s @ t)"
  by (cases "length s \<le> n") (auto simp: last_chars_def add.commute)

definition stderr_text :: "child_event list \<Rightarrow> string" where
  "stderr_text es = concat (map (\<lambda>e. case e of ChildStderr t \<Rightarrow> t | _ \<Rightarrow> []) es)"

lemma stderr_fold:
  "stderrTail c = last_chars 512 seen \<Longrightarrow>
   stderrTail (fold child_step es c) = last_chars 512 (seen @ stderr_text es)"
proof (induction es arbitrary: c seen)
  case (Cons e es)
  show ?case
  proof (cases e)
    case (ChildStderr t)
    then have "stderrTail (child_step e c) = last_chars 512 (seen @ t)" using Cons.prems by (simp add: last_chars_append)
    from Cons.IH[OF this] show ?thesis using ChildStderr by (simp add: stderr_text_def)
  next
    case (ChildWrite bs)
    then show ?thesis using Cons by (simp add: stderr_text_def)
  qed (use Cons in \<open>simp_all add: stderr_text_def\<close>)
qed (simp add: stderr_text_def)

lemma stdin_fold:
  "exited c \<Longrightarrow> stdin (fold child_step es c) = stdin c"
proof (induction es arbitrary: c)
  case (Cons e es)
  then show ?case by (cases e) auto
qed simp

text \<open>The connector's diagnostics are bounded and nothing is written to a dead child: whatever happens, the text
  kept is the last 512 characters of all it wrote, and after its exit its input stays as it was.\<close>

theorem native_child_is_bounded:
  "stderrTail (fold child_step es new_child) = last_chars 512 (stderr_text es)
   \<and> stdin (fold child_step es' (child_step ChildExit (fold child_step es new_child))) = stdin (fold child_step es new_child)"
  using stderr_fold[of new_child "[]" es] stdin_fold[of "child_step ChildExit (fold child_step es new_child)" es']
  by (simp add: new_child_def last_chars_def)

section \<open>Latency\<close>

text \<open>A latency is a real one: a measured delay is within the timeout and its connection is closed again; a dial
  that succeeds after the timeout gives no delay and leaves its connection open.\<close>

theorem latency_within_timeout:
  "(case m_delay (measureLatency settles timeoutMs first) of
      Some d \<Rightarrow> settles = Some (d, Inr ()) \<and> d \<le> timeoutMs \<and> left_open (measureLatency settles timeoutMs first) = False
    | None \<Rightarrow> left_open (measureLatency settles timeoutMs first)
        = (\<exists>t. settles = Some (t, Inr ()) \<and> timeoutMs \<le> t))"
  by (auto simp: measureLatency_def split: option.splits sum.splits)

section \<open>Witnesses\<close>

definition sample_trojan :: jsval where
  "sample_trojan = JObj [(''type'', JStr ''trojan''), (''server'', JStr ''s''), (''port'', JNum (Fin 443 0)), (''password'', JStr ''p''),
     (''uuid'', JStr ''00000000-0000-0000-0000-000000000000'')]"

theorem proxied_traffic_goes_to_the_node_witness:
  "endpoint_target (trojan_endpoint sample_trojan) = (get_prop sample_trojan ''server'', get_prop sample_trojan ''port'')"
proof (rule proxied_traffic_goes_to_the_node[where r = Trojan and host = "''example.com''" and port = "Fin 80 0"])
  show "connect_route (\<lambda>_. []) False sample_trojan = Inr Trojan" by code_simp
qed (simp_all add: sample_trojan_def is_nullish_def)

lemma example_host: "canonical_host ''example.com''"
proof -
  have "plain_name ''example.com''" unfolding plain_name_def ascii_def by code_simp
  then show ?thesis by (simp add: canonical_host_def)
qed

theorem trojan_request_is_understood_witness:
  "parse_trojan (map (\<lambda>b. unit_char (unat b)))
     (trojan_request sum_crypto (\<lambda>_. []) sample_trojan ''example.com'' (Fin (int 443) 0) @ [22, 3])
   = Some (utf8 (hex_of (sha224 sum_crypto (utf8 (string_or (\<lambda>_. []) (get_prop sample_trojan ''password'') [])))), ''example.com'', 443, [22, 3])"
  by (rule trojan_request_is_understood[OF sum_crypto_correct(2) example_host _ _ ascii_decoder]) simp_all

theorem vless_request_is_understood_witness:
  "\<exists>req uuid. uuidBytes (\<lambda>_. []) (get_prop sample_trojan ''uuid'') = Inr uuid
     \<and> parse_vless (map (\<lambda>b. unit_char (unat b))) (req @ [1]) = Some (uuid, ''example.com'', 443, [1])"
proof -
  obtain uuid where u: "uuidBytes (\<lambda>_. []) (get_prop sample_trojan ''uuid'') = Inr uuid"
  proof -
    have "(case uuidBytes (\<lambda>_. []) (get_prop sample_trojan ''uuid'') of Inr u \<Rightarrow> True | Inl e \<Rightarrow> False)" by code_simp
    then show ?thesis using that by (auto split: sum.splits)
  qed
  obtain t a where "vmessEncodeAddr ''example.com'' (Fin (int 443) 0) = Inr (be16 (Fin (int 443) 0) @ [t] @ a)"
    using two_layouts[OF example_host, of "Fin (int 443) 0"] by auto
  then obtain req where "vless_request (\<lambda>_. []) sample_trojan ''example.com'' (Fin (int 443) 0) = Inr req"
    using u by (simp add: vless_request_def needs_reality_def is_nullish_def) (simp add: sample_trojan_def toLowerCase_def is_nullish_def)
  from vless_request_is_understood[OF this example_host _ _ ascii_decoder, of "[1]"] show ?thesis using u by auto
qed

theorem websocket_carries_the_writes_witness:
  "\<exists>w'. ws_drain iter_read (\<lambda>_. [])
      \<lparr>ws_src = \<lparr>pending = [], chunks = [writeRaw WebSocket [1, 2, 3, 4] [9, 8], writeRaw WebSocket [4, 3, 2, 1] [7] @ frame_bytes 8 None []]\<rparr>,
       ws_sent = [], ws_draws = 0\<rparr> []
     = Some (Inr (filter (\<lambda>d. d \<noteq> []) (map snd [([1, 2, 3, 4 :: byte], [9, 8 :: byte]), ([4, 3, 2, 1], [7])]), w'))"
  by (rule websocket_carries_the_writes[where kds = "[([1, 2, 3, 4], [9, 8]), ([4, 3, 2, 1], [7])]"]) (simp_all add: iter_avail_def)

theorem raw_face_delivers_witness:
  "raw_chunks 2 \<lparr>sb = new_sockbuf\<lparr>buf := [1]\<rparr>, arriving = [[], [2, 3], [4]]\<rparr>
     = take 2 (face_chunks \<lparr>sb = new_sockbuf\<lparr>buf := [1]\<rparr>, arriving = [[], [2, 3], [4]]\<rparr>)"
  by (rule raw_face_delivers) (simp add: conn_ok_def)

end
