(* ===== verification/Inbound.thy ===== *)
theory Inbound
  imports ProxyServer
begin

text \<open>
  \<open>lib/core/proxy-server.js\<close> in time: an inbound connection as a machine over arrivals, emissions of its stream and the
  settled dial, related to the function \<open>handle\<close> of \<open>ProxyServer\<close>, with the way of the client's bytes; and the server
  around the connections: \<open>start\<close>, \<open>port\<close>, \<open>stop\<close>, accepting, the upward counter. Continuations of promises run before the
  next event of a socket. A stream flows once it has had a listener for data, and does not pause when that is removed.
\<close>

section \<open>From the request to the dial\<close>

text \<open>What a connection is dialled for, with what its success needs: the bytes behind the SOCKS5 request, or the head to forward.\<close>

datatype purpose = ForSocks bytes | ForConnect | ForAbsolute bytes

fun accepted_acts :: "purpose \<Rightarrow> string \<Rightarrow> jsnum \<Rightarrow> act list" where
  "accepted_acts (ForSocks rest) host port =
     [Dial host port, ClientWrite (socks_answer 0x00)] @ (if rest \<noteq> [] then [ClientUnshift rest] else []) @ [Relay]"
| "accepted_acts ForConnect host port =
     [Dial host port, ClientWrite (text_bytes (''HTTP/1.1 200 Connection Established'' @ crlf @ crlf)), Relay]"
| "accepted_acts (ForAbsolute outbound) host port = [Dial host port, FaceWrite outbound, PumpDown]"

fun refused_acts :: "purpose \<Rightarrow> act list" where
  "refused_acts (ForSocks rest) = [ClientEnd (socks_answer 0x05)]"
| "refused_acts _ = [bad_gateway]"

text \<open>\<open>#handleHttp\<close> up to the call of \<open>#connect\<close>: an answer, or what to dial.\<close>

definition connect_plan :: "string \<Rightarrow> act list + string \<times> jsnum \<times> purpose" where
  "connect_plan target =
     (case last_index_of (CHR '':'') target of
        None \<Rightarrow> Inl [bad_request]
      | Some 0 \<Rightarrow> Inl [bad_request]
      | Some colon \<Rightarrow> Inr (take colon target, js_Number (drop (colon + 1) target), ForConnect))"

definition absolute_plan :: "(string \<Rightarrow> url option) \<Rightarrow> string \<Rightarrow> string \<Rightarrow> string list \<Rightarrow> act list + string \<times> jsnum \<times> purpose" where
  "absolute_plan parse_url reqmethod target lines =
     (case parse_url target of
        None \<Rightarrow> Inl [bad_request]
      | Some u \<Rightarrow>
          Inr (hostname u, (if url_port u \<noteq> [] then js_Number (url_port u) else Fin 80 0),
               ForAbsolute (utf8 (rewritten_head reqmethod u lines))))"

definition http_plan :: "(string \<Rightarrow> url option) \<Rightarrow> string \<Rightarrow> act list + string \<times> jsnum \<times> purpose" where
  "http_plan parse_url head =
     (let lines = head_lines head; (reqmethod, target) = request_line (hd lines) in
      if reqmethod = ''CONNECT'' then (case target of None \<Rightarrow> Inl [ClientDestroy] | Some t \<Rightarrow> connect_plan t)
      else case target of
        None \<Rightarrow> Inl [bad_request]
      | Some t \<Rightarrow> if is_absolute t then absolute_plan parse_url reqmethod t lines else Inl [bad_request])"

definition plan_result :: "surroundings \<Rightarrow> act list + string \<times> jsnum \<times> purpose \<Rightarrow> act list" where
  "plan_result S p =
     (case p of
        Inl acts \<Rightarrow> acts
      | Inr (host, port, why) \<Rightarrow> (case connect S host port of Inl e \<Rightarrow> refused_acts why | Inr _ \<Rightarrow> accepted_acts why host port))"

lemma handleHttp_plan:
  "handleHttp parse_url S head rest = (if rest \<noteq> [] then [ClientUnshift rest] else []) @ plan_result S (http_plan parse_url head)"
  by (auto simp: handleHttp_def http_plan_def plan_result_def handleConnect_def connect_plan_def handleAbsolute_def
      absolute_plan_def Let_def split: option.splits prod.splits sum.splits nat.splits)

section \<open>One inbound connection\<close>

text \<open>Where the handler of a connection stands; only the first three and \<open>Relaying\<close> have a listener for data.\<close>

datatype conn_phase =
    AwaitFirst
  | AwaitRequest
  | AwaitHead bytes
  | Dialling "jsval option" string jsnum purpose
  | Relaying
  | Pumping
  | Answered

text \<open>
  The chunks the stream holds, those handed to nobody, what the face was given, what the client was given by the pump,
  whether the face is open, and the actions so far, as in \<open>handle\<close>. A stream that once had a listener for data flows:
  a chunk is emitted whether there is a listener or not, and then lost.
\<close>

record connection =
  phase :: conn_phase
  stream :: "bytes list"
  consumed :: "bytes list"
  lost :: "bytes list"
  relayed :: "bytes list"
  face_is_open :: bool
  acts :: "act list"

definition new_connection :: connection where
  "new_connection = \<lparr>phase = AwaitFirst, stream = [], consumed = [], lost = [], relayed = [], face_is_open = False, acts = []\<rparr>"

definition answered :: "act list \<Rightarrow> connection \<Rightarrow> connection" where
  "answered as c = c\<lparr>phase := Answered, acts := acts c @ as\<rparr>"

text \<open>\<open>#connect\<close> up to the call of \<open>connectThrough\<close>.\<close>

definition begin_dial :: "surroundings \<Rightarrow> string \<Rightarrow> jsnum \<Rightarrow> purpose \<Rightarrow> connection \<Rightarrow> connection" where
  "begin_dial S host port why c =
     (case connect_node (decide S) (current S) host of
        Inl e \<Rightarrow> answered (refused_acts why) c
      | Inr node \<Rightarrow> c\<lparr>phase := Dialling node host port why\<rparr>)"

text \<open>When it settles: the purpose's actions; the rest of a SOCKS5 request goes back to the stream as the relay starts.\<close>

definition dial_settles :: "surroundings \<Rightarrow> connection \<Rightarrow> connection" where
  "dial_settles S c =
     (case phase c of
        Dialling node host port why \<Rightarrow>
          (case dial S node host port of
             Inl e \<Rightarrow> answered (refused_acts why) c
           | Inr _ \<Rightarrow>
               (let c1 = c\<lparr>acts := acts c @ accepted_acts why host port, face_is_open := True\<rparr> in
                case why of
                  ForSocks rest \<Rightarrow> c1\<lparr>phase := Relaying, stream := (if rest \<noteq> [] then [rest] else []) @ stream c\<rparr>
                | ForConnect \<Rightarrow> c1\<lparr>phase := Relaying\<rparr>
                | ForAbsolute outbound \<Rightarrow> c1\<lparr>phase := Pumping\<rparr>))
      | _ \<Rightarrow> c)"

definition head_buffered :: "(string \<Rightarrow> url option) \<Rightarrow> surroundings \<Rightarrow> bytes \<Rightarrow> connection \<Rightarrow> connection" where
  "head_buffered parse_url S buffer c =
     (case head_end buffer of
        None \<Rightarrow> c\<lparr>phase := AwaitHead buffer\<rparr>
      | Some i \<Rightarrow>
          (let rest = drop (i + 4) buffer;
               c1 = (if rest \<noteq> [] then c\<lparr>stream := rest # stream c, acts := acts c @ [ClientUnshift rest]\<rparr> else c)
           in case http_plan parse_url (latin1 (take i buffer)) of
                Inl as \<Rightarrow> answered as c1
              | Inr (host, port, why) \<Rightarrow> begin_dial S host port why c1))"

definition request_arrived :: "(bytes \<Rightarrow> string) \<Rightarrow> surroundings \<Rightarrow> bytes \<Rightarrow> connection \<Rightarrow> connection" where
  "request_arrived decode S header c =
     (case readSocks5Request decode header of
        Inl e \<Rightarrow> answered [ClientDestroy] c
      | Inr r \<Rightarrow>
          (if decide S (req_host r) = GoReject then answered [ClientEnd (socks_answer 0x02)] c
           else begin_dial S (req_host r) (Fin (int (req_port r)) 0) (ForSocks (req_rest r)) c))"

text \<open>The listener that is there when a chunk is emitted, if any.\<close>

definition on_data :: "(bytes \<Rightarrow> string) \<Rightarrow> (string \<Rightarrow> url option) \<Rightarrow> surroundings \<Rightarrow> bytes \<Rightarrow> connection \<Rightarrow> connection" where
  "on_data decode parse_url S chunk c =
     (case phase c of
        AwaitFirst \<Rightarrow>
          (let c1 = c\<lparr>consumed := consumed c @ [chunk]\<rparr> in
           if is_socks chunk then
             (let c2 = c1\<lparr>acts := acts c @ [ClientWrite [0x05, socks_method chunk]]\<rparr> in
              if socks_method chunk = 0xff then answered [ClientEnd []] c2 else c2\<lparr>phase := AwaitRequest\<rparr>)
           else head_buffered parse_url S chunk c1)
      | AwaitRequest \<Rightarrow> request_arrived decode S chunk (c\<lparr>consumed := consumed c @ [chunk]\<rparr>)
      | AwaitHead buffer \<Rightarrow> head_buffered parse_url S (buffer @ chunk) (c\<lparr>consumed := consumed c @ [chunk]\<rparr>)
      | Relaying \<Rightarrow> c\<lparr>relayed := relayed c @ [chunk]\<rparr>
      | _ \<Rightarrow> c\<lparr>lost := lost c @ [chunk]\<rparr>)"

text \<open>
  What happens to a connection: bytes arrive, the stream emits its first chunk, the call of \<open>connectThrough\<close> settles (the
  outcome is the surroundings'), the socket fails, or it ends. A reader that still waits rejects on a failure only, the relay
  closes the face.
\<close>

datatype conn_event = Arrives bytes | Emits | Settles | SocketFails | SocketEnds

fun conn_step :: "(bytes \<Rightarrow> string) \<Rightarrow> (string \<Rightarrow> url option) \<Rightarrow> surroundings \<Rightarrow> conn_event \<Rightarrow> connection \<Rightarrow> connection" where
  "conn_step decode parse_url S (Arrives bs) c = c\<lparr>stream := stream c @ [bs]\<rparr>"
| "conn_step decode parse_url S Emits c =
     (case stream c of [] \<Rightarrow> c | chunk # rest \<Rightarrow> on_data decode parse_url S chunk (c\<lparr>stream := rest\<rparr>))"
| "conn_step decode parse_url S Settles c = dial_settles S c"
| "conn_step decode parse_url S SocketFails c =
     (case phase c of
        AwaitRequest \<Rightarrow> answered [ClientDestroy] c
      | AwaitHead buffer \<Rightarrow> answered [ClientDestroy] c
      | Relaying \<Rightarrow> c\<lparr>face_is_open := False\<rparr>
      | _ \<Rightarrow> c)"
| "conn_step decode parse_url S SocketEnds c = (if phase c = Relaying then c\<lparr>face_is_open := False\<rparr> else c)"

definition conn_run ::
  "(bytes \<Rightarrow> string) \<Rightarrow> (string \<Rightarrow> url option) \<Rightarrow> surroundings \<Rightarrow> conn_event list \<Rightarrow> connection" where
  "conn_run decode parse_url S es = fold (conn_step decode parse_url S) es new_connection"

section \<open>Every schedule does what the handler function says\<close>

text \<open>What a dial under way will add to the actions.\<close>

definition to_come :: "surroundings \<Rightarrow> connection \<Rightarrow> act list" where
  "to_come S c =
     (case phase c of
        Dialling node host port why \<Rightarrow>
          (case dial S node host port of Inl e \<Rightarrow> refused_acts why | Inr _ \<Rightarrow> accepted_acts why host port)
      | _ \<Rightarrow> [])"

definition settled_acts :: "surroundings \<Rightarrow> connection \<Rightarrow> act list" where
  "settled_acts S c = acts c @ to_come S c"

lemma settled_answered [simp]: "settled_acts S (answered as c) = acts c @ as"
  by (simp add: settled_acts_def to_come_def answered_def)

lemma settled_begin_dial:
  "settled_acts S (begin_dial S host port why c) = acts c @ plan_result S (Inr (host, port, why))"
  by (auto simp: begin_dial_def plan_result_def connect_def bind_res_def settled_acts_def to_come_def answered_def
      split: sum.split)

lemma settled_dial: "settled_acts S (dial_settles S c) = settled_acts S c"
  by (auto simp: dial_settles_def settled_acts_def to_come_def answered_def Let_def split: conn_phase.split sum.split purpose.split)

text \<open>The actions are those of \<open>handle\<close> for the chunks the handler has read.\<close>

definition acts_inv :: "(bytes \<Rightarrow> string) \<Rightarrow> (string \<Rightarrow> url option) \<Rightarrow> surroundings \<Rightarrow> connection \<Rightarrow> bool" where
  "acts_inv decode parse_url S c \<longleftrightarrow>
     (case consumed c of
        [] \<Rightarrow> phase c = AwaitFirst \<and> acts c = []
      | first # later \<Rightarrow>
          phase c \<noteq> AwaitFirst \<and> settled_acts S c = handle decode parse_url S first later
          \<and> (phase c = AwaitRequest \<longrightarrow> is_socks first \<and> socks_method first \<noteq> 0xff \<and> later = [])
          \<and> (\<forall>b. phase c = AwaitHead b \<longrightarrow> \<not> is_socks first \<and> head_end b = None
                 \<and> (\<forall>more. readHttpHead first (later @ more) = readHttpHead b more)))"

lemma begin_dial_phase:
  "phase (begin_dial S host port why c) \<noteq> AwaitFirst" "phase (begin_dial S host port why c) \<noteq> AwaitRequest"
  "phase (begin_dial S host port why c) \<noteq> AwaitHead b"
  "consumed (begin_dial S host port why c) = consumed c"
  by (auto simp: begin_dial_def answered_def split: sum.split)

lemma readHttpHead_now: "head_end b = Some i \<Longrightarrow> readHttpHead b cs = Some (latin1 (take i b), drop (i + 4) b)"
  "head_end b = None \<Longrightarrow> readHttpHead b [] = None"
  "head_end b = None \<Longrightarrow> readHttpHead b (x # cs) = readHttpHead (b @ x) cs"
  by (simp_all add: readHttpHead.simps)

lemma head_buffered_does:
  assumes "phase c \<notin> {AwaitRequest}"
  shows "settled_acts S (head_buffered parse_url S buffer c)
     = acts c @ (case readHttpHead buffer [] of None \<Rightarrow> [] | Some (head, rest) \<Rightarrow> handleHttp parse_url S head rest)"
    "consumed (head_buffered parse_url S buffer c) = consumed c"
    "phase (head_buffered parse_url S buffer c) \<notin> {AwaitFirst, AwaitRequest}"
    "phase (head_buffered parse_url S buffer c) = AwaitHead b \<longleftrightarrow> head_end buffer = None \<and> b = buffer"
proof -
  show "settled_acts S (head_buffered parse_url S buffer c)
     = acts c @ (case readHttpHead buffer [] of None \<Rightarrow> [] | Some (head, rest) \<Rightarrow> handleHttp parse_url S head rest)"
  proof (cases "head_end buffer")
    case None
    then show ?thesis by (simp add: head_buffered_def readHttpHead_now settled_acts_def to_come_def)
  next
    case (Some i)
    then show ?thesis
      by (auto simp: head_buffered_def readHttpHead_now handleHttp_plan settled_begin_dial Let_def split: sum.split)
        (simp_all add: plan_result_def)
  qed
qed (auto simp: head_buffered_def begin_dial_phase answered_def Let_def split: option.splits sum.splits)

lemma request_arrived_does:
  "settled_acts S (request_arrived decode S header c)
     = acts c @ (case readSocks5Request decode header of
           Inl e \<Rightarrow> [ClientDestroy]
         | Inr r \<Rightarrow> if decide S (req_host r) = GoReject then [ClientEnd (socks_answer 0x02)]
             else plan_result S (Inr (req_host r, Fin (int (req_port r)) 0, ForSocks (req_rest r))))"
  "consumed (request_arrived decode S header c) = consumed c"
  "phase (request_arrived decode S header c) \<notin> {AwaitFirst, AwaitRequest}" "phase (request_arrived decode S header c) \<noteq> AwaitHead b"
  by (auto simp: request_arrived_def settled_begin_dial begin_dial_phase split: sum.split) (auto simp: answered_def begin_dial_phase split: sum.splits)

lemma handleSocks5_request:
  assumes "socks_method first \<noteq> 0xff"
  shows "handleSocks5 decode S first (Some (Inr header))
     = ClientWrite [0x05, socks_method first]
       # (case readSocks5Request decode header of
           Inl e \<Rightarrow> [ClientDestroy]
         | Inr r \<Rightarrow> if decide S (req_host r) = GoReject then [ClientEnd (socks_answer 0x02)]
             else plan_result S (Inr (req_host r, Fin (int (req_port r)) 0, ForSocks (req_rest r))))"
  using assms by (auto simp: handleSocks5_def Let_def plan_result_def bind_res_def split: sum.split)

lemma acts_inv_data:
  assumes "acts_inv decode parse_url S c"
  shows "acts_inv decode parse_url S (on_data decode parse_url S chunk c)"
proof (cases "phase c")
  case AwaitFirst
  then have c: "consumed c = []" "acts c = []" using assms by (auto simp: acts_inv_def split: list.splits)
  show ?thesis
  proof (cases "is_socks chunk")
    case True
    then show ?thesis
      using AwaitFirst c
      by (simp add: on_data_def acts_inv_def Let_def handle_def handleSocks5_def)
        (simp add: answered_def settled_acts_def to_come_def handle_def handleSocks5_def Let_def)
  next
    case False
    then show ?thesis
      using AwaitFirst c head_buffered_does[of "c\<lparr>consumed := [chunk]\<rparr>"]
      by (auto simp: on_data_def acts_inv_def Let_def handle_def split: option.splits)
  qed
next
  case AwaitRequest
  then obtain first where c: "consumed c = [first]" "is_socks first" "socks_method first \<noteq> 0xff"
    and a: "settled_acts S c = handle decode parse_url S first []"
    using assms by (auto simp: acts_inv_def split: list.splits)
  have "acts c = [ClientWrite [0x05, socks_method first]]"
    using a c AwaitRequest by (simp add: settled_acts_def to_come_def handle_def handleSocks5_def Let_def)
  then show ?thesis
    using c AwaitRequest
    by (simp add: on_data_def acts_inv_def request_arrived_does handle_def handleSocks5_request)
      (use request_arrived_does(3) in fastforce)
next
  case (AwaitHead b)
  then obtain first later where c: "consumed c = first # later" "\<not> is_socks first" "head_end b = None"
    and more: "\<And>more. readHttpHead first (later @ more) = readHttpHead b more"
    and a: "settled_acts S c = handle decode parse_url S first later"
    using assms by (auto simp: acts_inv_def split: list.splits)
  have "acts c = []" using a c AwaitHead more[of "[]"] by (simp add: settled_acts_def to_come_def handle_def readHttpHead_now)
  then show ?thesis
    using c AwaitHead head_buffered_does[of "c\<lparr>consumed := first # later @ [chunk]\<rparr>"] more
    by (auto simp: on_data_def acts_inv_def handle_def readHttpHead_now split: option.splits)
qed (use assms in \<open>auto simp: on_data_def acts_inv_def settled_acts_def to_come_def split: list.splits\<close>)

lemma acts_inv_settles:
  assumes "acts_inv decode parse_url S c"
  shows "acts_inv decode parse_url S (dial_settles S c)"
proof (cases "phase c")
  case (Dialling node host port why)
  then have "consumed (dial_settles S c) = consumed c"
    "phase (dial_settles S c) \<in> {Answered, Relaying, Pumping}"
    by (simp_all add: dial_settles_def answered_def Let_def split: sum.split purpose.split)
  then show ?thesis using assms Dialling by (cases "consumed c") (auto simp: acts_inv_def settled_dial)
qed (use assms in \<open>simp_all add: dial_settles_def\<close>)

lemma acts_inv_same:
  assumes "acts_inv decode parse_url S c" "phase d = phase c" "consumed d = consumed c" "acts d = acts c"
  shows "acts_inv decode parse_url S d"
proof -
  have "settled_acts S d = settled_acts S c" using assms by (simp add: settled_acts_def to_come_def)
  then show ?thesis using assms by (cases "consumed c") (simp_all add: acts_inv_def)
qed

lemma acts_inv_step:
  assumes "acts_inv decode parse_url S c" "e \<noteq> SocketFails"
  shows "acts_inv decode parse_url S (conn_step decode parse_url S e c)"
proof (cases e)
  case Emits
  have "acts_inv decode parse_url S (c\<lparr>stream := cs\<rparr>)" for cs by (rule acts_inv_same[OF assms(1)]) simp_all
  then show ?thesis using Emits assms(1) acts_inv_data by (auto split: list.split)
next
  case Arrives
  show ?thesis by (rule acts_inv_same[OF assms(1)]) (simp_all add: Arrives)
next
  case SocketEnds
  show ?thesis by (rule acts_inv_same[OF assms(1)]) (simp_all add: SocketEnds)
qed (use assms acts_inv_settles in simp_all)

lemma acts_inv_run:
  "acts_inv decode parse_url S c \<Longrightarrow> SocketFails \<notin> set es \<Longrightarrow> acts_inv decode parse_url S (fold (conn_step decode parse_url S) es c)"
proof (induction es arbitrary: c)
  case (Cons e es)
  then have "e \<noteq> SocketFails" "SocketFails \<notin> set es" by auto
  then show ?case using Cons.IH[OF acts_inv_step[OF Cons.prems(1)]] by simp
qed simp

text \<open>C3. However arrivals, emissions and the dial interleave, the handler acts as the function \<open>handle\<close> says of the chunks it
  has read: what it has done and what the dial under way will add make up that list.\<close>

theorem every_schedule_acts_as_handle:
  assumes "SocketFails \<notin> set es"
  shows "case consumed (conn_run decode parse_url S es) of
      [] \<Rightarrow> acts (conn_run decode parse_url S es) = []
    | first # later \<Rightarrow> acts (conn_run decode parse_url S es) @ to_come S (conn_run decode parse_url S es)
        = handle decode parse_url S first later"
proof -
  have "acts_inv decode parse_url S new_connection" by (simp add: acts_inv_def new_connection_def)
  from acts_inv_run[OF this assms] show ?thesis
    by (auto simp: acts_inv_def conn_run_def settled_acts_def split: list.split)
qed

section \<open>Where the client's bytes go\<close>

text \<open>How many bytes of the chunks read are the greeting and the request, or the head with its blank line.\<close>

definition request_length :: "(bytes \<Rightarrow> string) \<Rightarrow> bytes list \<Rightarrow> nat" where
  "request_length decode cs =
     (case cs of
        [] \<Rightarrow> 0
      | first # later \<Rightarrow>
          (if is_socks first
           then (case later of
                   header # _ \<Rightarrow>
                     (case readSocks5Request decode header of
                        Inr q \<Rightarrow> length first + (length header - length (req_rest q))
                      | Inl e \<Rightarrow> 0)
                 | [] \<Rightarrow> 0)
           else (case head_end (concat cs) of Some i \<Rightarrow> i + 4 | None \<Rightarrow> 0)))"

abbreviation request_of :: "(bytes \<Rightarrow> string) \<Rightarrow> connection \<Rightarrow> bytes" where
  "request_of decode c \<equiv> take (request_length decode (consumed c)) (concat (consumed c))"

definition bytes_inv :: "(bytes \<Rightarrow> string) \<Rightarrow> bytes \<Rightarrow> connection \<Rightarrow> bool" where
  "bytes_inv decode r c \<longleftrightarrow>
     (case phase c of
        Dialling node host port why \<Rightarrow>
          relayed c = []
          \<and> (case why of
               ForSocks rest \<Rightarrow> r = request_of decode c @ rest @ concat (lost c) @ concat (stream c)
             | _ \<Rightarrow> r = request_of decode c @ concat (lost c) @ concat (stream c))
      | Relaying \<Rightarrow>
          (\<exists>given later. r = request_of decode c @ given @ concat (lost c) @ later
             \<and> concat (relayed c) @ concat (stream c) = given @ later)
      | Pumping \<Rightarrow> relayed c = []
      | Answered \<Rightarrow> relayed c = []
      | AwaitFirst \<Rightarrow> consumed c = [] \<and> lost c = [] \<and> relayed c = [] \<and> r = concat (stream c)
      | AwaitRequest \<Rightarrow>
          (\<exists>first. consumed c = [first] \<and> is_socks first) \<and> lost c = [] \<and> relayed c = []
          \<and> r = concat (consumed c) @ concat (stream c)
      | AwaitHead b \<Rightarrow>
          (\<exists>first later. consumed c = first # later \<and> \<not> is_socks first) \<and> b = concat (consumed c)
          \<and> lost c = [] \<and> relayed c = [] \<and> r = concat (consumed c) @ concat (stream c))"

lemma rest_is_a_drop: "readSocks5Request decode header = Inr q \<Longrightarrow> \<exists>k. req_rest q = drop k header"
  by (auto simp: readSocks5Request_def Let_def bind_res_Inr_iff split: if_splits option.splits)

lemma bytes_inv_begin:
  assumes "relayed c = []" "lost c = []"
    "case why of ForSocks rest \<Rightarrow> r = request_of decode c @ rest @ concat (stream c) | _ \<Rightarrow> r = request_of decode c @ concat (stream c)"
  shows "bytes_inv decode r (begin_dial S host port why c)"
  using assms by (auto simp: begin_dial_def bytes_inv_def answered_def split: sum.split purpose.splits)

lemma plan_not_socks: "http_plan parse_url head = Inr (host, port, why) \<Longrightarrow> why \<noteq> ForSocks rest"
  by (auto simp: http_plan_def connect_plan_def absolute_plan_def Let_def split: prod.splits if_splits option.splits nat.splits)

lemma bytes_inv_head:
  assumes "relayed c = []" "lost c = []" "consumed c = first # later" "\<not> is_socks first" "concat (consumed c) = buffer"
    "r = buffer @ concat (stream c)"
  shows "bytes_inv decode r (head_buffered parse_url S buffer c)"
proof (cases "head_end buffer")
  case None
  then show ?thesis using assms by (simp add: head_buffered_def bytes_inv_def)
next
  case (Some i)
  show ?thesis
  proof (cases "http_plan parse_url (latin1 (take i buffer))")
    case (Inl as)
    then show ?thesis using assms Some by (simp add: head_buffered_def bytes_inv_def answered_def Let_def)
  next
    case (Inr hpw)
    obtain host port why where hpw: "hpw = (host, port, why)" by (cases hpw)
    define c1 where "c1 = (if drop (i + 4) buffer \<noteq> []
      then c\<lparr>stream := drop (i + 4) buffer # stream c, acts := acts c @ [ClientUnshift (drop (i + 4) buffer)]\<rparr> else c)"
    have c1: "relayed c1 = []" "lost c1 = []" "consumed c1 = consumed c" "concat (stream c1) = drop (i + 4) buffer @ concat (stream c)"
      using assms by (simp_all add: c1_def)
    have "request_length decode (consumed c) = i + 4"
      using Some assms(3-5) by (simp add: request_length_def del: append_assoc concat.simps)
    then have "r = request_of decode c1 @ concat (stream c1)" using c1 assms(5,6) by simp
    then have "bytes_inv decode r (begin_dial S host port why c1)"
      using c1(1,2) plan_not_socks[OF Inr[unfolded hpw]] by (intro bytes_inv_begin) (auto split: purpose.split)
    then show ?thesis using Some Inr hpw by (simp add: head_buffered_def Let_def c1_def)
  qed
qed

lemma bytes_inv_request:
  assumes "relayed c = []" "lost c = []" "consumed c = [first, header]" "is_socks first" "r = first @ header @ concat (stream c)"
  shows "bytes_inv decode r (request_arrived decode S header c)"
proof (cases "readSocks5Request decode header")
  case (Inl e)
  then show ?thesis using assms by (simp add: request_arrived_def bytes_inv_def answered_def)
next
  case (Inr q)
  obtain k where k: "req_rest q = drop k header" using rest_is_a_drop[OF Inr] by blast
  have "request_of decode c = first @ take (length header - length (req_rest q)) header"
    using assms(3,4) Inr by (simp add: request_length_def)
  moreover have "take (length header - length (req_rest q)) header @ req_rest q = header"
    unfolding k by (cases "k \<le> length header") simp_all
  ultimately have "r = request_of decode c @ req_rest q @ concat (stream c)" using assms(5) by simp
  then have "bytes_inv decode r (begin_dial S host port (ForSocks (req_rest q)) c)" for host port
    using assms(1,2) by (intro bytes_inv_begin) auto
  then show ?thesis using Inr assms by (simp add: request_arrived_def) (simp add: bytes_inv_def answered_def)
qed

lemma bytes_inv_data:
  assumes "bytes_inv decode r c" "stream c = chunk # rest"
  shows "bytes_inv decode r (on_data decode parse_url S chunk (c\<lparr>stream := rest\<rparr>))"
proof (cases "phase c")
  case AwaitFirst
  then have f: "consumed c = []" "lost c = []" "relayed c = []" "r = chunk @ concat rest" using assms by (simp_all add: bytes_inv_def)
  show ?thesis
  proof (cases "is_socks chunk")
    case True
    then show ?thesis using AwaitFirst f by (simp add: on_data_def Let_def) (simp add: bytes_inv_def answered_def)
  next
    case False
    then show ?thesis using AwaitFirst f by (simp add: on_data_def Let_def bytes_inv_head)
  qed
next
  case AwaitRequest
  then obtain first where f: "consumed c = [first]" "is_socks first" "lost c = []" "relayed c = []" "r = first @ chunk @ concat rest"
    using assms by (auto simp: bytes_inv_def)
  then show ?thesis
    using AwaitRequest bytes_inv_request[of "c\<lparr>stream := rest, consumed := [first, chunk]\<rparr>" first chunk r]
    by (simp add: on_data_def)
next
  case (AwaitHead b)
  then obtain first later where f: "consumed c = first # later" "\<not> is_socks first" "b = concat (consumed c)" "lost c = []" "relayed c = []"
    "r = concat (consumed c) @ chunk @ concat rest"
    using assms by (auto simp: bytes_inv_def)
  have "bytes_inv decode r (head_buffered parse_url S (b @ chunk) (c\<lparr>stream := rest, consumed := consumed c @ [chunk]\<rparr>))"
    by (rule bytes_inv_head[where first = first and later = "later @ [chunk]"]) (use f in simp_all)
  then show ?thesis using AwaitHead by (simp add: on_data_def)
next
  case (Dialling node host port why)
  then show ?thesis using assms by (cases why) (auto simp: on_data_def bytes_inv_def)
next
  case Relaying
  then show ?thesis using assms by (auto simp: on_data_def bytes_inv_def)
next
  case Pumping
  then show ?thesis using assms by (auto simp: on_data_def bytes_inv_def)
next
  case Answered
  then show ?thesis using assms by (auto simp: on_data_def bytes_inv_def)
qed

lemma bytes_inv_relaying:
  "phase d = Relaying \<Longrightarrow> r = request_of decode d @ given @ concat (lost d) @ later
    \<Longrightarrow> concat (relayed d) @ concat (stream d) = given @ later \<Longrightarrow> bytes_inv decode r d"
  by (auto simp: bytes_inv_def)

lemma bytes_inv_settles:
  assumes "bytes_inv decode r c"
  shows "bytes_inv decode r (dial_settles S c)"
proof (cases "phase c")
  case (Dialling node host port why)
  note settle = dial_settles_def Let_def answered_def bytes_inv_def[of _ _ "c\<lparr>phase := Answered, acts := x\<rparr>" for x]
  show ?thesis
  proof (cases why)
    case (ForSocks rest)
    then have "r = request_of decode c @ rest @ concat (lost c) @ concat (stream c)" "relayed c = []"
      using assms Dialling by (auto simp: bytes_inv_def)
    then show ?thesis
      using Dialling ForSocks
      by (cases "dial S node host port")
        (auto simp: settle intro!: bytes_inv_relaying[where given = rest and later = "concat (stream c)"])
  next
    case ForConnect
    then have "r = request_of decode c @ concat (lost c) @ concat (stream c)" "relayed c = []"
      using assms Dialling by (auto simp: bytes_inv_def)
    then show ?thesis
      using Dialling ForConnect
      by (cases "dial S node host port")
        (auto simp: settle intro!: bytes_inv_relaying[where given = "[]" and later = "concat (stream c)"])
  next
    case ForAbsolute
    then show ?thesis
      using assms Dialling by (auto simp: dial_settles_def bytes_inv_def answered_def Let_def split: sum.split)
  qed
qed (use assms in \<open>simp_all add: dial_settles_def\<close>)

text \<open>The bytes that arrive in a run.\<close>

definition arrived :: "conn_event list \<Rightarrow> bytes" where
  "arrived es = concat (map (\<lambda>e. case e of Arrives bs \<Rightarrow> bs | _ \<Rightarrow> []) es)"

lemma bytes_inv_arrives:
  assumes "bytes_inv decode r c"
  shows "bytes_inv decode (r @ bs) (c\<lparr>stream := stream c @ [bs]\<rparr>)"
proof (cases "phase c")
  case (Dialling node host port why)
  then show ?thesis using assms by (cases why) (auto simp: bytes_inv_def)
next
  case Relaying
  then obtain given later where "r = request_of decode c @ given @ concat (lost c) @ later"
    "concat (relayed c) @ concat (stream c) = given @ later" using assms by (auto simp: bytes_inv_def)
  then have "r @ bs = request_of decode c @ given @ concat (lost c) @ later @ bs
      \<and> concat (relayed c) @ concat (stream c @ [bs]) = given @ later @ bs" by (simp flip: append_assoc)
  then show ?thesis using Relaying by (fastforce simp: bytes_inv_def)
qed (use assms in \<open>auto simp: bytes_inv_def\<close>)

lemma bytes_inv_step:
  assumes "bytes_inv decode r c"
  shows "bytes_inv decode (r @ arrived [e]) (conn_step decode parse_url S e c)"
proof (cases e)
  case Emits
  then show ?thesis using assms bytes_inv_data by (auto simp: arrived_def split: list.split)
next
  case SocketFails
  then show ?thesis using assms by (auto simp: arrived_def bytes_inv_def answered_def split: conn_phase.split purpose.split)
next
  case SocketEnds
  then show ?thesis using assms by (auto simp: arrived_def bytes_inv_def)
qed (use assms in \<open>simp_all add: arrived_def bytes_inv_arrives bytes_inv_settles\<close>)

lemma bytes_inv_run: "bytes_inv decode r c \<Longrightarrow> bytes_inv decode (r @ arrived es) (fold (conn_step decode parse_url S) es c)"
proof (induction es arbitrary: r c)
  case (Cons e es)
  have "arrived (e # es) = arrived [e] @ arrived es" by (simp add: arrived_def)
  then show ?case using Cons.IH[OF bytes_inv_step[OF Cons.prems]] by simp
qed (simp add: arrived_def)

text \<open>C5. Once the relay runs, what the face is given and what is still to come are the client's bytes behind its request,
  without a gap but for the chunks that were emitted while the dial was under way: these are lost.\<close>

theorem relay_misses_only_early_bytes:
  assumes "phase (conn_run decode parse_url S es) = Relaying"
  shows "\<exists>given later.
      arrived es = take (request_length decode (consumed (conn_run decode parse_url S es))) (concat (consumed (conn_run decode parse_url S es)))
        @ given @ concat (lost (conn_run decode parse_url S es)) @ later
    \<and> concat (relayed (conn_run decode parse_url S es)) @ concat (stream (conn_run decode parse_url S es)) = given @ later"
proof -
  have "bytes_inv decode [] new_connection" by (simp add: bytes_inv_def new_connection_def)
  from bytes_inv_run[OF this, of es parse_url S] show ?thesis
    using assms by (simp add: conn_run_def bytes_inv_def)
qed

text \<open>
  The bytes behind a CONNECT head go back to the stream before the dial: whether the face gets them depends on what comes
  first, the stream's next emission or the settled dial.
\<close>

theorem connect_early_bytes_race:
  assumes "\<not> is_socks buffer" "head_end buffer = Some i" "drop (i + 4) buffer \<noteq> []"
    "http_plan parse_url (latin1 (take i buffer)) = Inr (host, port, ForConnect)"
    "connect_node (decide S) (current S) host = Inr node" "dial S node host port = Inr ()"
  shows "relayed (conn_run decode parse_url S [Arrives buffer, Emits, Settles, Emits]) = [drop (i + 4) buffer]
     \<and> relayed (conn_run decode parse_url S [Arrives buffer, Emits, Emits, Settles]) = []
     \<and> lost (conn_run decode parse_url S [Arrives buffer, Emits, Emits, Settles]) = [drop (i + 4) buffer]
     \<and> phase (conn_run decode parse_url S [Arrives buffer, Emits, Emits, Settles]) = Relaying"
  using assms
  by (simp_all add: conn_run_def new_connection_def on_data_def head_buffered_def begin_dial_def dial_settles_def Let_def)

text \<open>
  A request sent together with the greeting is never read: the handler takes the whole chunk for the greeting, and after
  its answer waits for ever if the client does.
\<close>

theorem joined_greeting_is_never_answered:
  assumes "is_socks chunk" "socks_method chunk \<noteq> 0xff" "set es \<subseteq> {Emits, Settles, SocketEnds}"
  shows "conn_run decode parse_url S (Arrives chunk # Emits # es)
    = new_connection\<lparr>phase := AwaitRequest, consumed := [chunk], acts := [ClientWrite [0x05, socks_method chunk]]\<rparr>"
proof -
  let ?c = "new_connection\<lparr>phase := AwaitRequest, consumed := [chunk], acts := [ClientWrite [0x05, socks_method chunk]]\<rparr>"
  have rests: "fold (conn_step decode parse_url S) es ?c = ?c" using assms(3)
  proof (induction es)
    case (Cons e es)
    then have "conn_step decode parse_url S e ?c = ?c" by (auto simp: new_connection_def dial_settles_def)
    then show ?case using Cons by simp
  qed simp
  have "fold (conn_step decode parse_url S) [Arrives chunk, Emits] new_connection = ?c"
    using assms(1,2) by (simp add: new_connection_def on_data_def Let_def)
  then show ?thesis unfolding conn_run_def using rests by simp
qed

section \<open>The server\<close>

text \<open>A listening socket by \<open>net.createServer\<close>: opening, open at a port, or shut.\<close>

datatype listener = Opening | Open nat | Shut

text \<open>
  The sockets created so far, the one in \<open>#server\<close>, \<open>#port\<close>, the connections, the counters, and how the promises of
  \<open>start\<close> settled.
\<close>

record proxy_server =
  listeners :: "listener list"
  own :: "nat option"
  bound_port :: nat
  conns :: "connection list"
  count_up :: nat
  count_down :: nat
  start_replies :: "(nat \<times> (error + nat)) list"

definition new_server :: proxy_server where
  "new_server = \<lparr>listeners = [], own = None, bound_port = 0, conns = [], count_up = 0, count_down = 0, start_replies = []\<rparr>"

definition server_start :: "proxy_server \<Rightarrow> proxy_server" where
  "server_start s = s\<lparr>own := Some (length (listeners s)), listeners := listeners s @ [Opening]\<rparr>"

text \<open>The callback of \<open>listen\<close> reads the address of the socket that is in \<open>#server\<close> by then; without one it throws.\<close>

definition server_listening :: "nat \<Rightarrow> nat \<Rightarrow> proxy_server \<Rightarrow> proxy_server" where
  "server_listening i p s =
     (if i < length (listeners s) \<and> listeners s ! i = Opening
      then (let s1 = s\<lparr>listeners := (listeners s)[i := Open p]\<rparr> in
            case own s1 of
              None \<Rightarrow> s1
            | Some k \<Rightarrow>
                (case listeners s1 ! k of
                   Open q \<Rightarrow> s1\<lparr>bound_port := q, start_replies := start_replies s @ [(i, Inr q)]\<rparr>
                 | _ \<Rightarrow> s1))
      else s)"

definition server_fails :: "nat \<Rightarrow> error \<Rightarrow> proxy_server \<Rightarrow> proxy_server" where
  "server_fails i e s =
     (if i < length (listeners s) \<and> listeners s ! i = Opening
      then s\<lparr>listeners := (listeners s)[i := Shut], start_replies := start_replies s @ [(i, Inl e)]\<rparr>
      else s)"

definition server_stop :: "proxy_server \<Rightarrow> proxy_server" where
  "server_stop s =
     (case own s of None \<Rightarrow> s | Some k \<Rightarrow> s\<lparr>own := None, listeners := (listeners s)[k := Shut]\<rparr>)"

definition server_accept :: "nat \<Rightarrow> proxy_server \<Rightarrow> proxy_server" where
  "server_accept i s =
     (if i < length (listeners s) \<and> (\<exists>p. listeners s ! i = Open p) then s\<lparr>conns := conns s @ [new_connection]\<rparr> else s)"

text \<open>What an event of a connection adds to the upward counter.\<close>

definition adds_up :: "surroundings \<Rightarrow> conn_event \<Rightarrow> connection \<Rightarrow> nat" where
  "adds_up S e c =
     (case e of
        Emits \<Rightarrow> (if phase c = Relaying then (case stream c of [] \<Rightarrow> 0 | chunk # _ \<Rightarrow> length chunk) else 0)
      | Settles \<Rightarrow>
          (case phase c of
             Dialling node host port (ForAbsolute outbound) \<Rightarrow>
               (case dial S node host port of Inr _ \<Rightarrow> length outbound | Inl _ \<Rightarrow> 0)
           | _ \<Rightarrow> 0)
      | _ \<Rightarrow> 0)"

datatype server_event =
    Starts
  | Listens nat nat
  | ListenFails nat error
  | Stops
  | Accepts nat
  | OnConnection nat conn_event
  | FaceGives nat bytes

fun server_step ::
  "(bytes \<Rightarrow> string) \<Rightarrow> (string \<Rightarrow> url option) \<Rightarrow> surroundings \<Rightarrow> server_event \<Rightarrow> proxy_server \<Rightarrow> proxy_server" where
  "server_step decode parse_url S Starts s = server_start s"
| "server_step decode parse_url S (Listens i p) s = server_listening i p s"
| "server_step decode parse_url S (ListenFails i e) s = server_fails i e s"
| "server_step decode parse_url S Stops s = server_stop s"
| "server_step decode parse_url S (Accepts i) s = server_accept i s"
| "server_step decode parse_url S (OnConnection j e) s =
     (if j < length (conns s)
      then s\<lparr>conns := (conns s)[j := conn_step decode parse_url S e (conns s ! j)],
             count_up := count_up s + adds_up S e (conns s ! j)\<rparr>
      else s)"
| "server_step decode parse_url S (FaceGives j bs) s =
     (if j < length (conns s) \<and> phase (conns s ! j) \<in> {Relaying, Pumping} then s\<lparr>count_down := count_down s + length bs\<rparr> else s)"

definition server_run ::
  "(bytes \<Rightarrow> string) \<Rightarrow> (string \<Rightarrow> url option) \<Rightarrow> surroundings \<Rightarrow> server_event list \<Rightarrow> proxy_server \<Rightarrow> proxy_server" where
  "server_run decode parse_url S es s = fold (server_step decode parse_url S) es s"

text \<open>The bytes a connection has handed to its face: a forwarded head, then what is relayed.\<close>

definition sent_up :: "connection \<Rightarrow> nat" where
  "sent_up c = length (face_bytes (acts c)) + length (concat (relayed c))"

lemma face_bytes_append [simp]: "face_bytes (as @ bs) = face_bytes as @ face_bytes bs"
  by (induction as rule: face_bytes.induct) auto

lemma no_face_bytes [simp]: "face_bytes (refused_acts why) = []"
  by (cases why) (simp_all add: bad_gateway_def)

lemma face_bytes_accepted: "face_bytes (accepted_acts why host port) = (case why of ForAbsolute out \<Rightarrow> out | _ \<Rightarrow> [])"
  by (cases why) auto

lemma plan_faceless: "http_plan parse_url head = Inl as \<Longrightarrow> face_bytes as = []"
  by (auto simp: http_plan_def connect_plan_def absolute_plan_def Let_def bad_request_def
      split: prod.splits if_splits option.splits nat.splits)

lemma sent_up_begin: "sent_up (begin_dial S host port why c) = sent_up c"
  by (simp add: begin_dial_def answered_def sent_up_def split: sum.split)

lemma sent_up_head: "sent_up (head_buffered parse_url S buffer c) = sent_up c"
  using plan_faceless
  by (auto simp: head_buffered_def sent_up_begin Let_def split: option.split sum.split) (auto simp: sent_up_def answered_def)

lemma sent_up_request: "sent_up (request_arrived decode S header c) = sent_up c"
  by (auto simp: request_arrived_def sent_up_begin split: sum.split) (auto simp: sent_up_def answered_def)

lemma sent_up_step: "sent_up (conn_step decode parse_url S e c) = sent_up c + adds_up S e c"
proof (cases e)
  case Emits
  then show ?thesis
    by (auto simp: adds_up_def on_data_def sent_up_head sent_up_request Let_def split: list.split conn_phase.split)
      (auto simp: sent_up_def answered_def)
next
  case Settles
  then show ?thesis
    by (auto simp: adds_up_def dial_settles_def sent_up_def answered_def face_bytes_accepted Let_def
        split: conn_phase.split sum.split purpose.split)
next
  case SocketFails
  then show ?thesis by (auto simp: adds_up_def sent_up_def answered_def split: conn_phase.split)
qed (simp_all add: adds_up_def sent_up_def)

text \<open>The upward counter of the server is the number of bytes its connections have handed to their faces, in every run.\<close>

theorem upward_counter_is_exact:
  "count_up (server_run decode parse_url S es new_server) = sum_list (map sent_up (conns (server_run decode parse_url S es new_server)))"
proof -
  have step: "count_up (server_step decode parse_url S e s) = sum_list (map sent_up (conns (server_step decode parse_url S e s)))"
    if "count_up s = sum_list (map sent_up (conns s))" for e s
  proof (cases e)
    case (OnConnection j f)
    then show ?thesis
      using that sum_list_map_update[of j "conns s" sent_up "conn_step decode parse_url S f (conns s ! j)"]
      by (simp add: sent_up_step)
  next
    case (Accepts i)
    then show ?thesis using that by (simp add: server_accept_def sent_up_def new_connection_def)
  qed (use that in \<open>auto simp: server_start_def server_listening_def server_fails_def server_stop_def Let_def
      split: option.splits listener.splits\<close>)
  have "count_up s = sum_list (map sent_up (conns s))
      \<Longrightarrow> count_up (server_run decode parse_url S es s) = sum_list (map sent_up (conns (server_run decode parse_url S es s)))" for s
    unfolding server_run_def by (induction es arbitrary: s) (simp_all add: step)
  then show ?thesis by (simp add: new_server_def)
qed

text \<open>A server that is stopped before it is started again: only the socket in \<open>#server\<close> is not shut.\<close>

definition sockets_inv :: "proxy_server \<Rightarrow> bool" where
  "sockets_inv s \<longleftrightarrow> (\<forall>k. own s = Some k \<longrightarrow> k < length (listeners s))
     \<and> (\<forall>i < length (listeners s). listeners s ! i \<noteq> Shut \<longrightarrow> own s = Some i)
     \<and> (\<forall>(i, r) \<in> set (start_replies s). i < length (listeners s) \<and> listeners s ! i \<noteq> Opening)
     \<and> distinct (map fst (start_replies s))
     \<and> (\<forall>k p. own s = Some k \<and> listeners s ! k = Open p \<longrightarrow> bound_port s = p \<and> (k, Inr p) \<in> set (start_replies s))"

fun one_at_a_time ::
  "(bytes \<Rightarrow> string) \<Rightarrow> (string \<Rightarrow> url option) \<Rightarrow> surroundings \<Rightarrow> server_event list \<Rightarrow> proxy_server \<Rightarrow> bool" where
  "one_at_a_time decode parse_url S [] s \<longleftrightarrow> True"
| "one_at_a_time decode parse_url S (e # es) s
   \<longleftrightarrow> (e = Starts \<longrightarrow> own s = None) \<and> one_at_a_time decode parse_url S es (server_step decode parse_url S e s)"

lemma sockets_parts:
  assumes "sockets_inv s"
  shows "own s = Some k \<Longrightarrow> k < length (listeners s)"
    "i < length (listeners s) \<Longrightarrow> listeners s ! i \<noteq> Shut \<Longrightarrow> own s = Some i"
    "(i, r) \<in> set (start_replies s) \<Longrightarrow> i < length (listeners s) \<and> listeners s ! i \<noteq> Opening"
    "distinct (map fst (start_replies s))"
    "own s = Some k \<Longrightarrow> listeners s ! k = Open p \<Longrightarrow> bound_port s = p \<and> (k, Inr p) \<in> set (start_replies s)"
  using assms unfolding sockets_inv_def by blast+

lemma sockets_invI:
  assumes "\<And>k. own s = Some k \<Longrightarrow> k < length (listeners s)"
    "\<And>i. i < length (listeners s) \<Longrightarrow> listeners s ! i \<noteq> Shut \<Longrightarrow> own s = Some i"
    "\<And>i r. (i, r) \<in> set (start_replies s) \<Longrightarrow> i < length (listeners s) \<and> listeners s ! i \<noteq> Opening"
    "distinct (map fst (start_replies s))"
    "\<And>k p. own s = Some k \<Longrightarrow> listeners s ! k = Open p \<Longrightarrow> bound_port s = p \<and> (k, Inr p) \<in> set (start_replies s)"
  shows "sockets_inv s"
  using assms unfolding sockets_inv_def by blast

lemma not_settled: "sockets_inv s \<Longrightarrow> listeners s ! i = Opening \<Longrightarrow> i \<notin> fst ` set (start_replies s)"
  using sockets_parts(3) by fastforce

lemma sockets_inv_starts:
  assumes "sockets_inv s" "own s = None"
  shows "sockets_inv (server_start s)"
proof (rule sockets_invI)
  have shut: "listeners s ! i = Shut" if "i < length (listeners s)" for i
    using sockets_parts(2)[OF assms(1) that] assms(2) by (metis option.distinct(1))
  show "i < length (listeners (server_start s)) \<Longrightarrow> listeners (server_start s) ! i \<noteq> Shut \<Longrightarrow> own (server_start s) = Some i" for i
    using shut by (cases "i < length (listeners s)") (simp_all add: server_start_def nth_append)
  show "(i, r) \<in> set (start_replies (server_start s)) \<Longrightarrow>
      i < length (listeners (server_start s)) \<and> listeners (server_start s) ! i \<noteq> Opening" for i r
    using sockets_parts(3)[OF assms(1), of i r] by (simp add: server_start_def nth_append)
qed (use sockets_parts(4)[OF assms(1)] in \<open>auto simp: server_start_def nth_append\<close>)

lemma sockets_inv_listens:
  assumes "sockets_inv s"
  shows "sockets_inv (server_listening i p s)"
proof (cases "i < length (listeners s) \<and> listeners s ! i = Opening")
  case True
  then have own: "own s = Some i" using sockets_parts(2)[OF assms] by simp
  have eq: "server_listening i p s
      = s\<lparr>listeners := (listeners s)[i := Open p], bound_port := p, start_replies := start_replies s @ [(i, Inr p)]\<rparr>"
    using True own by (simp add: server_listening_def)
  show ?thesis unfolding eq
  proof (rule sockets_invI)
    let ?t = "s\<lparr>listeners := (listeners s)[i := Open p], bound_port := p, start_replies := start_replies s @ [(i, Inr p)]\<rparr>"
    show "j < length (listeners ?t) \<Longrightarrow> listeners ?t ! j \<noteq> Shut \<Longrightarrow> own ?t = Some j" for j
      using own sockets_parts(2)[OF assms, of j] by (cases "j = i") simp_all
    show "(j, r) \<in> set (start_replies ?t) \<Longrightarrow> j < length (listeners ?t) \<and> listeners ?t ! j \<noteq> Opening" for j r
      using True sockets_parts(3)[OF assms, of j r] by (cases "j = i") auto
  qed (use own True sockets_parts(4)[OF assms] not_settled[OF assms] in auto)
qed (use assms in \<open>auto simp: server_listening_def\<close>)


lemma sockets_inv_fails:
  assumes "sockets_inv s"
  shows "sockets_inv (server_fails i e s)"
proof (cases "i < length (listeners s) \<and> listeners s ! i = Opening")
  case True
  have eq: "server_fails i e s = s\<lparr>listeners := (listeners s)[i := Shut], start_replies := start_replies s @ [(i, Inl e)]\<rparr>"
    using True by (simp add: server_fails_def)
  let ?t = "s\<lparr>listeners := (listeners s)[i := Shut], start_replies := start_replies s @ [(i, Inl e)]\<rparr>"
  show ?thesis unfolding eq
  proof (rule sockets_invI)
    show "j < length (listeners ?t) \<Longrightarrow> listeners ?t ! j \<noteq> Shut \<Longrightarrow> own ?t = Some j" for j
      using True sockets_parts(2)[OF assms, of j] by (cases "j = i") simp_all
    show "(j, r) \<in> set (start_replies ?t) \<Longrightarrow> j < length (listeners ?t) \<and> listeners ?t ! j \<noteq> Opening" for j r
      using True sockets_parts(3)[OF assms, of j r] by (cases "j = i") auto
    show "own ?t = Some k \<Longrightarrow> listeners ?t ! k = Open p \<Longrightarrow> bound_port ?t = p \<and> (k, Inr p) \<in> set (start_replies ?t)" for k p
      using True sockets_parts(5)[OF assms, of k p] by (cases "k = i") auto
  qed (use sockets_parts(1,4)[OF assms] not_settled[OF assms] True in auto)
qed (use assms in \<open>auto simp: server_fails_def\<close>)

lemma sockets_inv_stops:
  assumes "sockets_inv s"
  shows "sockets_inv (server_stop s)"
proof (cases "own s")
  case (Some k)
  have eq: "server_stop s = s\<lparr>own := None, listeners := (listeners s)[k := Shut]\<rparr>" using Some by (simp add: server_stop_def)
  let ?t = "s\<lparr>own := None, listeners := (listeners s)[k := Shut]\<rparr>"
  show ?thesis unfolding eq
  proof (rule sockets_invI)
    show "j < length (listeners ?t) \<Longrightarrow> listeners ?t ! j \<noteq> Shut \<Longrightarrow> own ?t = Some j" for j
      using Some sockets_parts(2)[OF assms, of j] by (cases "j = k") simp_all
    show "(j, r) \<in> set (start_replies ?t) \<Longrightarrow> j < length (listeners ?t) \<and> listeners ?t ! j \<noteq> Opening" for j r
      using sockets_parts(3)[OF assms, of j r] by (cases "j = k") auto
  qed (use sockets_parts(4)[OF assms] in auto)
qed (use assms in \<open>simp add: server_stop_def\<close>)

lemma sockets_inv_same [simp]:
  "sockets_inv (s\<lparr>conns := cs\<rparr>) \<longleftrightarrow> sockets_inv s" "sockets_inv (s\<lparr>conns := cs, count_up := n\<rparr>) \<longleftrightarrow> sockets_inv s"
  "sockets_inv (s\<lparr>count_down := n\<rparr>) \<longleftrightarrow> sockets_inv s"
  unfolding sockets_inv_def by simp_all

lemma sockets_inv_step:
  assumes "sockets_inv s" "e = Starts \<longrightarrow> own s = None"
  shows "sockets_inv (server_step decode parse_url S e s)"
  using assms
  by (cases e) (simp_all add: server_accept_def sockets_inv_starts sockets_inv_listens sockets_inv_fails sockets_inv_stops)

lemma sockets_inv_run:
  "sockets_inv s \<Longrightarrow> one_at_a_time decode parse_url S es s \<Longrightarrow> sockets_inv (server_run decode parse_url S es s)"
proof (induction es arbitrary: s)
  case (Cons e es)
  then have "sockets_inv (server_step decode parse_url S e s)" by (intro sockets_inv_step) simp_all
  then show ?case using Cons by (simp add: server_run_def)
qed (simp add: server_run_def)

lemma sockets_inv_new: "sockets_inv new_server"
  by (simp add: sockets_inv_def new_server_def)

text \<open>A server that is never started while it is started: after a stop no client is taken any more, while the
  connections there are go on; and while it listens, \<open>port\<close> is the port of its socket, which is what \<open>start\<close> has promised.\<close>

theorem stopped_server_accepts_nobody:
  assumes "one_at_a_time decode parse_url S es new_server" "s = server_run decode parse_url S es new_server"
  shows "server_accept i (server_stop s) = server_stop s \<and> conns (server_stop s) = conns s
    \<and> (\<forall>k p. own s = Some k \<and> listeners s ! k = Open p \<longrightarrow> bound_port s = p \<and> (k, Inr p) \<in> set (start_replies s))
    \<and> distinct (map fst (start_replies s))"
proof -
  have inv: "sockets_inv s" using sockets_inv_run[OF sockets_inv_new assms(1)] assms(2) by simp
  have "own (server_stop s) = None" by (simp add: server_stop_def split: option.split)
  then have "listeners (server_stop s) ! i = Shut" if "i < length (listeners (server_stop s))"
    using sockets_parts(2)[OF sockets_inv_stops[OF inv] that] by (metis option.distinct(1))
  then show ?thesis
    using sockets_parts(4,5)[OF inv] by (auto simp: server_accept_def server_stop_def split: option.split)
qed

text \<open>A second start without a stop puts its socket in the place of the first, which no stop reaches any more.\<close>

theorem second_start_leaks_the_first:
  assumes "own s = Some k" "k < length (listeners s)" "listeners s ! k = Open p"
  shows "listeners (server_stop (server_start s)) ! k = Open p
    \<and> length (conns (server_accept k (server_stop (server_start s)))) = length (conns s) + 1"
  using assms by (simp add: server_start_def server_stop_def server_accept_def nth_append nth_list_update)

section \<open>Examples\<close>

definition plain_decode :: "bytes \<Rightarrow> string" where
  "plain_decode bs = map (\<lambda>b. unit_char (unat b)) bs"

definition tunnel_head :: bytes where
  "tunnel_head = text_bytes (''CONNECT a:443 HTTP/1.1'' @ crlf @ crlf) @ [1, 2]"

theorem every_schedule_acts_as_handle_witness:
  "case consumed (conn_run plain_decode (\<lambda>_. None) open_surroundings [Arrives tunnel_head, Emits, Arrives [3], Emits, Settles]) of
      [] \<Rightarrow> acts (conn_run plain_decode (\<lambda>_. None) open_surroundings [Arrives tunnel_head, Emits, Arrives [3], Emits, Settles]) = []
    | first # later \<Rightarrow> acts (conn_run plain_decode (\<lambda>_. None) open_surroundings [Arrives tunnel_head, Emits, Arrives [3], Emits, Settles])
          @ to_come open_surroundings (conn_run plain_decode (\<lambda>_. None) open_surroundings [Arrives tunnel_head, Emits, Arrives [3], Emits, Settles])
        = handle plain_decode (\<lambda>_. None) open_surroundings first later"
  by (rule every_schedule_acts_as_handle) simp

lemma tunnel_run:
  "phase (conn_run plain_decode (\<lambda>_. None) open_surroundings [Arrives tunnel_head, Emits, Emits, Settles, Arrives [7], Emits]) = Relaying
   \<and> lost (conn_run plain_decode (\<lambda>_. None) open_surroundings [Arrives tunnel_head, Emits, Emits, Settles, Arrives [7], Emits]) = [[1, 2]]
   \<and> consumed (conn_run plain_decode (\<lambda>_. None) open_surroundings [Arrives tunnel_head, Emits, Emits, Settles, Arrives [7], Emits]) = [tunnel_head]"
  by code_simp

theorem relay_misses_only_early_bytes_witness:
  "\<exists>given later.
      arrived [Arrives tunnel_head, Emits, Emits, Settles, Arrives [7], Emits] = take 26 tunnel_head @ given @ [1, 2] @ later
    \<and> concat (relayed (conn_run plain_decode (\<lambda>_. None) open_surroundings [Arrives tunnel_head, Emits, Emits, Settles, Arrives [7], Emits]))
        @ concat (stream (conn_run plain_decode (\<lambda>_. None) open_surroundings [Arrives tunnel_head, Emits, Emits, Settles, Arrives [7], Emits]))
      = given @ later"
proof -
  have "request_length plain_decode [tunnel_head] = 26" by code_simp
  then show ?thesis using relay_misses_only_early_bytes[OF tunnel_run[THEN conjunct1]] tunnel_run by simp
qed

theorem connect_early_bytes_race_witness:
  "relayed (conn_run plain_decode (\<lambda>_. None) open_surroundings [Arrives tunnel_head, Emits, Settles, Emits]) = [[1, 2]]
   \<and> lost (conn_run plain_decode (\<lambda>_. None) open_surroundings [Arrives tunnel_head, Emits, Emits, Settles]) = [[1, 2]]"
proof -
  have h: "\<not> is_socks tunnel_head" "head_end tunnel_head = Some 22" "drop (22 + 4) tunnel_head = [1, 2]"
    "http_plan (\<lambda>_. None) (latin1 (take 22 tunnel_head)) = Inr (''a'', Fin 443 0, ForConnect)"
    "connect_node (decide open_surroundings) (current open_surroundings) ''a'' = Inr None"
    "dial open_surroundings None ''a'' (Fin 443 0) = Inr ()"
    by code_simp+
  then show ?thesis using connect_early_bytes_race[OF h(1,2) _ h(4-6)] by simp
qed

theorem joined_greeting_is_never_answered_witness:
  "conn_run plain_decode (\<lambda>_. None) open_surroundings [Arrives [5, 1, 0, 5, 1, 0, 1, 1, 2, 3, 4, 0, 80], Emits, Emits, SocketEnds]
    = new_connection\<lparr>phase := AwaitRequest, consumed := [[5, 1, 0, 5, 1, 0, 1, 1, 2, 3, 4, 0, 80]],
        acts := [ClientWrite [0x05, socks_method [5, 1, 0, 5, 1, 0, 1, 1, 2, 3, 4, 0, 80]]]\<rparr>"
proof (rule joined_greeting_is_never_answered)
  show "is_socks [5, 1, 0, 5, 1, 0, 1, 1, 2, 3, 4, 0, 80]" by (simp add: is_socks_def)
  show "socks_method [5, 1, 0, 5, 1, 0, 1, 1, 2, 3, 4, 0, 80] \<noteq> 0xff" by (simp add: socks_method_def socks_methods_def)
qed simp

theorem stopped_server_accepts_nobody_witness:
  "let s = server_run plain_decode (\<lambda>_. None) open_surroundings [Starts, Listens 0 7890, Accepts 0, Stops, Starts, Listens 1 7891] new_server
   in server_accept 0 (server_stop s) = server_stop s \<and> conns (server_stop s) = conns s
    \<and> (\<forall>k p. own s = Some k \<and> listeners s ! k = Open p \<longrightarrow> bound_port s = p \<and> (k, Inr p) \<in> set (start_replies s))
    \<and> distinct (map fst (start_replies s))"
  unfolding Let_def
  by (rule stopped_server_accepts_nobody[OF _ refl])
    (simp add: new_server_def server_start_def server_listening_def server_accept_def server_stop_def)

theorem second_start_leaks_the_first_witness:
  "let s = server_run plain_decode (\<lambda>_. None) open_surroundings [Starts, Listens 0 7890] new_server
   in listeners (server_stop (server_start s)) ! 0 = Open 7890
    \<and> length (conns (server_accept 0 (server_stop (server_start s)))) = length (conns s) + 1"
  unfolding Let_def
  by (rule second_start_leaks_the_first) (simp_all add: server_run_def new_server_def server_start_def server_listening_def)

end
