(* ===== verification/Peers.thy ===== *)
theory Peers
  imports Dialing ProxyServer
begin

text \<open>
  The program against its peers. Two of its instances in a row: what one sends to an upstream of type http or socks5,
  another reads as the same target and answers so that the first accepts it. And what a server of each node type reads in
  the first request of a connection: the host and port the client asked for, then the client's bytes.
\<close>

section \<open>A request head without blanks\<close>

lemma head_end_line:
  "13 \<notin> set xs \<Longrightarrow> c \<noteq> 13 \<Longrightarrow> head_end (xs @ 13 # 10 # c # ys) = map_option ((+) (length xs + 2)) (head_end (c # ys))"
proof (induction xs)
  case Nil
  have "take 4 (13 # 10 # c # ys) \<noteq> [13, 10, 13, 10]" "take 4 (10 # c # ys) \<noteq> [13, 10, 13, 10]"
    using Nil by simp_all
  then show ?case using Nil by (simp add: head_end.simps[of "13 # 10 # c # ys"] head_end.simps[of "10 # c # ys"] option.map_comp comp_def)
next
  case (Cons x xs)
  then have "take 4 (x # xs @ 13 # 10 # c # ys) \<noteq> [13, 10, 13, 10]" by simp
  then show ?case using Cons by (simp add: head_end.simps[of "x # xs @ 13 # 10 # c # ys"] option.map_comp comp_def)
qed

lemma head_end_last: "13 \<notin> set xs \<Longrightarrow> head_end (xs @ [13, 10, 13, 10] @ ys) = Some (length xs)"
proof (induction xs)
  case Nil
  then show ?case by (simp add: head_end.simps)
next
  case (Cons x xs)
  then have "take 4 (x # xs @ 13 # 10 # 13 # 10 # ys) \<noteq> [13, 10, 13, 10]" by simp
  then show ?case using Cons by (simp add: head_end.simps[of "x # xs @ 13 # 10 # 13 # 10 # ys"])
qed

text \<open>Printable ASCII without the blank.\<close>

definition visible :: "string \<Rightarrow> bool" where
  "visible s \<longleftrightarrow> (\<forall>c \<in> set s. 32 < code_unit c \<and> code_unit c < 127)"

lemma visible_facts:
  assumes "visible s"
  shows "ascii s" "CHR '' '' \<notin> set s" "unit_char 13 \<notin> set s" "unit_char 10 \<notin> set s"
proof -
  have "code_unit (CHR '' '') = 32" "code_unit (unit_char 13) = 13" "code_unit (unit_char 10) = 10" by code_simp+
  then show "ascii s" "CHR '' '' \<notin> set s" "unit_char 13 \<notin> set s" "unit_char 10 \<notin> set s"
    using assms by (auto simp: visible_def ascii_def)
qed

lemma visible_append [simp]: "visible (s @ t) \<longleftrightarrow> visible s \<and> visible t"
  by (auto simp: visible_def)

lemma visible_show_nat: "visible (show_nat n)"
  using show_nat_digits[of n] by (fastforce simp: visible_def is_digit_def Let_def)

lemma utf8_no_cr: "ascii s \<Longrightarrow> unit_char 13 \<notin> set s \<Longrightarrow> (13 :: byte) \<notin> set (utf8 s)"
proof
  assume a: "ascii s" "unit_char 13 \<notin> set s" "(13 :: byte) \<in> set (utf8 s)"
  then obtain c where c: "c \<in> set s" "(13 :: byte) = of_nat (code_unit c)" by (auto simp: utf8_ascii)
  have "unat (of_nat (code_unit c) :: byte) = code_unit c" by (simp add: unat_of_nat)
  moreover have "unat (13 :: byte) = 13" by simp
  ultimately have "code_unit c = 13" using c(2) by metis
  then have "c = unit_char 13" by (metis unit_char_code_unit)
  then show False using a(2) c(1) by simp
qed

lemma base64_visible: "visible (base64 bs)"
proof -
  have "visible ''ABCDEFGHIJKLMNOPQRSTUVWXYZabcdefghijklmnopqrstuvwxyz0123456789+/''" unfolding visible_def by code_simp
  moreover have "n < 64 \<Longrightarrow> base64_char n \<in> set ''ABCDEFGHIJKLMNOPQRSTUVWXYZabcdefghijklmnopqrstuvwxyz0123456789+/''" for n
    unfolding base64_char_def by (rule nth_mem) simp
  ultimately have one: "n < 64 \<Longrightarrow> visible [base64_char n]" for n
    unfolding visible_def by (metis list.set_intros(1) set_ConsD empty_iff empty_set)
  have eq: "visible [CHR ''='']" unfolding visible_def by code_simp
  have byte: "unat (x :: byte) < 256" for x using unsigned_less[of x] by simp
  show ?thesis
  proof (induction bs rule: base64.induct)
    case (2 a)
    have "unat a * 16 div 64 < 64" using byte[of a] by simp
    then show ?case using one eq by (auto simp: Let_def visible_def)
  next
    case (3 a b)
    have "(unat a * 256 + unat b) * 4 div 4096 < 64" using byte[of a] byte[of b] by simp
    then show ?case using one eq by (auto simp: Let_def visible_def)
  next
    case (4 a b c bs)
    have "((unat a * 256 + unat b) * 256 + unat c) div 262144 < 64"
      using byte[of a] byte[of b] byte[of c] by simp
    then show ?case using one 4 by (auto simp: Let_def visible_def)
  qed (simp add: visible_def)
qed

lemma utf8_append: "utf8 (s @ t) = utf8 s @ utf8 t"
  by (simp add: utf8_def)

lemma utf8_crlf: "utf8 crlf = [13, 10]"
  by code_simp

lemma latin1_utf8: "ascii s \<Longrightarrow> latin1 (utf8 s) = s"
  by (auto simp: latin1_def utf8_ascii ascii_def intro!: map_idI)

text \<open>A line of a head: not empty, ASCII, without a carriage return.\<close>

definition head_line :: "string \<Rightarrow> bool" where
  "head_line l \<longleftrightarrow> l \<noteq> [] \<and> ascii l \<and> unit_char 13 \<notin> set l"

lemma head_line_bytes:
  assumes "head_line l"
  shows "13 \<notin> set (utf8 l)" "length (utf8 l) = length l" "\<exists>c cs. utf8 l = c # cs \<and> c \<noteq> 13"
proof -
  show no: "13 \<notin> set (utf8 l)" "length (utf8 l) = length l"
    using assms utf8_no_cr by (auto simp: head_line_def length_utf8_ascii)
  then show "\<exists>c cs. utf8 l = c # cs \<and> c \<noteq> 13"
    using assms by (cases "utf8 l") (auto simp: head_line_def)
qed

lemma ascii_crlf: "ascii crlf"
  unfolding ascii_def by code_simp

lemma ascii_join_crlf: "\<forall>l \<in> set ls. head_line l \<Longrightarrow> ascii (join crlf ls)"
proof -
  have "set (join crlf ls) \<subseteq> set crlf \<union> \<Union> (set ` set ls)" by (rule set_join)
  then show "\<forall>l \<in> set ls. head_line l \<Longrightarrow> ascii (join crlf ls)"
    using ascii_crlf unfolding ascii_def head_line_def by blast
qed

lemma head_end_lines:
  "ls \<noteq> [] \<Longrightarrow> \<forall>l \<in> set ls. head_line l \<Longrightarrow>
   head_end (utf8 (join crlf ls) @ [13, 10, 13, 10] @ data) = Some (length (join crlf ls))"
proof (induction ls)
  case (Cons l ls)
  have l: "13 \<notin> set (utf8 l)" "length (utf8 l) = length l" using head_line_bytes Cons.prems(2) by simp_all
  show ?case
  proof (cases "ls = []")
    case True
    then show ?thesis using head_end_last[OF l(1)] l(2) by simp
  next
    case False
    then obtain k ks where ks: "ls = k # ks" by (cases ls) auto
    obtain c cs where c: "utf8 k = c # cs" "c \<noteq> 13" using head_line_bytes(3)[of k] Cons.prems(2) ks by auto
    have "\<exists>ys. utf8 (join crlf ls) @ [13, 10, 13, 10] @ data = c # ys"
      using c(1) ks by (cases ks) (simp_all add: utf8_append join_Cons)
    then obtain ys where ys: "utf8 (join crlf ls) @ [13, 10, 13, 10] @ data = c # ys" by blast
    have "utf8 (join crlf (l # ls)) @ [13, 10, 13, 10] @ data = utf8 l @ 13 # 10 # c # ys"
      using ys False by (simp add: join_Cons utf8_append utf8_crlf)
    moreover have "head_end (c # ys) = Some (length (join crlf ls))"
      using Cons.IH[OF False] Cons.prems(2) unfolding ys by simp
    moreover have "length crlf = 2" by (simp add: crlf_def)
    ultimately show ?thesis
      using head_end_line[OF l(1) c(2), of ys] l(2) False by (simp add: join_Cons)
  qed
qed simp

lemma readHttpHead_lines:
  assumes "ls \<noteq> []" "\<forall>l \<in> set ls. head_line l"
  shows "readHttpHead (utf8 (join crlf ls) @ [13, 10, 13, 10] @ data) later = Some (join crlf ls, data)"
proof -
  have "length (utf8 (join crlf ls)) = length (join crlf ls)" "latin1 (utf8 (join crlf ls)) = join crlf ls"
    using ascii_join_crlf[OF assms(2)] by (simp_all add: length_utf8_ascii latin1_utf8)
  then show ?thesis
    using head_end_lines[OF assms, of data] by (simp add: readHttpHead.simps)
qed

lemma no_first_pair_free: "a \<notin> set l \<Longrightarrow> pair_free a b l"
  by (induction a b l rule: pair_free.induct) auto

lemma head_line_pair_free: "head_line l \<Longrightarrow> pair_free (unit_char 13) (unit_char 10) l"
  using no_first_pair_free by (simp add: head_line_def)

lemma first_head_line:
  assumes "ls \<noteq> []" "\<forall>l \<in> set ls. head_line l"
  shows "hd (head_lines (join crlf ls)) = hd ls"
proof (cases ls)
  case (Cons l ks)
  have ne: "unit_char 13 \<noteq> unit_char 10" by code_simp
  have free: "pair_free (unit_char 13) (unit_char 10) l" using assms(2) Cons head_line_pair_free by simp
  show ?thesis
  proof (cases "ks = []")
    case True
    have "split_two a b w = [w]" if "pair_free a b w" for a b w
      using that by (induction a b w rule: pair_free.induct) auto
    then show ?thesis using Cons True free by (simp add: head_lines_def)
  next
    case False
    then show ?thesis
      using Cons split_two_append[OF ne free, of "join crlf ks"]
      by (simp add: head_lines_def join_Cons crlf_def)
  qed
qed (use assms in simp)

section \<open>The CONNECT request\<close>

text \<open>The lines of an upstream request.\<close>

definition connect_lines :: "(jsnum \<Rightarrow> string) \<Rightarrow> jsval \<Rightarrow> string \<Rightarrow> string list" where
  "connect_lines num_str node target =
     [''CONNECT '' @ target @ '' HTTP/1.1'', ''Host: '' @ target]
     @ (if has_auth num_str node
        then [''Proxy-Authorization: Basic '' @ base64 (utf8 (js_String num_str (get_prop node ''username'') @ '':''
                @ string_or num_str (get_prop node ''password'') ''''))]
        else [])"

lemma connect_request_lines:
  "http_connect_request num_str node host port
   = join crlf (connect_lines num_str node (host @ '':'' @ num_str port)) @ crlf @ crlf"
  by (simp add: http_connect_request_def connect_lines_def Let_def)

lemma visible_head_line: "head_line pre \<Longrightarrow> visible s \<Longrightarrow> head_line (pre @ s)"
  using visible_facts[of s] by (auto simp: head_line_def ascii_def)

lemma head_line_append: "head_line l \<Longrightarrow> head_line k \<Longrightarrow> head_line (l @ k)"
  by (auto simp: head_line_def ascii_def)

lemma connect_lines_ok:
  assumes "visible target"
  shows "\<forall>l \<in> set (connect_lines num_str node target). head_line l"
proof -
  have lits: "head_line ''CONNECT ''" "head_line '' HTTP/1.1''" "head_line ''Host: ''"
    "head_line ''Proxy-Authorization: Basic ''"
    unfolding head_line_def ascii_def by code_simp+
  show ?thesis
    using head_line_append[OF visible_head_line[OF lits(1) assms] lits(2)] visible_head_line[OF lits(3) assms]
      visible_head_line[OF lits(4) base64_visible]
    by (auto simp: connect_lines_def)
qed

lemma request_line_connect:
  assumes "visible target"
  shows "request_line (''CONNECT '' @ target @ '' HTTP/1.1'') = (''CONNECT'', Some target)"
proof -
  have "split_char (CHR '' '') ''CONNECT'' = [''CONNECT'']" "split_char (CHR '' '') ''HTTP/1.1'' = [''HTTP/1.1'']" by code_simp+
  moreover have "split_char (CHR '' '') target = [target]" by (rule split_char_no_sep[OF visible_facts(2)[OF assms]])
  ultimately have "split_char (CHR '' '') (''CONNECT'' @ CHR '' '' # target @ CHR '' '' # ''HTTP/1.1'') = [''CONNECT'', target, ''HTTP/1.1'']"
    unfolding split_char_append_sep by (simp only: append_Cons append_Nil)
  then show ?thesis by (simp add: request_line_def)
qed

lemma last_index_of_tail: "c \<notin> set t \<Longrightarrow> last_index_of c (s @ c # t) = Some (length s)"
proof -
  assume "c \<notin> set t"
  then have "index_of c (rev t @ c # rev s) = Some (length t)" by (simp add: index_of_Some nth_append)
  then show ?thesis by (simp add: last_index_of_def)
qed

lemma digits_no_colon: "CHR '':'' \<notin> set (show_nat n)"
proof -
  have "\<not> is_digit (CHR '':'')" by code_simp
  then show ?thesis using show_nat_digits[of n] by metis
qed

lemma target_parts:
  assumes "n < 2 ^ 53"
  shows "last_index_of (CHR '':'') (h @ '':'' @ show_nat n) = Some (length h)"
    "js_Number (drop (length h + 1) (h @ '':'' @ show_nat n)) = Fin (int n) 0"
  using last_index_of_tail[OF digits_no_colon[of n], of h] js_Number_show_nat[OF assms] by simp_all

lemma handleConnect_target:
  assumes "h \<noteq> []" "n < 2 ^ 53"
  shows "handleConnect S (h @ '':'' @ show_nat n)
    = (case connect S h (Fin (int n) 0) of
         Inl e \<Rightarrow> [bad_gateway]
       | Inr _ \<Rightarrow> [Dial h (Fin (int n) 0), ClientWrite (text_bytes (''HTTP/1.1 200 Connection Established'' @ crlf @ crlf)), Relay])"
proof -
  show ?thesis using assms(1) target_parts[OF assms(2), of h] by (auto simp: handleConnect_def Let_def split: nat.split)
qed

lemma connect_head:
  assumes "visible h" "num_str (Fin (int n) 0) = show_nat n"
  shows "\<exists>head. readHttpHead (utf8 (http_connect_request num_str node h (Fin (int n) 0)) @ data) later = Some (head, data)
     \<and> request_line (hd (head_lines head)) = (''CONNECT'', Some (h @ '':'' @ show_nat n))"
proof -
  let ?t = "h @ '':'' @ show_nat n"
  have t: "visible ?t"
  proof -
    have "visible '':''" unfolding visible_def by code_simp
    then show ?thesis using assms(1) visible_show_nat[of n] visible_append[of "'':''" "show_nat n"] by simp
  qed
  let ?ls = "connect_lines num_str node ?t"
  have ls: "?ls \<noteq> []" "\<forall>l \<in> set ?ls. head_line l" using connect_lines_ok[OF t] by (simp_all add: connect_lines_def)
  have "utf8 (http_connect_request num_str node h (Fin (int n) 0)) @ data = utf8 (join crlf ?ls) @ [13, 10, 13, 10] @ data"
    by (simp add: connect_request_lines assms(2) utf8_append utf8_crlf)
  then have "readHttpHead (utf8 (http_connect_request num_str node h (Fin (int n) 0)) @ data) later = Some (join crlf ?ls, data)"
    using readHttpHead_lines[OF ls, of data later] by simp
  moreover have "request_line (hd (head_lines (join crlf ?ls))) = (''CONNECT'', Some ?t)"
    unfolding first_head_line[OF ls] using request_line_connect[OF t] by (simp add: connect_lines_def)
  ultimately show ?thesis by blast
qed

lemma connect_request_served:
  assumes "visible h" "h \<noteq> []" "n < 2 ^ 53" "num_str (Fin (int n) 0) = show_nat n"
  shows "handle decode parse_url S (utf8 (http_connect_request num_str node h (Fin (int n) 0)) @ data) later
    = (if data \<noteq> [] then [ClientUnshift data] else [])
      @ (case connect S h (Fin (int n) 0) of
           Inl e \<Rightarrow> [bad_gateway]
         | Inr _ \<Rightarrow> [Dial h (Fin (int n) 0), ClientWrite (text_bytes (''HTTP/1.1 200 Connection Established'' @ crlf @ crlf)), Relay])"
proof -
  have "\<not> is_socks (utf8 (http_connect_request num_str node h (Fin (int n) 0)) @ data)"
    by (simp add: http_connect_request_def Let_def is_socks_def utf8_def utf8_char_def code_unit_def)
  then show ?thesis
    using connect_head[where num_str = num_str and n = n, OF assms(1,4), of node data later] handleConnect_target[OF assms(2,3), of S]
    by (auto simp: handle_def handleHttp_def Let_def)
qed

section \<open>Two instances in a row\<close>

text \<open>What a handler sends to its client before the relay starts.\<close>

definition client_bytes :: "act list \<Rightarrow> bytes" where
  "client_bytes acts = concat (map (\<lambda>a. case a of ClientWrite bs \<Rightarrow> bs | ClientEnd bs \<Rightarrow> bs | _ \<Rightarrow> []) acts)"

lemma no_early_end:
  assumes "13 \<notin> set head" "k < length head + 4"
  shows "\<not> endsWith (latin1 (take k (head @ [13, 10, 13, 10]))) crlf2"
proof
  let ?bs = "head @ [13, 10, 13, 10] :: bytes"
  assume "endsWith (latin1 (take k ?bs)) crlf2"
  then obtain zs where zs: "latin1 (take k ?bs) = zs @ crlf2" by (auto simp: endsWith_def suffix_def)
  then have "length (latin1 (take k ?bs)) = length zs + length crlf2" by simp
  then have "length zs + 4 = k" using assms(2) by (simp add: latin1_def crlf2_def)
  then have "latin1 (take k ?bs) ! length zs = unit_char (unat (?bs ! length zs))"
    using assms(2) unfolding latin1_def by (subst nth_map) (simp_all del: take_append)
  moreover have "latin1 (take k ?bs) ! length zs = unit_char 13" unfolding zs by (simp add: crlf2_def)
  ultimately have b: "unit_char (unat (?bs ! length zs)) = unit_char 13" "length zs < length head"
    using assms(2) \<open>length zs + 4 = k\<close> by simp_all
  have "unat (head ! length zs) < 256" using unsigned_less[of "head ! length zs"] by simp
  then have "unat (head ! length zs) = 13"
    using b code_unit_unit_char[of 13] code_unit_unit_char[of "unat (head ! length zs)"] by (simp add: nth_append)
  then have "head ! length zs = 13" by (simp add: word_unat_eq_iff)
  then show False using assms(1) b(2) nth_mem by metis
qed

lemma established_answer:
  assumes "conn_ok c" "conn_avail c = text_bytes (''HTTP/1.1 200 Connection Established'' @ crlf @ crlf) @ rest"
  shows "\<exists>c'. httpConnect conn_read num_str node host port c
      = Some ([utf8 (http_connect_request num_str node host port)], Inr c') \<and> conn_avail c' = rest \<and> conn_ok c'"
proof -
  let ?l = "''HTTP/1.1 200 Connection Established''"
  have l: "text_bytes (?l @ crlf @ crlf) = text_bytes ?l @ [13, 10, 13, 10]" by code_simp
  have "13 \<notin> set (text_bytes ?l)" by code_simp
  then have "\<forall>k < length (text_bytes ?l) + 4. \<not> endsWith (latin1 (take k (text_bytes ?l @ [13, 10, 13, 10]))) crlf2"
    using no_early_end by blast
  moreover have "length (text_bytes ?l) \<le> 65533" by (simp add: text_bytes_def)
  ultimately obtain c' where c': "readUntilCrlfCrlf conn_read c = Some (Inr (latin1 (text_bytes ?l), c'))"
    "conn_avail c' = rest" "conn_ok c'"
    using conn.header_block[OF assms(1), of "text_bytes ?l" rest] assms(2) unfolding l by auto
  have "\<not> status_refused (http_status (latin1 (text_bytes ?l)))" by code_simp
  then show ?thesis using c' by (simp add: httpConnect_def)
qed

text \<open>C26. Two instances in a row, by HTTP: the CONNECT request an instance sends to an upstream of type http makes another
  instance dial exactly the target, and its answer is accepted; the first then stands at the first byte of the tunnel.\<close>

theorem http_instances_chain:
  assumes "visible h" "h \<noteq> []" "n < 2 ^ 53" "num_str (Fin (int n) 0) = show_nat n" "connect S h (Fin (int n) 0) = Inr ()"
    "conn_ok c"
    "conn_avail c = client_bytes (handle decode parse_url S (utf8 (http_connect_request num_str node h (Fin (int n) 0))) later) @ rest"
  shows "handle decode parse_url S (utf8 (http_connect_request num_str node h (Fin (int n) 0))) later
      = [Dial h (Fin (int n) 0), ClientWrite (text_bytes (''HTTP/1.1 200 Connection Established'' @ crlf @ crlf)), Relay]
    \<and> (\<exists>c'. httpConnect conn_read num_str node h (Fin (int n) 0) c
        = Some ([utf8 (http_connect_request num_str node h (Fin (int n) 0))], Inr c') \<and> conn_avail c' = rest \<and> conn_ok c')"
proof
  show acts: "handle decode parse_url S (utf8 (http_connect_request num_str node h (Fin (int n) 0))) later
      = [Dial h (Fin (int n) 0), ClientWrite (text_bytes (''HTTP/1.1 200 Connection Established'' @ crlf @ crlf)), Relay]"
    using connect_request_served[where num_str = num_str and data = "[]", OF assms(1-4)] assms(5) by simp
  show "\<exists>c'. httpConnect conn_read num_str node h (Fin (int n) 0) c
        = Some ([utf8 (http_connect_request num_str node h (Fin (int n) 0))], Inr c') \<and> conn_avail c' = rest \<and> conn_ok c'"
    by (rule established_answer[OF assms(6)]) (use assms(7) acts in \<open>simp add: client_bytes_def\<close>)
qed

text \<open>And by SOCKS5, with or without credentials in the node.\<close>

theorem socks5_instances_chain:
  assumes "canonical_host h" "length h < 256" "n < 65536" "utf8_decoder decode" "connect S h (Fin (int n) 0) = Inr ()"
    "conn_ok c"
    "conn_avail c = client_bytes (handle decode parse_url S (socks5_greeting (has_auth num_str node))
        [[5, 1, 0] @ encodeAddr h (Fin (int n) 0)]) @ rest"
  shows "Dial h (Fin (int n) 0) \<in> set (handle decode parse_url S (socks5_greeting (has_auth num_str node))
        [[5, 1, 0] @ encodeAddr h (Fin (int n) 0)])
    \<and> (\<exists>c'. socks5Connect conn_read num_str node h (Fin (int n) 0) c
        = ([socks5_greeting (has_auth num_str node), [5, 1, 0] @ encodeAddr h (Fin (int n) 0)], Inr c')
        \<and> conn_avail c' = rest \<and> conn_ok c')"
proof -
  let ?methods = "if has_auth num_str node then [0, 2] else [0] :: bytes"
  have g: "socks5_greeting (has_auth num_str node) = [5, of_nat (length ?methods)] @ ?methods"
    by (simp add: socks5_greeting_def)
  have acts: "handle decode parse_url S (socks5_greeting (has_auth num_str node)) [[5, 1, 0] @ encodeAddr h (Fin (int n) 0)]
      = [ClientWrite [5, 0], Dial h (Fin (int n) 0), ClientWrite (socks_answer 0), Relay]"
    unfolding g using socks5_client_reaches_target[OF assms(1-4) _ _ assms(5), of ?methods parse_url "[]"] by simp
  have "conn_avail c = [5, 0] @ (if (0 :: byte) = 2 then [1, 0] else []) @ [5, 0, 0, 1] @ [0, 0, 0, 0, 0, 0] @ rest"
    using assms(7) unfolding acts by (simp add: client_bytes_def socks_answer_def)
  from conn.socks5_connect_ok[OF assms(6) _ _ this, of num_str node h "Fin (int n) 0"]
  have "\<exists>c'. socks5Connect conn_read num_str node h (Fin (int n) 0) c
        = ([socks5_greeting (has_auth num_str node), [5, 1, 0] @ encodeAddr h (Fin (int n) 0)], Inr c')
        \<and> conn_avail c' = rest \<and> conn_ok c'"
    by (simp add: bound_address_def)
  then show ?thesis unfolding acts by simp
qed

section \<open>What each kind of node reads\<close>

text \<open>
  The first request of a connection, by the kind of the node: the CONNECT head, the SOCKS5 request, salt and first
  chunk, the trojan and vless requests, the sealed vmess header. \<open>salt\<close> and \<open>d\<close> are the random draws.
\<close>

fun first_request ::
  "route \<Rightarrow> crypto \<Rightarrow> (jsnum \<Rightarrow> string) \<Rightarrow> bytes \<Rightarrow> draws \<Rightarrow> jsval \<Rightarrow> string \<Rightarrow> jsnum \<Rightarrow> bytes option" where
  "first_request Http C num_str salt d node host port = Some (utf8 (http_connect_request num_str node host port))"
| "first_request Socks5 C num_str salt d node host port = Some ([5, 1, 0] @ encodeAddr host port)"
| "first_request Ss C num_str salt d node host port =
     (case ssConnect C num_str node host port salt of Some (Inr (first, s)) \<Rightarrow> Some first | _ \<Rightarrow> None)"
| "first_request Trojan C num_str salt d node host port = Some (trojan_request C num_str node host port)"
| "first_request Vless C num_str salt d node host port =
     (case vless_request num_str node host port of Inr r \<Rightarrow> Some r | Inl e \<Rightarrow> None)"
| "first_request VmessR C num_str salt d node host port =
     (case vmessConnect C num_str node host port d of Inr (header, v) \<Rightarrow> Some header | Inl e \<Rightarrow> None)"
| "first_request _ C num_str salt d node host port = None"

text \<open>
  How a server of each kind reads it, given the node's credentials, which the request must carry: host, port and what
  follows. An HTTP server is read with the functions of this program's own server.
\<close>

definition read_target :: "(bytes \<Rightarrow> string) \<Rightarrow> bytes \<Rightarrow> (string \<times> nat \<times> bytes) option" where
  "read_target decode bs =
     (case readSocks5Request decode bs of Inr r \<Rightarrow> Some (req_host r, req_port r, req_rest r) | Inl e \<Rightarrow> None)"

definition read_connect :: "bytes \<Rightarrow> (string \<times> nat \<times> bytes) option" where
  "read_connect bs =
     (case readHttpHead bs [] of
        Some (head, rest) \<Rightarrow>
          (case request_line (hd (head_lines head)) of
             (m, Some t) \<Rightarrow>
               (case last_index_of (CHR '':'') t of
                  Some i \<Rightarrow> (case js_Number (drop (i + 1) t) of
                               Fin p k \<Rightarrow> if m = ''CONNECT'' \<and> k = 0 then Some (take i t, nat p, rest) else None
                             | _ \<Rightarrow> None)
                | None \<Rightarrow> None)
           | _ \<Rightarrow> None)
      | None \<Rightarrow> None)"

definition read_ss :: "crypto \<Rightarrow> (bytes \<Rightarrow> string) \<Rightarrow> (jsnum \<Rightarrow> string) \<Rightarrow> jsval \<Rightarrow> bytes \<Rightarrow> (string \<times> nat \<times> bytes) option" where
  "read_ss C decode num_str node bs =
     (let cipherName = string_or num_str (get_prop node ''cipher'') ''aes-256-gcm'' in
      case ss_salt_size cipherName of
        None \<Rightarrow> None
      | Some n \<Rightarrow>
          (case ssSubkey C (string_or num_str (get_prop node ''password'') []) (take n bs) cipherName of
             Some (Inr key) \<Rightarrow>
               (case ss_read C iter_read \<lparr>ss_cipher = cipherName, ss_key = key, out_nonce = 0, in_nonce = 0\<rparr>
                       \<lparr>pending = drop n bs, chunks = []\<rparr> of
                  Inr (addr, s, src) \<Rightarrow>
                    (case read_target decode ([5, 1, 0] @ addr) of
                       Some (h, p, []) \<Rightarrow> Some (h, p, iter_avail src)
                     | _ \<Rightarrow> None)
                | Inl e \<Rightarrow> None)
           | _ \<Rightarrow> None))"

definition read_vmess :: "crypto \<Rightarrow> (bytes \<Rightarrow> string) \<Rightarrow> (jsnum \<Rightarrow> string) \<Rightarrow> jsval \<Rightarrow> bytes \<Rightarrow> (string \<times> nat \<times> bytes) option" where
  "read_vmess C decode num_str node bs =
     (case uuidBytes num_str (get_prop node ''uuid'') of
        Inl e \<Rightarrow> None
      | Inr uuid \<Rightarrow>
          (case openVmessAeadHeader C (vmess_cmd_key C uuid) bs of
             Inl e \<Rightarrow> None
           | Inr cmd \<Rightarrow>
               (case parse_port_addr decode (drop 38 cmd) of
                  Inr r \<Rightarrow> Some (req_host r, req_port r, drop (58 + length cmd) bs)
                | Inl e \<Rightarrow> None)))"

fun understood ::
  "route \<Rightarrow> crypto \<Rightarrow> (bytes \<Rightarrow> string) \<Rightarrow> (jsnum \<Rightarrow> string) \<Rightarrow> jsval \<Rightarrow> bytes \<Rightarrow> (string \<times> nat \<times> bytes) option" where
  "understood Http C decode num_str node bs = read_connect bs"
| "understood Socks5 C decode num_str node bs = read_target decode bs"
| "understood Ss C decode num_str node bs = read_ss C decode num_str node bs"
| "understood Trojan C decode num_str node bs =
     (case parse_trojan decode bs of
        Some (secret, r) \<Rightarrow>
          if secret = utf8 (hex_of (sha224 C (utf8 (string_or num_str (get_prop node ''password'') [])))) then Some r else None
      | None \<Rightarrow> None)"
| "understood Vless C decode num_str node bs =
     (case parse_vless decode bs of
        Some (uuid, r) \<Rightarrow> if uuidBytes num_str (get_prop node ''uuid'') = Inr uuid then Some r else None
      | None \<Rightarrow> None)"
| "understood VmessR C decode num_str node bs = read_vmess C decode num_str node bs"
| "understood _ C decode num_str node bs = None"

lemma encodeAddr_short:
  assumes "canonical_host h" "length h < 256"
  shows "length (encodeAddr h port) < 300"
proof -
  obtain t addr where l: "encodeAddr h port = [if t = 1 then 1 else if t = 2 then 3 else 4] @ addr @ be16 port"
    "addr_length t (addr @ []) = length addr"
    using two_layouts[OF assms, of port] by blast
  have "unat (hd addr) < 256" using unsigned_less[of "hd addr"] by simp
  then have "length addr < 290" using l(2) by (simp add: addr_length_def split: if_splits)
  then show ?thesis using l(1) by (simp add: length_be16)
qed

lemma connect_request_read:
  assumes "visible h" "n < 2 ^ 53" "num_str (Fin (int n) 0) = show_nat n"
  shows "read_connect (utf8 (http_connect_request num_str node h (Fin (int n) 0)) @ data) = Some (h, n, data)"
proof -
  obtain head where "readHttpHead (utf8 (http_connect_request num_str node h (Fin (int n) 0)) @ data) [] = Some (head, data)"
    "request_line (hd (head_lines head)) = (''CONNECT'', Some (h @ '':'' @ show_nat n))"
    using connect_head[where num_str = num_str and n = n, OF assms(1,3)] by blast
  then show ?thesis using target_parts[OF assms(2), of h] by (simp add: read_connect_def)
qed

lemma ss_understood:
  assumes "aead_correct C" "canonical_host h" "length h < 256" "n < 65536" "utf8_decoder decode"
    "ssConnect C num_str node h (Fin (int n) 0) salt = Some (Inr (first, s))"
    "ss_salt_size (string_or num_str (get_prop node ''cipher'') ''aes-256-gcm'') = Some (length salt)"
  shows "read_ss C decode num_str node (first @ data) = Some (h, n, data)"
proof -
  let ?c = "string_or num_str (get_prop node ''cipher'') ''aes-256-gcm''"
  let ?p = "Fin (int n) 0"
  obtain key f where key: "ssSubkey C (string_or num_str (get_prop node ''password'') []) salt ?c = Some (Inr key)"
    and f: "ss_chunk C \<lparr>ss_cipher = ?c, ss_key = key, out_nonce = 0, in_nonce = 0\<rparr> (encodeAddr h ?p) = Inr (f, s)"
    and first: "first = salt @ f"
    using assms(6) by (auto simp: ssConnect_def Let_def bind_res_Inr_iff split: if_splits option.splits sum.splits)
  have len: "length (encodeAddr h ?p) + 16 < 65536"
    using encodeAddr_short[OF assms(2,3), of ?p] by simp
  have "ss_in_sync C \<lparr>ss_cipher = ?c, ss_key = key, out_nonce = 0, in_nonce = 0\<rparr> \<lparr>ss_cipher = ?c, ss_key = key, out_nonce = 0, in_nonce = 0\<rparr>"
    using assms(1) by (simp add: ss_in_sync_def)
  from iter.ss_read_chunk[OF this len f, of "\<lparr>pending = f @ data, chunks = []\<rparr>" data]
  obtain s' src where "ss_read C iter_read \<lparr>ss_cipher = ?c, ss_key = key, out_nonce = 0, in_nonce = 0\<rparr>
      \<lparr>pending = f @ data, chunks = []\<rparr> = Inr (encodeAddr h ?p, s', src)" "iter_avail src = data"
    by (auto simp: iter_avail_def)
  then show ?thesis
    using assms(7) key read_request[OF assms(2-5), of "[]"]
    by (simp add: read_ss_def Let_def first read_target_def)
qed

lemma vmess_understood:
  assumes "aead_correct C" "ecb_correct C" "canonical_host h" "length h < 256" "n < 65536" "utf8_decoder decode"
    "vmessConnect C num_str node h (Fin (int n) 0) d = Inr (header, v)"
    "length (d_key d) = 16" "length (d_iv d) = 16" "length (d_rand d) = 4" "length (d_nonce d) = 8"
  shows "read_vmess C decode num_str node (header @ data) = Some (h, n, data)"
proof -
  let ?p = "Fin (int n) 0"
  obtain uuid cmd where u: "uuidBytes num_str (get_prop node ''uuid'') = Inr uuid"
    and cmd: "buildVmessCommand (d_key d) (d_iv d) (d_echo d) h ?p (d_padding d) = Inr cmd"
    and hd: "sealVmessAeadHeader C (vmess_cmd_key C uuid) cmd (d_now d) (d_rand d) (d_nonce d) = Inr header"
    using assms(7) by (auto simp: vmessConnect_def bind_res_Inr_iff)
  obtain addr where addr: "vmessEncodeAddr h ?p = Inr addr" using cmd by (auto simp: buildVmessCommand_def bind_res_Inr_iff)
  obtain tail where c: "drop 38 cmd = addr @ tail"
  proof -
    define pre where "pre = [0x01] @ d_iv d @ d_key d @ [d_echo d] @ [0x01] @ [or (push_bit 4 (of_nat (length (d_padding d)))) 0x03, 0x00, 0x01]"
    have "length pre = 38" by (simp add: pre_def assms(8,9))
    moreover have "cmd = pre @ addr @ d_padding d @ u32_bytes (fnv1a32 (pre @ addr @ d_padding d))"
      using cmd addr by (simp add: buildVmessCommand_def Let_def pre_def)
    ultimately show ?thesis using that by simp
  qed
  note header = sealed_header[OF assms(1,2,10,11) hd, of data]
  have "parse_port_addr decode (drop 38 cmd) = Inr \<lparr>req_host = h, req_port = n, req_rest = tail\<rparr>"
    unfolding c two_addresses[OF addr assms(3,4)] by (rule read_request[OF assms(3-6)])
  then show ?thesis using u header by (simp add: read_vmess_def)
qed

text \<open>The random draws of a connection have the lengths the code asks for.\<close>

fun draws_fit :: "route \<Rightarrow> (jsnum \<Rightarrow> string) \<Rightarrow> jsval \<Rightarrow> bytes \<Rightarrow> draws \<Rightarrow> bool" where
  "draws_fit Ss num_str node salt d
   \<longleftrightarrow> ss_salt_size (string_or num_str (get_prop node ''cipher'') ''aes-256-gcm'') = Some (length salt)"
| "draws_fit VmessR num_str node salt d
   \<longleftrightarrow> length (d_key d) = 16 \<and> length (d_iv d) = 16 \<and> length (d_rand d) = 4 \<and> length (d_nonce d) = 8"
| "draws_fit _ num_str node salt d \<longleftrightarrow> True"

text \<open>Every kind of node is told the target: whatever it is, its server reads host and port from the first request and is
  left with the bytes behind it.\<close>

theorem every_node_is_told_the_target:
  assumes "canonical_host h" "visible h" "length h < 256" "n < 65536" "utf8_decoder decode"
    "num_str (Fin (int n) 0) = show_nat n" "aead_correct C" "ecb_correct C" "digests_correct C"
    "draws_fit r num_str node salt d" "first_request r C num_str salt d node h (Fin (int n) 0) = Some q"
  shows "understood r C decode num_str node (q @ data) = Some (h, n, data)"
proof (cases r)
  case Http
  have "n < 2 ^ 53" using assms(4) by simp
  from connect_request_read[where num_str = num_str and n = n, OF assms(2) this assms(6)] show ?thesis
    using assms(11) Http by auto
next
  case Socks5
  then show ?thesis
    using assms(11) read_request[OF assms(1,3-5), of data] by (auto simp: read_target_def)
next
  case Ss
  then obtain s where "ssConnect C num_str node h (Fin (int n) 0) salt = Some (Inr (q, s))"
    using assms(11) by (auto split: option.splits sum.splits)
  then show ?thesis using ss_understood[OF assms(7,1,3-5)] assms(10) Ss by simp
next
  case Trojan
  then show ?thesis using assms(11) trojan_request_is_understood[OF assms(9,1,3-5)] by auto
next
  case Vless
  then have "vless_request num_str node h (Fin (int n) 0) = Inr q" using assms(11) by (simp split: sum.splits)
  from vless_request_is_understood[OF this assms(1,3-5), of data] show ?thesis using Vless by auto
next
  case VmessR
  then obtain v where "vmessConnect C num_str node h (Fin (int n) 0) d = Inr (q, v)"
    using assms(11) by (auto split: sum.splits)
  then show ?thesis using vmess_understood[OF assms(7,8,1,3-5)] assms(10) VmessR by simp
qed (use assms(11) in simp_all)

text \<open>The first request is what the connection writes once its socket is open (over TCP or TLS; a WebSocket carries the
  same bytes in its first frame).\<close>

theorem first_request_is_written:
  assumes "\<not> ws_network num_str node"
  shows "first_request Trojan C num_str salt d node host port = Some q
      \<Longrightarrow> fst (trojanConnect C rd num_str key maskKey node host port s) = [q]"
    and "first_request Vless C num_str salt d node host port = Some q
      \<Longrightarrow> fst (vlessConnect rd num_str key maskKey node host port s) = [q]"
    and "first_request VmessR C num_str salt d node host port = Some q
      \<Longrightarrow> fst (vmessDial C rd num_str key maskKey node host port d s) = [q]"
  using assms
  by (auto simp: trojanConnect_def vlessConnect_def vmessDial_def open_carrier_def then_write_def writeRaw_def
      vless_request_def bind_res_Inr_iff bind_res_def split: if_splits sum.splits)

definition plain_str :: "jsnum \<Rightarrow> string" where
  "plain_str x = (case x of Fin m k \<Rightarrow> if k = 0 \<and> 0 \<le> m then show_nat (nat m) else [] | _ \<Rightarrow> [])"

lemma plain_str_nat [simp]: "plain_str (Fin (int n) 0) = show_nat n"
  by (simp add: plain_str_def)

lemma example_visible: "visible ''example.com''"
  unfolding visible_def by code_simp

theorem http_instances_chain_witness:
  "let q = utf8 (http_connect_request plain_str (JObj []) ''example.com'' (Fin (int 443) 0));
       c = \<lparr>sb = new_sockbuf, arriving = [client_bytes (handle (map (\<lambda>b. unit_char (unat b))) (\<lambda>_. None) open_surroundings q []), [9]]\<rparr>
   in \<exists>c'. httpConnect conn_read plain_str (JObj []) ''example.com'' (Fin (int 443) 0) c = Some ([q], Inr c')
     \<and> conn_avail c' = [9] \<and> conn_ok c'"
proof -
  have "connect open_surroundings ''example.com'' (Fin (int 443) 0) = Inr ()"
    by (simp add: open_surroundings_def connect_def connect_node_def bind_res_def)
  note chain = http_instances_chain[where num_str = plain_str and n = 443 and node = "JObj []", OF example_visible _ _ plain_str_nat this]
  show ?thesis
    unfolding Let_def by (rule chain[THEN conjunct2]) (simp_all add: conn_ok_def conn_avail_def)
qed

theorem socks5_instances_chain_witness:
  "let c = \<lparr>sb = new_sockbuf, arriving = [client_bytes (handle (map (\<lambda>b. unit_char (unat b))) (\<lambda>_. None) open_surroundings
              (socks5_greeting (has_auth plain_str (JObj []))) [[5, 1, 0] @ encodeAddr ''example.com'' (Fin (int 443) 0)]), [9]]\<rparr>
   in \<exists>c'. socks5Connect conn_read plain_str (JObj []) ''example.com'' (Fin (int 443) 0) c
        = ([socks5_greeting (has_auth plain_str (JObj [])), [5, 1, 0] @ encodeAddr ''example.com'' (Fin (int 443) 0)], Inr c')
      \<and> conn_avail c' = [9] \<and> conn_ok c'"
proof -
  have "connect open_surroundings ''example.com'' (Fin (int 443) 0) = Inr ()"
    by (simp add: open_surroundings_def connect_def connect_node_def bind_res_def)
  note chain = socks5_instances_chain[where num_str = plain_str and n = 443 and node = "JObj []" and parse_url = "\<lambda>_. None",
      OF example_host _ _ ascii_decoder this]
  show ?thesis
    unfolding Let_def by (rule chain[THEN conjunct2]) (simp_all add: conn_ok_def conn_avail_def)
qed

end
