(* ===== verification/Faces.thy ===== *)
theory Faces
  imports Dialing
begin

text \<open>
  \<open>lib/core/transports.js\<close>: the \<open>write\<close> and \<open>close\<close> of the faces, over a socket or a WebSocket, with the plain, the
  Shadowsocks and the VMess writer; what a node's server reads of it; when a face throws.
\<close>

section \<open>Writing and closing\<close>

text \<open>How the \<open>write\<close> of a face turns the client's bytes into what goes out: as they are, in sealed Shadowsocks chunks, or in
  VMess chunks.\<close>

datatype writer = Plain | SsWriter ss_session | VmessWriter vmess_body

text \<open>
  A face: what it writes over, its writer, what the socket was given, and whether it was destroyed. A destroyed socket
  takes nothing more.
\<close>

record face =
  over :: carrier
  writer :: writer
  wire :: "bytes list"
  destroyed :: bool

text \<open>\<open>writeRaw\<close> of one buffer; \<open>key i\<close> is the mask drawn for the \<open>i\<close>-th frame.\<close>

definition put :: "(nat \<Rightarrow> bytes) \<Rightarrow> bytes \<Rightarrow> face \<Rightarrow> face" where
  "put key bs f =
     (if destroyed f then f else f\<lparr>wire := wire f @ [writeRaw (over f) (key (length (wire f))) bs]\<rparr>)"

definition put_all :: "(nat \<Rightarrow> bytes) \<Rightarrow> bytes list \<Rightarrow> face \<Rightarrow> face" where
  "put_all key ps f = fold (put key) ps f"

text \<open>
  The \<open>write\<close> of each face, with the exception it throws. A VMess writer that throws has counted the chunk it could not
  number.
\<close>

definition face_write :: "crypto \<Rightarrow> (nat \<Rightarrow> bytes) \<Rightarrow> bytes \<Rightarrow> face \<Rightarrow> face \<times> error option" where
  "face_write C key data f =
     (case writer f of
        Plain \<Rightarrow> (put key data f, None)
      | SsWriter s \<Rightarrow>
          (case ss_write C s data of
             (fs, Inr s') \<Rightarrow> ((put_all key fs f)\<lparr>writer := SsWriter s'\<rparr>, None)
           | (fs, Inl e) \<Rightarrow> (put_all key fs f, Some e))
      | VmessWriter w \<Rightarrow>
          (case vmess_write C w data of
             (fs, Inr w') \<Rightarrow> ((put_all key fs f)\<lparr>writer := VmessWriter w'\<rparr>, None)
           | (fs, Inl e) \<Rightarrow>
               ((put_all key fs f)\<lparr>writer := VmessWriter (w\<lparr>chunk_count := chunk_count w + length fs + 1\<rparr>)\<rparr>, Some e)))"

text \<open>The \<open>close\<close> of each face: VMess sends its empty chunk first.\<close>

definition face_close :: "(nat \<Rightarrow> bytes) \<Rightarrow> face \<Rightarrow> face" where
  "face_close key f =
     (case writer f of VmessWriter w \<Rightarrow> (put key vmess_end f)\<lparr>destroyed := True\<rparr> | _ \<Rightarrow> f\<lparr>destroyed := True\<rparr>)"

text \<open>What the relay does to a face.\<close>

datatype face_call = Writes bytes | Closes

fun face_run :: "crypto \<Rightarrow> (nat \<Rightarrow> bytes) \<Rightarrow> face_call list \<Rightarrow> face \<Rightarrow> face \<times> error option" where
  "face_run C key [] f = (f, None)"
| "face_run C key (Writes d # cs) f =
     (case face_write C key d f of (f', None) \<Rightarrow> face_run C key cs f' | (f', Some e) \<Rightarrow> (f', Some e))"
| "face_run C key (Closes # cs) f = face_run C key cs (face_close key f)"

section \<open>What goes over the wire\<close>

fun framed :: "carrier \<Rightarrow> (nat \<Rightarrow> bytes) \<Rightarrow> nat \<Rightarrow> bytes list \<Rightarrow> bytes list" where
  "framed c key i [] = []"
| "framed c key i (p # ps) = writeRaw c (key i) p # framed c key (Suc i) ps"

lemma framed_append: "framed c key i (ps @ qs) = framed c key i ps @ framed c key (i + length ps) qs"
  by (induction ps arbitrary: i) simp_all

lemma put_all_open:
  "\<not> destroyed f \<Longrightarrow> put_all key ps f = f\<lparr>wire := wire f @ framed (over f) key (length (wire f)) ps\<rparr>"
  by (induction ps arbitrary: f) (simp_all add: put_all_def put_def)

lemma put_destroyed [simp]: "destroyed f \<Longrightarrow> put key bs f = f"
  by (simp add: put_def)

lemma put_all_destroyed [simp]: "destroyed f \<Longrightarrow> put_all key ps f = f"
  by (induction ps) (simp_all add: put_all_def)

text \<open>What the other side takes off a carrier: the bytes themselves, or the payloads of the frames up to a close frame.\<close>

definition taken_off :: "carrier \<Rightarrow> bytes \<Rightarrow> bytes option" where
  "taken_off c bs =
     (case c of
        Raw \<Rightarrow> Some bs
      | WebSocket \<Rightarrow>
          (case ws_drain iter_read (\<lambda>_. []) \<lparr>ws_src = \<lparr>pending = bs @ frame_bytes 8 None [], chunks = []\<rparr>, ws_sent = [], ws_draws = 0\<rparr> [] of
             Some (Inr (ms, w)) \<Rightarrow> Some (concat ms)
           | _ \<Rightarrow> None))"

definition keys_ok :: "(nat \<Rightarrow> bytes) \<Rightarrow> bool" where
  "keys_ok key \<longleftrightarrow> (\<forall>i. length (key i) = 4)"

lemma taken_off_framed:
  assumes "keys_ok key" "\<forall>p \<in> set ps. length p < 2 ^ 53"
  shows "taken_off c (concat (framed c key i ps)) = Some (concat ps)"
proof (cases c)
  case Raw
  have "framed Raw key i ps = ps" by (induction ps arbitrary: i) (simp_all add: writeRaw_def)
  then show ?thesis using Raw by (simp add: taken_off_def)
next
  case WebSocket
  define kds where "kds = zip (map key [i..<i + length ps]) ps"
  have kd: "map snd kds = ps" by (simp add: kds_def)
  have fr: "framed WebSocket key i ps = map (\<lambda>(k, d). ws_write k d) (zip (map key [i..<i + length ps]) ps)" for i
    by (induction ps arbitrary: i) (simp_all add: writeRaw_def upt_rec)
  have "\<forall>(k, d) \<in> set kds. length k = 4 \<and> length d < 2 ^ 53"
    using assms by (auto simp: kds_def keys_ok_def set_zip)
  then obtain w where "ws_drain iter_read (\<lambda>_. [])
      \<lparr>ws_src = \<lparr>pending = concat (framed WebSocket key i ps) @ frame_bytes 8 None [], chunks = []\<rparr>, ws_sent = [], ws_draws = 0\<rparr> []
      = Some (Inr (filter (\<lambda>d. d \<noteq> []) (map snd kds), w))"
    using iter.client_frames[of "\<lparr>ws_src = \<lparr>pending = concat (framed WebSocket key i ps) @ frame_bytes 8 None [], chunks = []\<rparr>, ws_sent = [], ws_draws = 0\<rparr>"
        kds "[]" "[]" "\<lambda>_. []" "[]"]
    by (auto simp: iter_avail_def fr kds_def)
  moreover have "concat (filter (\<lambda>d. d \<noteq> []) ps) = concat ps" by (induction ps) simp_all
  ultimately show ?thesis using WebSocket kd by (simp add: taken_off_def)
qed

section \<open>What the node's server reads\<close>

text \<open>The parts the server gets out of the bytes of \<open>n\<close> chunks, if it has then read all of them.\<close>

definition node_parts :: "crypto \<Rightarrow> writer \<Rightarrow> nat \<Rightarrow> bytes \<Rightarrow> bytes list option" where
  "node_parts C w n bs =
     (let src = \<lparr>pending = bs, chunks = []\<rparr> in
      case w of
        Plain \<Rightarrow> Some [bs]
      | SsWriter s \<Rightarrow>
          (case dec_n (ss_read C iter_read) (s\<lparr>in_nonce := out_nonce s\<rparr>) src n of
             Inr (ps, s', src') \<Rightarrow> if iter_avail src' = [] then Some ps else None
           | Inl e \<Rightarrow> None)
      | VmessWriter v \<Rightarrow>
          (case dec_n (readChunk_data C iter_read) v src n of
             Inr (ps, v', src') \<Rightarrow> if iter_avail src' = [] then Some ps else None
           | Inl e \<Rightarrow> None))"

text \<open>The clean end of a VMess body: the data and nothing behind the empty chunk.\<close>

definition body_ends :: "crypto \<Rightarrow> vmess_body \<Rightarrow> bytes \<Rightarrow> bytes option" where
  "body_ends C v bs =
     (case vmess_drain C iter_read v \<lparr>pending = bs, chunks = []\<rparr> [] of
        Some (Inr (ps, v', src)) \<Rightarrow> if iter_avail src = [] then Some (concat ps) else None
      | _ \<Rightarrow> None)"

interpretation ss_iter: chunk_codec iter_read iter_avail "\<lambda>_. True" "ss_chunk C" "ss_read C iter_read" "ss_in_sync C"
    "\<lambda>p. length p + 16 < 65536" for C
  by unfold_locales (use iter.ss_read_chunk in blast)

lemma enc_all_append:
  "enc_all enc w ps = (fs, Inr w') \<Longrightarrow> enc_all enc w (ps @ qs) = (fs @ fst (enc_all enc w' qs), snd (enc_all enc w' qs))"
proof (induction ps arbitrary: w fs)
  case (Cons p ps)
  then show ?case by (auto split: sum.splits prod.splits)
qed (simp add: prod.split)

text \<open>What a fresh face has sent after the writes of \<open>ds\<close>.\<close>

definition sent_parts :: "crypto \<Rightarrow> writer \<Rightarrow> bytes list \<Rightarrow> bytes list \<Rightarrow> writer \<Rightarrow> bool" where
  "sent_parts C w ds ps w' \<longleftrightarrow>
     (case w of
        Plain \<Rightarrow> ps = ds \<and> w' = Plain
      | SsWriter s \<Rightarrow> (\<exists>s'. enc_all (ss_chunk C) s (concat (map slices ds)) = (ps, Inr s') \<and> w' = SsWriter s')
      | VmessWriter v \<Rightarrow> (\<exists>v'. enc_all (vmess_chunk C) v (concat (map slices ds)) = (ps, Inr v') \<and> w' = VmessWriter v'))"

definition face_inv :: "crypto \<Rightarrow> (nat \<Rightarrow> bytes) \<Rightarrow> face \<Rightarrow> bytes list \<Rightarrow> face \<Rightarrow> bool" where
  "face_inv C key f0 ds f \<longleftrightarrow> \<not> destroyed f \<and> over f = over f0
     \<and> (\<exists>ps. wire f = framed (over f0) key 0 ps \<and> sent_parts C (writer f0) ds ps (writer f))"

lemma length_framed [simp]: "length (framed c key i ps) = length ps"
  by (induction ps arbitrary: i) simp_all

lemma face_inv_write:
  assumes "face_inv C key f0 ds f" "face_write C key d f = (f', None)"
  shows "face_inv C key f0 (ds @ [d]) f'"
proof -
  obtain ps where f: "\<not> destroyed f" "over f = over f0" "wire f = framed (over f0) key 0 ps" "sent_parts C (writer f0) ds ps (writer f)"
    using assms(1) by (auto simp: face_inv_def)
  have put: "put_all key qs f = f\<lparr>wire := framed (over f0) key 0 (ps @ qs)\<rparr>" for qs
    using put_all_open[OF f(1), of key qs] f(2,3) by (simp add: framed_append)
  show ?thesis
  proof (cases "writer f0")
    case Plain
    then have "f' = put_all key [d] f" "writer f = Plain" using assms(2) f(4) by (simp_all add: face_write_def sent_parts_def put_all_def)
    then show ?thesis using f Plain put[of "[d]"] by (auto simp: face_inv_def sent_parts_def)
  next
    case (SsWriter s)
    then obtain s1 where s1: "enc_all (ss_chunk C) s (concat (map slices ds)) = (ps, Inr s1)" "writer f = SsWriter s1"
      using f(4) by (auto simp: sent_parts_def)
    obtain fs s2 where s2: "enc_all (ss_chunk C) s1 (slices d) = (fs, Inr s2)"
      using ss_write_total[of C s1 d] by (auto simp: ss_write_def)
    then have "f' = (put_all key fs f)\<lparr>writer := SsWriter s2\<rparr>" using assms(2) s1 by (simp add: face_write_def ss_write_def)
    then show ?thesis
      using f SsWriter put[of fs] enc_all_append[OF s1(1), of "slices d"] s2 by (auto simp: face_inv_def sent_parts_def)
  next
    case (VmessWriter v)
    then obtain v1 where v1: "enc_all (vmess_chunk C) v (concat (map slices ds)) = (ps, Inr v1)" "writer f = VmessWriter v1"
      using f(4) by (auto simp: sent_parts_def)
    obtain fs v2 where v2: "enc_all (vmess_chunk C) v1 (slices d) = (fs, Inr v2)" "f' = (put_all key fs f)\<lparr>writer := VmessWriter v2\<rparr>"
      using assms(2) v1(2) by (auto simp: face_write_def vmess_write_slices split: prod.splits sum.splits)
    then show ?thesis
      using f VmessWriter put[of fs] enc_all_append[OF v1(1), of "slices d"] by (auto simp: face_inv_def sent_parts_def)
  qed
qed

lemma face_inv_run:
  "face_inv C key f0 ds f \<Longrightarrow> face_run C key (map Writes es) f = (f', None) \<Longrightarrow> face_inv C key f0 (ds @ es) f'"
proof (induction es arbitrary: ds f)
  case (Cons e es)
  then obtain f1 where f1: "face_write C key e f = (f1, None)" "face_run C key (map Writes es) f1 = (f', None)"
    by (auto split: prod.splits option.splits)
  show ?case using Cons.IH[OF face_inv_write[OF Cons.prems(1) f1(1)] f1(2)] by simp
qed simp

lemma concat_map_slices [simp]: "concat (concat (map slices ds)) = concat ds"
  by (induction ds) simp_all

lemma sent_parts_read:
  assumes "aead_correct C" "sent_parts C w ds ps w'"
  shows "\<exists>n qs. node_parts C w n (concat ps) = Some qs \<and> concat qs = concat ds"
proof (cases w)
  case Plain
  then show ?thesis using assms(2) by (auto simp: sent_parts_def node_parts_def)
next
  case (SsWriter s)
  then obtain s' where e: "enc_all (ss_chunk C) s (concat (map slices ds)) = (ps, Inr s')" using assms(2) by (auto simp: sent_parts_def)
  have "\<forall>p \<in> set (concat (map slices ds)). length p + 16 < 65536" using slices_fit by fastforce
  moreover have "ss_in_sync C s (s\<lparr>in_nonce := out_nonce s\<rparr>)" using assms(1) by (simp add: ss_in_sync_def)
  ultimately obtain r src where "dec_n (ss_read C iter_read) (s\<lparr>in_nonce := out_nonce s\<rparr>) \<lparr>pending = concat ps, chunks = []\<rparr>
      (length (concat (map slices ds))) = Inr (concat (map slices ds), r, src)" "iter_avail src = []"
    using ss_iter.dec_n_enc_all[OF _ _ e, of "s\<lparr>in_nonce := out_nonce s\<rparr>" "\<lparr>pending = concat ps, chunks = []\<rparr>" "[]"]
    by (auto simp: iter_avail_def)
  then have "node_parts C w (length (concat (map slices ds))) (concat ps) = Some (concat (map slices ds))"
    using SsWriter by (simp add: node_parts_def)
  then show ?thesis by fastforce
next
  case (VmessWriter v)
  then obtain v' where e: "enc_all (vmess_chunk C) v (concat (map slices ds)) = (ps, Inr v')" using assms(2) by (auto simp: sent_parts_def)
  have "vmess_in_sync C v v" using assms(1) by (simp add: vmess_in_sync_def)
  then obtain r src where "dec_n (readChunk_data C iter_read) v \<lparr>pending = concat ps, chunks = []\<rparr>
      (length (concat (map slices ds))) = Inr (concat (map slices ds), r, src)" "iter_avail src = []"
    using vmess_ws.dec_n_enc_all[OF _ _ e, of v "\<lparr>pending = concat ps, chunks = []\<rparr>" "[]"] by (auto simp: iter_avail_def)
  then have "node_parts C w (length (concat (map slices ds))) (concat ps) = Some (concat (map slices ds))"
    using VmessWriter by (simp add: node_parts_def)
  then show ?thesis by fastforce
qed

lemma enc_all_frames:
  "enc_all enc w ps = (fs, r) \<Longrightarrow> f \<in> set fs \<Longrightarrow> \<exists>w p w'. p \<in> set ps \<and> enc w p = Inr (f, w')"
proof (induction ps arbitrary: w fs)
  case (Cons p ps)
  then show ?case by (fastforce split: sum.splits prod.splits)
qed simp

lemma chunk_lengths:
  "aead_correct C \<Longrightarrow> ss_chunk C s p = Inr (f, s') \<Longrightarrow> length f = length p + 18"
  "aead_correct C \<Longrightarrow> vmess_chunk C v p = Inr (f, v') \<Longrightarrow> length f = length p + 18"
  by (auto simp: ss_chunk_def Let_def ssSeal_length length_be16 vmess_chunk_def bind_res_Inr_iff gcmSeal_length u16_bytes_def
      split: prod.splits if_splits)

lemma sent_parts_short:
  assumes "aead_correct C" "sent_parts C w ds ps w'" "\<forall>d \<in> set ds. length d < 2 ^ 53"
  shows "\<forall>p \<in> set ps. length p < 2 ^ 53"
proof
  fix f assume f: "f \<in> set ps"
  have small: "length p < 2 ^ 53 - 18" if "p \<in> set (concat (map slices ds))" for p
  proof -
    have "length p \<le> 0x3fff" using that slices_bounds by auto
    then show ?thesis by simp
  qed
  show "length f < 2 ^ 53"
  proof (cases w)
    case Plain
    then show ?thesis using assms(2,3) f by (simp add: sent_parts_def)
  next
    case (SsWriter s)
    then obtain s1 p s2 where "p \<in> set (concat (map slices ds))" "ss_chunk C s1 p = Inr (f, s2)"
      using assms(2) enc_all_frames[OF _ f] by (fastforce simp: sent_parts_def)
    then show ?thesis using small chunk_lengths(1)[OF assms(1)] by fastforce
  next
    case (VmessWriter v)
    then obtain s1 p s2 where "p \<in> set (concat (map slices ds))" "vmess_chunk C s1 p = Inr (f, s2)"
      using assms(2) enc_all_frames[OF _ f] by (fastforce simp: sent_parts_def)
    then show ?thesis using small chunk_lengths(2)[OF assms(1)] by fastforce
  qed
qed

lemma face_inv_new: "wire f0 = [] \<Longrightarrow> \<not> destroyed f0 \<Longrightarrow> face_inv C key f0 [] f0"
  unfolding face_inv_def by (simp add: sent_parts_def exI[where x = "[]"] split: writer.split)

text \<open>What the relay writes to a face reaches the node: whatever the kind of the node and the carrier, its server takes the
  client's bytes, all of them and in order, off the wire.\<close>

theorem relayed_data_reaches_the_node:
  assumes "aead_correct C" "keys_ok key" "wire f0 = []" "\<not> destroyed f0" "\<forall>d \<in> set ds. length d < 2 ^ 53"
    "face_run C key (map Writes ds) f0 = (f, None)"
  shows "\<exists>payload n ps. taken_off (over f0) (concat (wire f)) = Some payload
    \<and> node_parts C (writer f0) n payload = Some ps \<and> concat ps = concat ds"
proof -
  have "face_inv C key f0 ds f" using face_inv_run[OF face_inv_new[OF assms(3,4)] assms(6)] by simp
  then obtain ps where ps: "wire f = framed (over f0) key 0 ps" "sent_parts C (writer f0) ds ps (writer f)" by (auto simp: face_inv_def)
  have "taken_off (over f0) (concat (wire f)) = Some (concat ps)"
    unfolding ps(1) by (rule taken_off_framed[OF assms(2) sent_parts_short[OF assms(1) ps(2) assms(5)]])
  then show ?thesis using sent_parts_read[OF assms(1) ps(2)] by blast
qed

lemma closed_rests: "destroyed f \<Longrightarrow> face_run C key (replicate k Closes) f = (f, None)"
proof (induction k)
  case (Suc k)
  then have "face_close key f = f" by (simp add: face_close_def split: writer.split)
  then show ?case using Suc by simp
qed simp

lemma face_run_append:
  "face_run C key cs f = (f', None) \<Longrightarrow> face_run C key (cs @ cs') f = face_run C key cs' f'"
proof (induction cs arbitrary: f)
  case (Cons c cs)
  then show ?case by (cases c) (auto split: prod.splits option.splits)
qed simp

text \<open>Closing a VMess face ends its body once, however often the relay closes it: behind the data the node's server finds
  exactly the empty chunk.\<close>

theorem closing_ends_the_body_once:
  assumes "aead_correct C" "keys_ok key" "wire f0 = []" "\<not> destroyed f0" "\<forall>d \<in> set ds. length d < 2 ^ 53"
    "writer f0 = VmessWriter v" "face_run C key (map Writes ds) f0 = (f, None)"
  shows "\<exists>g payload. face_run C key (map Writes ds @ replicate (Suc k) Closes) f0 = (g, None) \<and> destroyed g
    \<and> taken_off (over f0) (concat (wire g)) = Some payload \<and> body_ends C v payload = Some (concat ds)"
proof -
  have "face_inv C key f0 ds f" using face_inv_run[OF face_inv_new[OF assms(3,4)] assms(7)] by simp
  then obtain ps where ps: "\<not> destroyed f" "over f = over f0" "wire f = framed (over f0) key 0 ps" "sent_parts C (writer f0) ds ps (writer f)"
    by (auto simp: face_inv_def)
  then obtain v' where e: "enc_all (vmess_chunk C) v (concat (map slices ds)) = (ps, Inr v')" and w: "writer f = VmessWriter v'"
    using assms(6) by (auto simp: sent_parts_def)
  define g where "g = face_close key f"
  have g: "destroyed g" "wire g = framed (over f0) key 0 (ps @ [vmess_end])"
    using ps(1-3) w by (simp_all add: g_def face_close_def put_def framed_append)
  have run: "face_run C key (map Writes ds @ replicate (Suc k) Closes) f0 = (g, None)"
    using face_run_append[OF assms(7)] closed_rests[OF g(1)] by (simp add: g_def)
  have short: "\<forall>p \<in> set (ps @ [vmess_end]). length p < 2 ^ 53"
    using sent_parts_short[OF assms(1) ps(4) assms(5)] by (simp add: vmess_end_def)
  have t: "taken_off (over f0) (concat (wire g)) = Some (concat ps @ vmess_end)"
    using taken_off_framed[OF assms(2) short, of "over f0" 0] g(2) by simp
  have "vmess_in_sync C v v" using assms(1) by (simp add: vmess_in_sync_def)
  then obtain r src where r: "dec_n (readChunk_data C iter_read) v \<lparr>pending = concat ps @ vmess_end, chunks = []\<rparr>
      (length (concat (map slices ds))) = Inr (concat (map slices ds), r, src)" "iter_avail src = vmess_end"
    using vmess_ws.dec_n_enc_all[OF _ _ e, of v "\<lparr>pending = concat ps @ vmess_end, chunks = []\<rparr>" vmess_end] by (auto simp: iter_avail_def)
  have "\<exists>s'. vmess_drain C iter_read r src (concat (map slices ds)) = Some (Inr (concat (map slices ds), r, s')) \<and> iter_avail s' = []"
    using iter.vmess_drain_end[of src "[]" C r "concat (map slices ds)"] r(2) by simp
  then have "body_ends C v (concat ps @ vmess_end) = Some (concat ds)"
    using iter.vmess_drain_dec_n[OF r(1), of "[]"] by (auto simp: body_ends_def)
  then show ?thesis using run g(1) t by blast
qed


section \<open>Examples\<close>

definition example_face :: "nat \<Rightarrow> face" where
  "example_face n = \<lparr>over = WebSocket, writer = VmessWriter \<lparr>body_key = [1], body_iv = replicate 16 2, chunk_count = n\<rparr>, wire = [], destroyed = False\<rparr>"

lemma example_writes: "\<exists>f. face_run sum_crypto (\<lambda>_. [1, 2, 3, 4]) (map Writes [[7, 8], [9]]) (example_face 0) = (f, None)"
  by (simp add: example_face_def face_write_def vmess_write_slices slices_small vmess_chunk_eq[OF sum_crypto_correct(1)]
      put_all_def put_def split: prod.split)

theorem relayed_data_reaches_the_node_witness:
  "\<exists>(f :: face) payload n ps. taken_off (over (example_face 0)) (concat (wire f)) = Some payload
    \<and> node_parts sum_crypto (writer (example_face 0)) n payload = Some ps \<and> concat ps = concat [[7, 8], [9]]"
proof -
  obtain f where f: "face_run sum_crypto (\<lambda>_. [1, 2, 3, 4]) (map Writes [[7, 8], [9]]) (example_face 0) = (f, None)"
    using example_writes by blast
  have "\<exists>payload n ps. taken_off (over (example_face 0)) (concat (wire f)) = Some payload
      \<and> node_parts sum_crypto (writer (example_face 0)) n payload = Some ps \<and> concat ps = concat [[7, 8], [9]]"
    by (rule relayed_data_reaches_the_node[OF sum_crypto_correct(1) _ _ _ _ f]) (simp_all add: keys_ok_def example_face_def)
  then show ?thesis by blast
qed

theorem closing_ends_the_body_once_witness:
  "\<exists>g payload. face_run sum_crypto (\<lambda>_. [1, 2, 3, 4]) (map Writes [[7, 8], [9]] @ replicate (Suc 1) Closes) (example_face 0) = (g, None)
    \<and> destroyed g \<and> taken_off (over (example_face 0)) (concat (wire g)) = Some payload
    \<and> body_ends sum_crypto \<lparr>body_key = [1], body_iv = replicate 16 2, chunk_count = 0\<rparr> payload = Some (concat [[7, 8], [9]])"
proof -
  obtain f where f: "face_run sum_crypto (\<lambda>_. [1, 2, 3, 4]) (map Writes [[7, 8], [9]]) (example_face 0) = (f, None)"
    using example_writes by blast
  show ?thesis
    by (rule closing_ends_the_body_once[OF sum_crypto_correct(1) _ _ _ _ _ f]) (simp_all add: keys_ok_def example_face_def)
qed


end
