(* ===== verification/Replies.thy ===== *)
theory Replies
  imports Dialing ProxyServer
begin

text \<open>
  \<open>lib/core/transports.js\<close> and \<open>proxy-server.js\<close>: the way back. The \<open>read\<close> of the faces over a socket or a WebSocket,
  composed of the readers of each transport, what the node's server sends for an answer, and the pump to the client.
\<close>

section \<open>What a face yields\<close>

text \<open>The \<open>read\<close> of a face, by its kind.\<close>

datatype reader = RawReader | WsReader | SsReader ss_session | VlessReader carrier | VmessReader carrier vmess_session

fun reads_over :: "reader \<Rightarrow> carrier" where
  "reads_over WsReader = WebSocket"
| "reads_over (VlessReader k) = k"
| "reads_over (VmessReader k v) = k"
| "reads_over _ = Raw"

text \<open>The chunks a carrier yields of what has arrived; \<open>rnd\<close> are the masks of pongs.\<close>

definition carried :: "carrier \<Rightarrow> (nat \<Rightarrow> bytes) \<Rightarrow> conn \<Rightarrow> bytes list option" where
  "carried k rnd c =
     (case k of
        Raw \<Rightarrow> Some (raw_chunks (length (face_chunks c)) c)
      | WebSocket \<Rightarrow>
          (case ws_drain conn_read rnd \<lparr>ws_src = c, ws_sent = [], ws_draws = 0\<rparr> [] of
             Some (Inr (ps, w)) \<Rightarrow> Some ps
           | _ \<Rightarrow> None))"

text \<open>The chunks a face yields; a Shadowsocks face for \<open>n\<close> pulls.\<close>

definition yields :: "crypto \<Rightarrow> (nat \<Rightarrow> bytes) \<Rightarrow> reader \<Rightarrow> nat \<Rightarrow> conn \<Rightarrow> bytes list option" where
  "yields C rnd r n c =
     (case r of
        SsReader s \<Rightarrow> (case dec_n (ss_read C conn_read) s c n of Inr (ps, s', c') \<Rightarrow> Some ps | Inl e \<Rightarrow> None)
      | VlessReader k \<Rightarrow>
          (case carried k rnd c of
             Some cs \<Rightarrow> (case vless_read \<lparr>pending = [], chunks = cs\<rparr> of Inr ps \<Rightarrow> Some ps | Inl e \<Rightarrow> None)
           | None \<Rightarrow> None)
      | VmessReader k v \<Rightarrow>
          (case k of
             Raw \<Rightarrow> (case vmess_read C conn_read v c of Some (Inr (ps, r', c')) \<Rightarrow> Some ps | _ \<Rightarrow> None)
           | WebSocket \<Rightarrow>
               (case carried WebSocket rnd c of
                  Some cs \<Rightarrow>
                    (case vmess_read C iter_read v \<lparr>pending = [], chunks = cs\<rparr> of Some (Inr (ps, r', s')) \<Rightarrow> Some ps | _ \<Rightarrow> None)
                | None \<Rightarrow> None))
      | _ \<Rightarrow> carried (reads_over r) rnd c)"

section \<open>What a server sends\<close>

text \<open>What the server of a node sends to answer with the data \<open>d\<close>, without its carrier.\<close>

definition answer_stream :: "crypto \<Rightarrow> reader \<Rightarrow> bytes \<Rightarrow> bytes \<Rightarrow> bool" where
  "answer_stream C r d bs \<longleftrightarrow>
     (case r of
        SsReader s \<Rightarrow> (\<exists>w. ss_in_sync C w s \<and> bs = concat (fst (ss_write C w d)))
      | VlessReader k \<Rightarrow> (\<exists>n addons. length addons = unat n \<and> bs = [0, n] @ addons @ d)
      | VmessReader k v \<Rightarrow>
          length (slices d) \<le> 65536
          \<and> (\<exists>extra. length extra < 65535
                \<and> bs = encodeVmessResponse C (req_key v) (req_iv v) (echo v # extra)
                  @ concat (fst (vmess_write C \<lparr>body_key = take 16 (sha256 C (req_key v)), body_iv = take 16 (sha256 C (req_iv v)),
                                                 chunk_count = 0\<rparr> d))
                  @ vmess_end)
      | _ \<Rightarrow> bs = d)"

text \<open>And over the carrier: as it is, or in the frames of a WebSocket, between pings and pongs, up to a close frame.\<close>

definition answer_bytes :: "crypto \<Rightarrow> reader \<Rightarrow> bytes \<Rightarrow> bytes \<Rightarrow> bool" where
  "answer_bytes C r d bs \<longleftrightarrow>
     (if reads_over r = Raw then answer_stream C r d bs
      else \<exists>fs reason. list_all server_frame_ok fs \<and> length reason < 126
             \<and> bs = concat (map server_bytes fs) @ frame_bytes 8 None reason \<and> answer_stream C r d (concat (stream_data fs)))"

lemma raw_all: "conn_ok c \<Longrightarrow> raw_chunks n c = take n (face_chunks c)"
proof (induction n arbitrary: c)
  case (Suc n)
  then show ?case
    using conn_readAny_chunks[OF Suc.prems] by (cases "face_chunks c") (auto split: list.splits)
qed simp

lemma concat_face_chunks: "concat (face_chunks c) = conn_avail c"
proof -
  have "concat (filter (\<lambda>x. x \<noteq> []) xs) = concat xs" for xs :: "bytes list" by (induction xs) auto
  then show ?thesis by (simp add: face_chunks_def conn_avail_def)
qed

lemma carried_raw: "conn_ok c \<Longrightarrow> \<exists>cs. carried Raw rnd c = Some cs \<and> concat cs = conn_avail c"
  by (simp add: carried_def raw_all concat_face_chunks)

lemma carried_ws:
  assumes "conn_ok c" "list_all server_frame_ok fs" "length reason < 126"
    "conn_avail c = concat (map server_bytes fs) @ frame_bytes 8 None reason"
  shows "carried WebSocket rnd c = Some (stream_data fs)"
  using conn.ws_drain_stream[of "\<lparr>ws_src = c, ws_sent = [], ws_draws = 0\<rparr>" fs reason "[]" rnd "[]"] assms
  by (auto simp: carried_def)

text \<open>A carrier yields what it carries.\<close>

lemma carried_answer:
  assumes "conn_ok c" "answer_bytes C r d (conn_avail c)"
  shows "\<exists>cs. carried (reads_over r) rnd c = Some cs \<and> answer_stream C r d (concat cs)"
proof (cases "reads_over r")
  case Raw
  then show ?thesis using carried_raw[OF assms(1), of rnd] assms(2) by (auto simp: answer_bytes_def)
next
  case WebSocket
  then obtain fs reason where f: "list_all server_frame_ok fs" "length reason < 126"
    "conn_avail c = concat (map server_bytes fs) @ frame_bytes 8 None reason" "answer_stream C r d (concat (stream_data fs))"
    using assms(2) by (auto simp: answer_bytes_def)
  show ?thesis using carried_ws[OF assms(1) f(1-3)] f(4) WebSocket by auto
qed

text \<open>Every byte source carries the VMess body.\<close>

sublocale byte_source \<subseteq> vmess_body: chunk_codec rd avail ok "vmess_chunk C" "readChunk_data C rd" "vmess_in_sync C" "\<lambda>_. True" for C
  by unfold_locales (use readChunk_data_chunk in blast)

context byte_source begin

lemma vmess_answer_read:
  assumes "aead_correct C" "ok s" "answer_stream C (VmessReader k v) d (avail s)"
  shows "\<exists>r s'. vmess_read C rd v s = Some (Inr (slices d, r, s'))"
proof -
  let ?w = "\<lparr>body_key = take 16 (sha256 C (req_key v)), body_iv = take 16 (sha256 C (req_iv v)), chunk_count = 0\<rparr>"
  obtain extra where x: "length extra < 65535" "length (slices d) \<le> 65536"
    "avail s = encodeVmessResponse C (req_key v) (req_iv v) (echo v # extra) @ concat (fst (vmess_write C ?w d)) @ vmess_end"
    using assms(3) by (auto simp: answer_stream_def)
  obtain s1 where s1: "decodeVmessResponse C rd (req_key v) (req_iv v) s
      = Inr ((echo v # extra, take 16 (sha256 C (req_key v)), take 16 (sha256 C (req_iv v))), s1)"
      "avail s1 = concat (fst (vmess_write C ?w d)) @ vmess_end" "ok s1"
    using decode_response[OF assms(1) _ assms(2) x(3)] x(1) by auto
  obtain fs w' where w: "enc_all (vmess_chunk C) ?w (slices d) = (fs, Inr w')"
    using vmess_enc_all[OF assms(1) vmess_slices_fit, of ?w d] x(2) by auto
  have "vmess_in_sync C ?w ?w" using assms(1) by (simp add: vmess_in_sync_def)
  then obtain r s2 where r: "dec_n (readChunk_data C rd) ?w s1 (length (slices d)) = Inr (slices d, r, s2)" "avail s2 = vmess_end" "ok s2"
    using vmess_body.dec_n_enc_all[OF _ _ w s1(3), of ?w vmess_end] s1(2) w by (auto simp: vmess_write_slices)
  obtain s3 where "vmess_drain C rd r s2 (slices d) = Some (Inr (slices d, r, s3))"
    using vmess_drain_end[OF r(3), of "[]" C r "slices d"] r(2) by auto
  then have "vmess_drain C rd ?w s1 [] = Some (Inr (slices d, r, s3))" using vmess_drain_dec_n[OF r(1), of "[]"] by simp
  then show ?thesis using s1(1) by (auto simp: vmess_read_def)
qed

end

text \<open>Whatever its kind, a face yields the data its server answers with.\<close>

lemma face_yields_the_answer:
  assumes "aead_correct C" "conn_ok c" "answer_bytes C r d (conn_avail c)"
  shows "\<exists>n ps. yields C rnd r n c = Some ps \<and> concat ps = d"
proof -
  obtain cs where cs: "carried (reads_over r) rnd c = Some cs" "answer_stream C r d (concat cs)"
    using carried_answer[OF assms(2,3)] by blast
  show ?thesis
  proof (cases r)
    case RawReader
    then show ?thesis using cs by (simp add: yields_def answer_stream_def)
  next
    case WsReader
    then show ?thesis using cs by (simp add: yields_def answer_stream_def)
  next
    case (SsReader s)
    then obtain w where w: "ss_in_sync C w s" "conn_avail c = concat (fst (ss_write C w d))"
      using assms(3) by (auto simp: answer_bytes_def answer_stream_def)
    obtain fs w' where f: "ss_write C w d = (fs, Inr w')" using ss_write_total by blast
    obtain s' c' where "dec_n (ss_read C conn_read) s c (length (slices d)) = Inr (slices d, s', c')"
      using ss.dec_n_enc_all[OF w(1) slices_fit f[unfolded ss_write_def] assms(2), of "[]"] w(2) f by auto
    then have "yields C rnd r (length (slices d)) c = Some (slices d)" using SsReader by (simp add: yields_def)
    then show ?thesis using concat_slices by blast
  next
    case (VlessReader k)
    then obtain n addons where "concat cs = [0, n] @ addons @ d" "length addons = unat n" using cs(2) by (auto simp: answer_stream_def)
    then obtain s where "vless_stripHeader \<lparr>pending = [], chunks = cs\<rparr> = Inr s" "iter_avail s = d"
      using vless_strip_ok[of "\<lparr>pending = [], chunks = cs\<rparr>" n addons d] by (auto simp: iter_avail_def)
    then show ?thesis using VlessReader cs(1) by (simp add: yields_def vless_read_def concat_iter_drain)
  next
    case (VmessReader k v)
    show ?thesis
    proof (cases k)
      case Raw
      then have "answer_stream C (VmessReader k v) d (conn_avail c)" using assms(3) VmessReader by (simp add: answer_bytes_def)
      from conn.vmess_answer_read[OF assms(1,2) this] show ?thesis using Raw VmessReader by (auto simp: yields_def)
    next
      case WebSocket
      have "answer_stream C (VmessReader k v) d (iter_avail \<lparr>pending = [], chunks = cs\<rparr>)" using cs(2) VmessReader by (simp add: iter_avail_def)
      from iter.vmess_answer_read[OF assms(1) _ this] show ?thesis using WebSocket VmessReader cs(1) by (auto simp: yields_def)
    qed
  qed
qed

lemma pump_writes:
  "set ks \<subseteq> {Accepts, FullThenDrains} \<Longrightarrow> length ks = length ps \<Longrightarrow>
   written (pumpInto (zip ps ks) e False) = ps \<and> counted (pumpInto (zip ps ks) e False) = length (concat ps)"
proof (induction ps arbitrary: ks)
  case Nil
  then show ?case by (cases e) simp_all
next
  case (Cons p ps)
  then obtain k ks' where "ks = k # ks'" by (cases ks) auto
  then show ?case using Cons by (auto simp: Let_def)
qed


section \<open>Examples\<close>

definition example_answer :: conn where
  "example_answer = \<lparr>sb = new_sockbuf, arriving = [server_bytes (Payload 2 [0, 0, 7]), server_bytes (Ping [1]), server_bytes (Payload 2 [8]),
     frame_bytes 8 None []]\<rparr>"


end
