(* ===== verification/Plugin.thy ===== *)
theory Plugin
  imports ManagerApi
begin

text \<open>
  \<open>lib/index.js\<close>: the plugin around the manager. Activation queues a start, a change of the settings section
  goes through \<open>reconcile\<close>, disposal queues a stop, and the web route hands requests to \<open>handleHttp\<close>. The
  settings service, the web server and the fiber that calls back are the environment: their calls are steps.
\<close>

section \<open>State and calls\<close>

record plugin =
  p_queue :: op_queue
  p_current :: config

text \<open>A call of \<open>start()\<close>, \<open>stop()\<close> or \<open>restart()\<close> puts its operation into the queue.\<close>

definition enqueue :: "operation \<Rightarrow> op_queue \<Rightarrow> op_queue" where
  "enqueue op q = q\<lparr>waiting := waiting q @ [(next_task q, op)], next_task := Suc (next_task q)\<rparr>"

text \<open>\<open>apply\<close>: a manager for the normalized configuration, and its start.\<close>

definition activate :: "config \<Rightarrow> host_world \<Rightarrow> plugin" where
  "activate initial w = \<lparr>p_queue = enqueue Start (new_queue (new_manager w)), p_current = initial\<rparr>"

text \<open>\<open>setSource\<close> and \<open>onChange\<close>.\<close>

definition on_change :: "config \<Rightarrow> plugin \<Rightarrow> plugin" where
  "on_change cfg p =
     (let q = p_queue p; (m', op) = reconcile cfg (q_mgr q); q' = q\<lparr>q_mgr := m'\<rparr>
      in p\<lparr>p_current := cfg, p_queue := (case op of None \<Rightarrow> q' | Some x \<Rightarrow> enqueue x q')\<rparr>)"

definition on_dispose :: "plugin \<Rightarrow> plugin" where
  "on_dispose p = p\<lparr>p_queue := enqueue Stop (p_queue p)\<rparr>"

text \<open>
  \<open>registerWebApi\<close>'s handler: \<open>parse_path\<close> is the path of \<open>new URL(req.url, ...)\<close>, whose exception is the only one
  \<open>handleHttp\<close> does not catch itself.
\<close>

definition web_handler ::
  "(string \<Rightarrow> error + string) \<Rightarrow> api_env \<Rightarrow> string option \<Rightarrow> api_request \<Rightarrow> manager \<Rightarrow> manager \<times> reply" where
  "web_handler parse_path E req_url r m =
     (case parse_path (case req_url of Some u \<Rightarrow> u | None \<Rightarrow> ''/'') of
        Inl e \<Rightarrow> (m, Some (500, json_error (error_message e)))
      | Inr path \<Rightarrow> handle_api E (r\<lparr>rq_path := path\<rparr>) m)"

text \<open>What can happen to an active plugin: the three calls, a step of the queue, an event outside the queue.\<close>

inductive plugin_step :: "parsers \<Rightarrow> plugin \<Rightarrow> plugin \<Rightarrow> bool" for P :: parsers where
  setting: "plugin_step P p (on_change cfg p)"
| dispose: "plugin_step P p (on_dispose p)"
| queue: "q_step P (p_queue p) q' \<Longrightarrow> plugin_step P p (p\<lparr>p_queue := q'\<rparr>)"
| request: "plugin_step P p (p\<lparr>p_queue := (p_queue p)\<lparr>q_mgr := snd (testLatency ping n (q_mgr (p_queue p)))\<rparr>\<rparr>)"
| select: "plugin_step P p (p\<lparr>p_queue := (p_queue p)\<lparr>q_mgr := fst (selectNode b n (q_mgr (p_queue p)))\<rparr>\<rparr>)"

section \<open>The manager under the plugin\<close>

definition managed :: "host_world \<Rightarrow> plugin \<Rightarrow> bool" where
  "managed w p \<longleftrightarrow> mgr_inv w (q_mgr (p_queue p))"

lemma run_op_inv: "mgr_inv w m \<Longrightarrow> mgr_inv w (run_op P b cfg op m)"
  using inv_step[of w m P "EStart b cfg"] inv_step[of w m P EStop] inv_step[of w m P "ERestart b cfg"]
    inv_step[of w m P "EUpdate b cfg"]
  by (cases op) simp_all

lemma q_step_inv: "q_step P q q' \<Longrightarrow> mgr_inv w (q_mgr q) \<Longrightarrow> mgr_inv w (q_mgr q')"
  by (induction rule: q_step.induct) (auto intro: run_op_inv inv_traffic(3))

lemma managed_step: "plugin_step P p p' \<Longrightarrow> managed w p \<Longrightarrow> managed w p'"
proof (induction rule: plugin_step.induct)
  case (setting p cfg)
  then have "mgr_inv w (fst (reconcile cfg (q_mgr (p_queue p))))"
    using inv_step[of w "q_mgr (p_queue p)" P "EReconcile cfg"] by (simp add: managed_def)
  then show ?case
    by (auto simp: managed_def on_change_def enqueue_def Let_def split: prod.splits option.splits)
next
  case (request p ping n)
  then show ?case using inv_step[of w "q_mgr (p_queue p)" P "ETest n ping"] by (simp add: managed_def)
next
  case (select p b n)
  then show ?case using inv_step[of w "q_mgr (p_queue p)" P "ESelect b n"] by (simp add: managed_def)
qed (auto simp: managed_def on_dispose_def enqueue_def intro: q_step_inv)

lemma managed_reach: "(plugin_step P)\<^sup>*\<^sup>* (activate cfg w) p \<Longrightarrow> managed w p"
  by (induction rule: rtranclp_induct)
     (auto simp: managed_def activate_def enqueue_def new_queue_def intro: inv_new managed_step[unfolded managed_def])

section \<open>Properties\<close>

text \<open>C35. Whatever the settings service, the page and the queue did before, once the stop that disposal queues has
  run the process is the one the plugin found: its proxy variables, its fetch function and dispatcher, no timer.\<close>

theorem disposal_restores_process:
  assumes "(plugin_step P)\<^sup>*\<^sup>* (activate cfg w) p" "waiting (p_queue p) = (i, Stop) # rest" "awaiting (p_queue p) = None"
  shows "\<exists>p'. plugin_step P p p' \<and> waiting (p_queue p') = rest
     \<and> (let m = q_mgr (p_queue p') in env_part (process m) = env_part w \<and> fetch_part (process m) = fetch_part w \<and> timers m = [])"
proof -
  let ?q = "p_queue p"
  let ?q' = "?q\<lparr>waiting := rest, settled := settled ?q @ [i], q_mgr := op_stop (q_mgr ?q)\<rparr>"
  have "q_step P ?q ?q'"
    using q_step.complete[OF assms(3,2), where P = P] by simp
  then have step: "plugin_step P p (p\<lparr>p_queue := ?q'\<rparr>)" by (rule plugin_step.queue)
  have "mgr_inv w (q_mgr ?q)" using managed_reach[OF assms(1)] by (simp add: managed_def)
  then have "let m = op_stop (q_mgr ?q) in env_part (process m) = env_part w \<and> fetch_part (process m) = fetch_part w \<and> timers m = []"
    using inv_op_stop[of w "q_mgr ?q"] by (auto simp: Let_def mgr_inv_def restorable_def)
  then show ?thesis using step by (intro exI[of _ "p\<lparr>p_queue := ?q'\<rparr>"]) simp
qed

text \<open>Settings are applied once: a change to a configuration already applied does nothing but record it, any other
  one, the first included, queues exactly one operation, a restart if enabled and else a stop.\<close>

theorem settings_are_applied_once:
  "on_change cfg (on_change cfg p) = on_change cfg p \<and>
   (applied (q_mgr (p_queue p)) \<noteq> Some cfg \<longrightarrow>
    waiting (p_queue (on_change cfg p)) = waiting (p_queue p) @ [(next_task (p_queue p), if enabled cfg then Restart else Stop)])"
  by (auto simp: on_change_def reconcile_def enqueue_def Let_def)

section \<open>Witnesses\<close>

text \<open>A plugin that was started while disabled and is then disposed of.\<close>

definition off_config :: config where
  "off_config = default_config\<lparr>enabled := False\<rparr>"

definition started_off :: plugin where
  "started_off =
     (let p = activate off_config sample_world; q = p_queue p
      in p\<lparr>p_queue := q\<lparr>waiting := [], settled := settled q @ [0],
             q_mgr := run_op sample_parsers (sample_boot ''x'') off_config Start (q_mgr q)\<rparr>\<rparr>)"

lemma started_off_reachable:
  "(plugin_step sample_parsers)\<^sup>*\<^sup>* (activate off_config sample_world) (on_dispose started_off)"
proof -
  have "plugin_step sample_parsers (activate off_config sample_world) started_off"
    unfolding started_off_def Let_def
    by (rule plugin_step.queue, rule q_step.complete) (simp_all add: activate_def enqueue_def new_queue_def)
  moreover have "plugin_step sample_parsers started_off (on_dispose started_off)" by (rule plugin_step.dispose)
  ultimately show ?thesis by (rule converse_rtranclp_into_rtranclp[OF _ r_into_rtranclp])
qed

lemma started_off_queue:
  "waiting (p_queue started_off) = []" "awaiting (p_queue started_off) = None" "next_task (p_queue started_off) = 1"
  by (simp_all add: started_off_def Let_def activate_def enqueue_def new_queue_def del: run_op.simps)

theorem disposal_restores_process_witness:
  "\<exists>p'. plugin_step sample_parsers (on_dispose started_off) p' \<and> waiting (p_queue p') = []
     \<and> (let m = q_mgr (p_queue p') in env_part (process m) = env_part sample_world
          \<and> fetch_part (process m) = fetch_part sample_world \<and> timers m = [])"
  by (rule disposal_restores_process[OF started_off_reachable, where i = 1])
     (simp_all add: on_dispose_def enqueue_def started_off_queue)

theorem settings_are_applied_once_witness:
  "waiting (p_queue (on_change off_config (activate off_config sample_world)))
     = waiting (p_queue (activate off_config sample_world)) @ [(1, if enabled off_config then Restart else Stop)]"
proof -
  have n: "next_task (p_queue (activate off_config sample_world)) = 1"
    "applied (q_mgr (p_queue (activate off_config sample_world))) \<noteq> Some off_config"
    by (simp_all add: activate_def enqueue_def new_queue_def new_manager_def)
  show ?thesis
    using settings_are_applied_once[of off_config "activate off_config sample_world"] n by simp
qed

end
