(* ===== verification/Client.thy ===== *)
theory Client
  imports ManagerApi Dialing "HOL-Library.Extended_Nat"
begin

text \<open>
  \<open>lib/client.js\<close>: the settings page. The formatting of byte counts, the calls of the API, the state of the
  page and what each of its actions does to it, the workers that test all nodes, and what the page shows. React
  applies state updates in order; the element tree and the styles are not modelled, only which cards
  and rows are shown and with which texts and switches.
\<close>

section \<open>Numbers as text\<close>

text \<open>
  \<open>n.toFixed(f)\<close>: the digits of the integer nearest to \<open>n * 10 ^ f\<close>, the larger one of two. Not a number and
  the infinities, and numbers from \<open>10 ^ 21\<close> on, are written by \<open>num_str\<close>.
\<close>

definition fixed_digits :: "nat \<Rightarrow> nat \<Rightarrow> string" where
  "fixed_digits f n =
     (if f = 0 then show_nat n
      else let m = show_nat n; m' = replicate (f + 1 - length m) (CHR ''0'') @ m
           in take (length m' - f) m' @ ''.'' @ drop (length m' - f) m')"

definition toFixed :: "(jsnum \<Rightarrow> string) \<Rightarrow> nat \<Rightarrow> jsnum \<Rightarrow> string" where
  "toFixed num_str f x =
     (case x of
        Fin m k \<Rightarrow>
          (if 10 ^ 21 * 2 ^ k \<le> abs m then num_str x
           else (if m < 0 then ''-'' else [])
                @ fixed_digits f (nat ((2 * abs m * 10 ^ f + 2 ^ k) div (2 * 2 ^ k))))
      | _ \<Rightarrow> num_str x)"

definition units :: "string list" where
  "units = [''B'', ''KB'', ''MB'', ''GB'', ''TB'']"

text \<open>\<open>n /= 1024\<close> is exact in binary64 for \<open>n >= 1024\<close>.\<close>

definition at_least_1024 :: "jsnum \<Rightarrow> bool" where
  "at_least_1024 n \<longleftrightarrow> n \<noteq> NaN \<and> \<not> num_less n (Fin 1024 0)"

fun over_1024 :: "jsnum \<Rightarrow> jsnum" where
  "over_1024 (Fin m k) = Fin m (k + 10)"
| "over_1024 n = n"

text \<open>The loop with \<open>left\<close> units to go.\<close>

fun scale_bytes :: "nat \<Rightarrow> jsnum \<Rightarrow> nat \<Rightarrow> jsnum \<times> nat" where
  "scale_bytes 0 n i = (n, i)"
| "scale_bytes (Suc left) n i = (if at_least_1024 n then scale_bytes left (over_1024 n) (i + 1) else (n, i))"

definition formatBytes :: "(jsnum \<Rightarrow> string) \<Rightarrow> jsval \<Rightarrow> string" where
  "formatBytes num_str v =
     (if is_nullish v then ''0 B''
      else (let (n, i) = scale_bytes (length units - 1) (js_to_number num_str v) 0
            in toFixed num_str (if i = 0 then 0 else 1) n @ '' '' @ units ! i))"

definition formatRate :: "(jsnum \<Rightarrow> string) \<Rightarrow> jsval \<Rightarrow> string" where
  "formatRate num_str v = formatBytes num_str v @ ''/s''"

section \<open>Calling the API\<close>

record http_response =
  res_ok :: bool
  res_status :: nat
  res_text :: string

text \<open>\<open>api\<close> once the response's text is there; \<open>parse\<close> is \<open>JSON.parse\<close>.\<close>

definition api_payload :: "(jsnum \<Rightarrow> string) \<Rightarrow> (string \<Rightarrow> error + jsval) \<Rightarrow> http_response \<Rightarrow> error + jsval" where
  "api_payload num_str parse r =
     bind_res (if 0 < length (res_text r) then parse (res_text r) else Inr (JObj [])) (\<lambda>payload.
       if \<not> res_ok r
       then bind_res (member payload ''error'') (\<lambda>e.
              Inl (Error (js_String num_str (or_else e (JStr (''HTTP '' @ show_nat (res_status r)))))))
       else Inr payload)"

section \<open>The state of the page\<close>

record page_node =
  pn_name :: string
  pn_type :: jsval
  pn_delay :: "nat option"
  pn_alive :: "bool option"

record page =
  status :: "jsval option"
  pg_groups :: "jsval list"
  pg_nodes :: "page_node list"
  pg_traffic :: jsval
  testing :: "string option"
  testingAll :: "(nat \<times> nat) option"
  actionBusy :: bool
  actionError :: "string option"
  urlDraft :: "string option"

definition initial_page :: page where
  "initial_page =
     \<lparr>status = None, pg_groups = [], pg_nodes = [],
      pg_traffic = JObj [(''up'', j_nat 0), (''down'', j_nat 0), (''upRate'', j_nat 0), (''downRate'', j_nat 0)],
      testing = None, testingAll = None, actionBusy = False, actionError = None, urlDraft = None\<rparr>"

text \<open>One node's fresh delay in the list.\<close>

definition set_delay :: "string \<Rightarrow> nat option \<Rightarrow> page \<Rightarrow> page" where
  "set_delay n d pg = pg\<lparr>pg_nodes :=
     map (\<lambda>node. if pn_name node = n then node\<lparr>pn_delay := d, pn_alive := Some (d \<noteq> None)\<rparr> else node) (pg_nodes pg)\<rparr>"

text \<open>
  One \<open>tick\<close>, for the outcomes of its calls and the moments at which the page is gone: when the first two calls
  are back, when the third is, and when an exception is caught. (The first tick of a page also clears the
  latencies on the server, whatever comes of it.)
\<close>

record tick_run =
  tk_status :: "error + jsval"
  tk_traffic :: "error + jsval"
  tk_proxies :: "error + jsval list \<times> page_node list"
  gone_first :: bool
  gone_proxies :: bool
  gone_error :: bool

definition tick_failed :: "tick_run \<Rightarrow> error \<Rightarrow> page \<Rightarrow> page" where
  "tick_failed t e pg = (if gone_error t then pg else pg\<lparr>actionError := Some (error_message e)\<rparr>)"

definition tick :: "tick_run \<Rightarrow> page \<Rightarrow> page" where
  "tick t pg =
     (case tk_status t of
        Inl e \<Rightarrow> tick_failed t e pg
      | Inr st \<Rightarrow>
          (if gone_first t then pg
           else
             (let pg1 = pg\<lparr>status := if st = JNull then None else Some st\<rparr>;
                  pg2 = (case tk_traffic t of Inr tr \<Rightarrow> if tr = JNull then pg1 else pg1\<lparr>pg_traffic := tr\<rparr> | Inl _ \<Rightarrow> pg1);
                  pg3 = pg2\<lparr>actionError := None\<rparr>
              in (case member st ''state'' of
                    Inl e \<Rightarrow> tick_failed t e pg3
                  | Inr s \<Rightarrow>
                      (if s = JStr ''running''
                       then (case tk_proxies t of
                               Inr (gs, ns) \<Rightarrow> if gone_proxies t then pg3 else pg3\<lparr>pg_groups := gs, pg_nodes := ns\<rparr>
                             | Inl _ \<Rightarrow> pg3)
                       else pg3)))))"

text \<open>\<open>runAction\<close>: before and after the awaited action.\<close>

definition action_begin :: "page \<Rightarrow> page" where
  "action_begin pg = pg\<lparr>actionBusy := True, actionError := None\<rparr>"

definition action_end :: "error + unit \<Rightarrow> page \<Rightarrow> page" where
  "action_end r pg =
     (let pg1 = (case r of Inl e \<Rightarrow> pg\<lparr>actionError := Some (error_message e)\<rparr> | Inr _ \<Rightarrow> pg) in pg1\<lparr>actionBusy := False\<rparr>)"

text \<open>\<open>testNode\<close>: at the click and when the reply is there.\<close>

definition test_begin :: "string \<Rightarrow> page \<Rightarrow> page" where
  "test_begin n pg = pg\<lparr>testing := Some n\<rparr>"

definition test_end :: "string \<Rightarrow> error + nat option \<Rightarrow> page \<Rightarrow> page" where
  "test_end n r pg =
     (case r of Inr d \<Rightarrow> set_delay n d pg | Inl e \<Rightarrow> pg\<lparr>actionError := Some (error_message e)\<rparr>)\<lparr>testing := None\<rparr>"

text \<open>\<open>selectNode\<close>: the reply to the selection, then the status.\<close>

definition select_end :: "error + unit \<Rightarrow> error + jsval \<Rightarrow> page \<Rightarrow> page" where
  "select_end r st pg =
     (case bind_res r (\<lambda>_. st) of
        Inr v \<Rightarrow> pg\<lparr>status := Some v\<rparr>
      | Inl e \<Rightarrow> pg\<lparr>actionError := Some (error_message e)\<rparr>)"

section \<open>Testing all nodes\<close>

text \<open>
  \<open>testAllNodes\<close>: eight workers take names off a shared queue. \<open>answer\<close> is what the API replies for a name.
\<close>

datatype tester = Ready | Awaiting string | Quit

record test_all =
  to_test :: "string list"
  testers :: "tester list"
  done_count :: nat
  firstError :: "error option"
  on_page :: page

definition test_all_begin :: "string list \<Rightarrow> page \<Rightarrow> test_all" where
  "test_all_begin ns pg =
     \<lparr>to_test = ns, testers = replicate (min 8 (length ns)) Ready, done_count = 0, firstError = None,
      on_page = pg\<lparr>testingAll := Some (0, length ns)\<rparr>\<rparr>"

definition testAllNodes :: "string list \<Rightarrow> page \<Rightarrow> test_all option" where
  "testAllNodes ns pg = (if length ns = 0 then None else Some (test_all_begin ns pg))"

definition take_reply :: "nat \<Rightarrow> string \<Rightarrow> error + nat option \<Rightarrow> test_all \<Rightarrow> test_all" where
  "take_reply total_count n r t =
     (let t1 = (case r of
                  Inr d \<Rightarrow> t\<lparr>on_page := set_delay n d (on_page t)\<rparr>
                | Inl e \<Rightarrow> (if firstError t = None then t\<lparr>firstError := Some e\<rparr> else t));
          k = done_count t + 1
      in t1\<lparr>done_count := k, on_page := (on_page t1)\<lparr>testingAll := Some (k, total_count)\<rparr>\<rparr>)"

inductive test_step :: "nat \<Rightarrow> (string \<Rightarrow> error + nat option) \<Rightarrow> test_all \<Rightarrow> test_all \<Rightarrow> bool"
  for total_count :: nat and answer :: "string \<Rightarrow> error + nat option" where
  take_name: "\<lbrakk>i < length (testers t); testers t ! i = Ready; to_test t = n # ns\<rbrakk>
     \<Longrightarrow> test_step total_count answer t (t\<lparr>to_test := ns, testers := (testers t)[i := Awaiting n]\<rparr>)"
| quit: "\<lbrakk>i < length (testers t); testers t ! i = Ready; to_test t = []\<rbrakk>
     \<Longrightarrow> test_step total_count answer t (t\<lparr>testers := (testers t)[i := Quit]\<rparr>)"
| reply: "\<lbrakk>i < length (testers t); testers t ! i = Awaiting n\<rbrakk>
     \<Longrightarrow> test_step total_count answer t ((take_reply total_count n (answer n) t)\<lparr>testers := (testers t)[i := Ready]\<rparr>)"

text \<open>When all workers are done: the first error is shown and the progress disappears.\<close>

definition test_all_end :: "test_all \<Rightarrow> page" where
  "test_all_end t =
     (let pg = (case firstError t of
                  Some e \<Rightarrow> (on_page t)\<lparr>actionError := Some (error_message e)\<rparr>
                | None \<Rightarrow> on_page t)
      in pg\<lparr>testingAll := None\<rparr>)"

section \<open>What the page shows\<close>

text \<open>
  The element tree as the list of its cards with the texts and switches in them. \<open>t\<close> is the bound dictionary,
  \<open>time_str\<close> is \<open>toLocaleString\<close>. The arrows, the dash for a missing value and the ellipsis are outside
  Latin-1: the fields hold the text beside an arrow, no text for the dash, and whether a name is cut.
\<close>

definition page_state :: "page \<Rightarrow> jsval" where
  "page_state pg = (case status pg of Some st \<Rightarrow> or_else (get_prop st ''state'') (JStr ''stopped'') | None \<Rightarrow> JStr ''stopped'')"

definition state_key :: "string \<Rightarrow> string" where
  "state_key s = (if s = ''no-subscription'' then ''noSubscription'' else s)"

text \<open>\<open>status?.k\<close>.\<close>

definition status_prop :: "page \<Rightarrow> string \<Rightarrow> jsval" where
  "status_prop pg k = (case status pg of Some st \<Rightarrow> get_prop st k | None \<Rightarrow> JUndef)"

definition formatTime :: "(jsval \<Rightarrow> string) \<Rightarrow> jsval \<Rightarrow> string option" where
  "formatTime time_str v = (if is_nullish v then None else Some (time_str v))"

text \<open>The address field: the draft, which takes the saved address over once, and the address that is saved.\<close>

definition saved_url :: "jsval \<Rightarrow> string" where
  "saved_url sec = (case get_prop sec ''subscriptionUrl'' of JStr s \<Rightarrow> s | _ \<Rightarrow> [])"

definition draft_effect :: "jsval \<Rightarrow> page \<Rightarrow> page" where
  "draft_effect sec pg = pg\<lparr>urlDraft := Some (case urlDraft pg of Some s \<Rightarrow> s | None \<Rightarrow> saved_url sec)\<rparr>"

definition urlValue :: "jsval \<Rightarrow> page \<Rightarrow> string" where
  "urlValue sec pg = (case urlDraft pg of Some s \<Rightarrow> s | None \<Rightarrow> saved_url sec)"

definition save_disabled :: "jsval \<Rightarrow> page \<Rightarrow> bool" where
  "save_disabled sec pg \<longleftrightarrow> actionBusy pg \<or> length (trim (urlValue sec pg)) = 0"

definition saveUrl :: "jsval \<Rightarrow> page \<Rightarrow> string option" where
  "saveUrl sec pg = (let v = trim (urlValue sec pg) in if length v = 0 then None else Some v)"

text \<open>What \<open>toggle\<close> sets \<open>enabled\<close> to.\<close>

definition toggle :: "jsval \<Rightarrow> bool" where
  "toggle sec \<longleftrightarrow> get_prop sec ''enabled'' = JBool False"

text \<open>The rows: sorted by delay (\<open>Infinity - Infinity\<close> is no number, which a sort takes for equal).\<close>

definition delay_key :: "page_node \<Rightarrow> enat" where
  "delay_key n = (case pn_delay n of None \<Rightarrow> \<infinity> | Some d \<Rightarrow> enat d)"

definition sorted_rows :: "page_node list \<Rightarrow> page_node list" where
  "sorted_rows ns = sort_key delay_key ns"

datatype delay_colour = Plain | Green | Amber | Red

record node_row =
  row_selected :: bool
  row_cut :: bool
  row_label :: string
  row_type :: jsval
  row_colour :: delay_colour
  row_delay :: "nat option"
  row_delay_text :: "string option"
  test_disabled :: bool
  test_text :: string
  select_disabled :: bool
  select_text :: string

definition node_row :: "(string \<Rightarrow> string) \<Rightarrow> page \<Rightarrow> page_node \<Rightarrow> node_row" where
  "node_row t pg n =
     (let chosen = (status_prop pg ''selected'' = JStr (pn_name n)) in
      \<lparr>row_selected = chosen,
       row_cut = 34 < length (pn_name n),
       row_label = (if 34 < length (pn_name n) then take 34 (pn_name n) else pn_name n),
       row_type = or_else (pn_type n) (JStr []),
       row_colour = (case pn_delay n of None \<Rightarrow> Plain | Some d \<Rightarrow> if d < 200 then Green else if d < 500 then Amber else Red),
       row_delay = pn_delay n,
       row_delay_text = map_option (\<lambda>d. show_nat d @ '' ms'') (pn_delay n),
       test_disabled = (testing pg \<noteq> None \<or> testingAll pg \<noteq> None),
       test_text = (if testing pg = Some (pn_name n) then t ''testing'' else t ''test''),
       select_disabled = chosen,
       select_text = (if chosen then t ''current'' else t ''select'')\<rparr>)"

definition page_rows :: "(string \<Rightarrow> string) \<Rightarrow> page \<Rightarrow> node_row list" where
  "page_rows t pg = map (node_row t pg) (sorted_rows (pg_nodes pg))"

text \<open>\<open>group.all?.length ?? 0\<close>, and a group's row: name, type, current member if any, number of members.\<close>

definition all_length :: "jsval \<Rightarrow> jsval" where
  "all_length v =
     (case v of
        JArr xs \<Rightarrow> j_nat (length xs)
      | JStr s \<Rightarrow> j_nat (length s)
      | _ \<Rightarrow> or_else (get_prop v ''length'') (j_nat 0))"

definition group_row ::
  "(jsnum \<Rightarrow> string) \<Rightarrow> (string \<Rightarrow> string) \<Rightarrow> jsval \<Rightarrow> string \<times> jsval \<times> string option \<times> string" where
  "group_row num_str t g =
     (js_String num_str (get_prop g ''name'') @ '' '', get_prop g ''type'',
      (let v = get_prop g ''now'' in if is_nullish v then None else Some (t ''current'' @ '': '' @ js_String num_str v)),
      js_String num_str (all_length (get_prop g ''all'')) @ '' '' @ t ''nodes'')"

datatype card =
    is_OverviewCard: OverviewCard string "string option" "string list" bool "string option"
  | is_SubscriptionCard: SubscriptionCard string bool string "string option"
  | is_TrafficCard: TrafficCard string string string
  | is_GroupsCard: GroupsCard "(string \<times> jsval \<times> string option \<times> string) list"
  | is_NodesCard: NodesCard string bool "node_row list"
  | is_HintCard: HintCard string

text \<open>Badge, the error of the proxy, the labels of the three buttons, whether they are off, the last action's error.\<close>

definition overview_card :: "(jsnum \<Rightarrow> string) \<Rightarrow> (string \<Rightarrow> string) \<Rightarrow> jsval \<Rightarrow> page \<Rightarrow> card" where
  "overview_card num_str t sec pg =
     OverviewCard (t (state_key (js_String num_str (page_state pg))))
       (let e = status_prop pg ''error'' in
        if is_nullish e then None else Some (t ''error'' @ '': '' @ js_String num_str e))
       [if toggle sec then t ''enable'' else t ''disable'', t ''restart'', t ''updateSubscription'']
       (actionBusy pg)
       (map_option (\<lambda>e. t ''error'' @ '': '' @ e) (actionError pg))"

text \<open>The field, whether the button is off, the last update, the number of nodes.\<close>

definition subscription_card ::
  "(jsnum \<Rightarrow> string) \<Rightarrow> (string \<Rightarrow> string) \<Rightarrow> (jsval \<Rightarrow> string) \<Rightarrow> jsval \<Rightarrow> page \<Rightarrow> card" where
  "subscription_card num_str t time_str sec pg =
     SubscriptionCard (urlValue sec pg) (save_disabled sec pg)
       (case formatTime time_str (status_prop pg ''lastSubscriptionUpdate'') of Some s \<Rightarrow> s | None \<Rightarrow> t ''never'')
       (let n = status_prop pg ''nodeCount'' in
        if num_less (Fin 0 0) (js_to_number num_str n) then Some (js_String num_str n @ '' '' @ t ''nodes'') else None)"

definition traffic_card :: "(jsnum \<Rightarrow> string) \<Rightarrow> (string \<Rightarrow> string) \<Rightarrow> page \<Rightarrow> card" where
  "traffic_card num_str t pg =
     (let v = get_prop (pg_traffic pg) in
      TrafficCard (formatRate num_str (v ''downRate'')) (formatRate num_str (v ''upRate''))
        (t ''download'' @ '' '' @ formatBytes num_str (v ''down'') @ [CHR '' '', CHR 0xB7, CHR '' '']
         @ t ''upload'' @ '' '' @ formatBytes num_str (v ''up'')))"

definition nodes_card :: "(string \<Rightarrow> string) \<Rightarrow> page \<Rightarrow> card" where
  "nodes_card t pg =
     NodesCard
       (case testingAll pg of
          Some (k, n) \<Rightarrow> t ''testingAll'' @ '' '' @ show_nat k @ ''/'' @ show_nat n
        | None \<Rightarrow> t ''testAll'')
       (testingAll pg \<noteq> None \<or> testing pg \<noteq> None)
       (page_rows t pg)"

definition cards ::
  "(jsnum \<Rightarrow> string) \<Rightarrow> (string \<Rightarrow> string) \<Rightarrow> (jsval \<Rightarrow> string) \<Rightarrow> jsval \<Rightarrow> page \<Rightarrow> card list" where
  "cards num_str t time_str sec pg =
     (let running = (page_state pg = JStr ''running'') in
      [overview_card num_str t sec pg, subscription_card num_str t time_str sec pg]
      @ (if running then [traffic_card num_str t pg] else [])
      @ (if running \<and> pg_groups pg \<noteq> [] then [GroupsCard (map (group_row num_str t) (pg_groups pg))] else [])
      @ (if running then [nodes_card t pg] else [])
      @ (if page_state pg = JStr ''no-subscription'' then [HintCard (t ''configureHint'')] else []))"

text \<open>
  The draft takes the saved address over at the first effect and never again: when the settings arrive later, or
  change, the field keeps the first value.
\<close>

lemma first_draft_sticks: "urlValue sec' (draft_effect sec' (draft_effect sec pg)) = urlValue sec (draft_effect sec pg)"
  by (simp add: urlValue_def draft_effect_def)

lemma late_settings_are_not_shown:
  "urlValue sec (draft_effect sec (draft_effect (JObj []) initial_page)) = []"
  by (simp add: urlValue_def draft_effect_def saved_url_def initial_page_def)

section \<open>Byte counts\<close>

lemma fixed_one: "fixed_digits 1 n = show_nat (n div 10) @ ''.'' @ show_nat (n mod 10)"
proof -
  have one: "show_nat k = [unit_char (48 + k)]" if "k < 10" for k using that by (subst show_nat.simps) simp
  show ?thesis
  proof (cases "n < 10")
    case True
    then have "n div 10 = 0" "n mod 10 = n" by simp_all
    moreover have "show_nat 0 = ''0''" by code_simp
    ultimately show ?thesis using one[OF True] by (simp add: fixed_digits_def)
  next
    case False
    then have "show_nat n = show_nat (n div 10) @ [unit_char (48 + n mod 10)]" by (subst show_nat.simps) simp
    moreover have "show_nat (n mod 10) = [unit_char (48 + n mod 10)]" by (simp add: one)
    ultimately show ?thesis by (simp add: fixed_digits_def Let_def Suc_leI)
  qed
qed

lemma scale_nat:
  "\<exists>j. scale_bytes k (Fin (int b) (10 * i)) i = (Fin (int b) (10 * j), j) \<and> i \<le> j \<and> j \<le> i + k
     \<and> (j < i + k \<longrightarrow> b < 1024 * 1024 ^ j) \<and> (i < j \<longrightarrow> 1024 ^ j \<le> b)"
proof (induction k arbitrary: i)
  case (Suc k)
  have pow: "(2::int) ^ (10 * i) = int (1024 ^ i)" by (simp add: power_mult)
  have "at_least_1024 (Fin (int b) (10 * i)) \<longleftrightarrow> \<not> int b < int (1024 * 1024 ^ i)"
    unfolding at_least_1024_def num_less.simps pow by simp
  then have ge: "at_least_1024 (Fin (int b) (10 * i)) \<longleftrightarrow> 1024 * 1024 ^ i \<le> b"
    unfolding of_nat_less_iff by (simp only: not_less)
  show ?case
  proof (cases "1024 * 1024 ^ i \<le> b")
    case True
    have over: "over_1024 (Fin (int b) (10 * i)) = Fin (int b) (10 * Suc i)" by simp
    have step: "scale_bytes (Suc k) (Fin (int b) (10 * i)) i = scale_bytes k (Fin (int b) (10 * Suc i)) (Suc i)"
      by (subst scale_bytes.simps(2)) (simp only: ge True if_True over Suc_eq_plus1[symmetric])
    from Suc.IH[of "Suc i"] obtain j where j0: "scale_bytes k (Fin (int b) (10 * Suc i)) (Suc i) = (Fin (int b) (10 * j), j)"
      and j': "Suc i \<le> j" "j \<le> Suc i + k" "j < Suc i + k \<longrightarrow> b < 1024 * 1024 ^ j" "Suc i < j \<longrightarrow> 1024 ^ j \<le> b"
      by blast
    note j = step[unfolded j0] j'
    have low: "1024 ^ j \<le> b"
    proof (cases "j = Suc i")
      case True
      then show ?thesis using \<open>1024 * 1024 ^ i \<le> b\<close> by simp
    next
      case False
      then show ?thesis using j by simp
    qed
    show ?thesis using j low by (intro exI[of _ j]) auto
  next
    case False
    then show ?thesis using ge by (intro exI[of _ i]) auto
  qed
qed auto

lemma formatBytes_scaled:
  assumes "scale_bytes 4 (Fin (int b) 0) 0 = (n, i)"
  shows "formatBytes num_str (j_nat b) = toFixed num_str (if i = 0 then 0 else 1) n @ '' '' @ units ! i"
proof -
  have four: "length units - 1 = 4" by (simp add: units_def)
  have num: "js_to_number num_str (j_nat b) = Fin (int b) 0" "\<not> is_nullish (j_nat b)"
    by (simp_all add: j_nat_def is_nullish_def)
  show ?thesis unfolding formatBytes_def four num(1) assms using num(2) by simp
qed

text \<open>A byte count is shown faithfully: the unit is the largest power of 1024 not above the count (terabytes at
  most), plain bytes are exact, and the one decimal shown is within half a tenth of the unit.\<close>

theorem formatBytes_accuracy:
  assumes "b < 2 ^ 53"
  shows "\<exists>i t. i \<le> 4 \<and> (0 < i \<longrightarrow> 1024 ^ i \<le> b) \<and> (i < 4 \<longrightarrow> b < 1024 * 1024 ^ i)
     \<and> formatBytes num_str (j_nat b)
       = (if i = 0 then show_nat b else show_nat (t div 10) @ ''.'' @ show_nat (t mod 10)) @ '' '' @ units ! i
     \<and> 2 * abs (int t * 1024 ^ i - 10 * int b) \<le> 1024 ^ i"
proof -
  obtain i where s: "scale_bytes 4 (Fin (int b) 0) 0 = (Fin (int b) (10 * i), i)" "i \<le> 4"
    "i < 4 \<longrightarrow> b < 1024 * 1024 ^ i" "0 < i \<longrightarrow> 1024 ^ i \<le> b"
    using scale_nat[of 4 b 0] by auto
  let ?f = "if i = 0 then 0 else 1 :: nat"
  have pow: "(2::int) ^ (10 * i) = 1024 ^ i" by (simp add: power_mult)
  have "int b < 2 ^ 53" using assms by (metis of_nat_less_iff of_nat_numeral of_nat_power)
  then have "int b < 10 ^ 21 * 1" by simp
  also have "(10 ^ 21 :: int) * 1 \<le> 10 ^ 21 * 1024 ^ i" by (rule mult_left_mono) simp_all
  finally have "int b < 10 ^ 21 * 1024 ^ i" .
  then have fix': "toFixed num_str ?f (Fin (int b) (10 * i))
      = fixed_digits ?f (nat ((2 * int b * 10 ^ ?f + 1024 ^ i) div (2 * 1024 ^ i)))"
    by (simp add: toFixed_def pow)
  have fb: "formatBytes num_str (j_nat b) = toFixed num_str ?f (Fin (int b) (10 * i)) @ '' '' @ units ! i"
    by (rule formatBytes_scaled[OF s(1)])
  define t where "t = nat ((2 * int b * 10 + 1024 ^ i) div (2 * 1024 ^ i))"
  have t: "int t = (20 * int b + 1024 ^ i) div (2 * 1024 ^ i)"
    by (simp add: t_def pos_imp_zdiv_nonneg_iff)
  have bound: "2 * abs (int t * 1024 ^ i - 10 * int b) \<le> 1024 ^ i"
  proof -
    define D :: int where "D = 1024 ^ i"
    have "0 < D" by (simp add: D_def)
    have "2 * D * int t + (20 * int b + D) mod (2 * D) = 20 * int b + D" by (simp add: t D_def)
    moreover have "0 \<le> (20 * int b + D) mod (2 * D)" "(20 * int b + D) mod (2 * D) < 2 * D"
      using \<open>0 < D\<close> by simp_all
    ultimately have "abs (2 * D * int t - 20 * int b) \<le> D" by linarith
    moreover have "2 * D * int t - 20 * int b = 2 * (int t * D - 10 * int b)" by algebra
    ultimately have "abs (2 * (int t * D - 10 * int b)) \<le> D" by (simp only:)
    then show ?thesis by (simp only: abs_mult D_def abs_numeral)
  qed
  show ?thesis
  proof (cases "i = 0")
    case True
    then have "toFixed num_str ?f (Fin (int b) (10 * i)) = show_nat b" using fix' by (simp add: fixed_digits_def)
    then show ?thesis using s True fb bound by (intro exI[of _ i] exI[of _ t]) simp
  next
    case False
    then have "toFixed num_str ?f (Fin (int b) (10 * i)) = show_nat (t div 10) @ ''.'' @ show_nat (t mod 10)"
      using fix' by (simp add: t_def fixed_one[unfolded One_nat_def])
    then show ?thesis using s False fb bound by (intro exI[of _ i] exI[of _ t]) simp
  qed
qed

lemma formatBytes_accuracy_witness:
  "\<exists>i t. i \<le> 4 \<and> (0 < i \<longrightarrow> 1024 ^ i \<le> (1536::nat)) \<and> (i < 4 \<longrightarrow> 1536 < (1024::nat) * 1024 ^ i)
     \<and> formatBytes (\<lambda>_. []) (j_nat 1536)
       = (if i = 0 then show_nat 1536 else show_nat (t div 10) @ ''.'' @ show_nat (t mod 10)) @ '' '' @ units ! i
     \<and> 2 * abs (int t * 1024 ^ i - 10 * int 1536) \<le> 1024 ^ i"
proof -
  have small: "(1536::nat) < 2 ^ 53" by simp
  show ?thesis by (rule formatBytes_accuracy[OF small])
qed

text \<open>Just below a unit the rounding shows 1024.0 of the unit below instead of 1.0.\<close>

theorem formatBytes_shows_1024:
  "formatBytes num_str (j_nat 1048575) = ''1024.0 KB''"
proof -
  have "scale_bytes 4 (Fin 1048575 0) 0 = (Fin 1048575 10, 1)"
    by (simp add: numeral_eq_Suc at_least_1024_def)
  then have "formatBytes num_str (j_nat 1048575) = toFixed num_str 1 (Fin 1048575 10) @ '' '' @ units ! 1"
    using formatBytes_scaled[of 1048575 "Fin 1048575 10" 1] by (simp del: scale_bytes.simps)
  moreover have "toFixed num_str 1 (Fin 1048575 10) = show_nat 1024 @ ''.'' @ show_nat 0"
    by (simp add: toFixed_def fixed_one[unfolded One_nat_def])
  moreover have "show_nat 1024 = ''1024''" "show_nat 0 = ''0''" by code_simp+
  ultimately show ?thesis by (simp add: units_def)
qed


section \<open>The runs of testing all nodes\<close>

definition awaited :: "tester \<Rightarrow> string multiset" where
  "awaited w = (case w of Awaiting n \<Rightarrow> {#n#} | _ \<Rightarrow> {#})"

text \<open>The list of nodes once the names of a set are tested.\<close>

definition fresh_node :: "error + nat option \<Rightarrow> page_node \<Rightarrow> page_node" where
  "fresh_node r node = (case r of Inr d \<Rightarrow> node\<lparr>pn_delay := d, pn_alive := Some (d \<noteq> None)\<rparr> | Inl _ \<Rightarrow> node)"

definition refreshed :: "(string \<Rightarrow> error + nat option) \<Rightarrow> string set \<Rightarrow> page_node list \<Rightarrow> page_node list" where
  "refreshed answer names = map (\<lambda>node. if pn_name node \<in> names then fresh_node (answer (pn_name node)) node else node)"

definition tests_inv :: "string list \<Rightarrow> (string \<Rightarrow> error + nat option) \<Rightarrow> page \<Rightarrow> test_all \<Rightarrow> bool" where
  "tests_inv ns answer pg t \<longleftrightarrow>
     length (testers t) = min 8 (length ns)
     \<and> (Quit \<in> set (testers t) \<longrightarrow> to_test t = [])
     \<and> (\<exists>tested. mset tested + sum_list (map awaited (testers t)) + mset (to_test t) = mset ns
          \<and> (\<exists>shown. on_page t = pg\<lparr>pg_nodes := refreshed answer (set tested) (pg_nodes pg), testingAll := shown\<rparr>
                \<and> shown = Some (length tested, length ns))
          \<and> done_count t = length tested
          \<and> (case firstError t of None \<Rightarrow> \<forall>n \<in> set tested. \<exists>d. answer n = Inr d
                               | Some e \<Rightarrow> \<exists>n \<in> set tested. answer n = Inl e))"

lemma refreshed_insert: "refreshed answer (insert n names) nodes
   = (case answer n of Inr d \<Rightarrow> pg_nodes (set_delay n d (pg\<lparr>pg_nodes := refreshed answer names nodes\<rparr>))
                     | Inl _ \<Rightarrow> refreshed answer names nodes)"
  by (auto simp: refreshed_def set_delay_def fresh_node_def split: sum.splits)

lemma refreshed_none [simp]: "refreshed answer {} nodes = nodes"
  by (simp add: refreshed_def)

lemma tests_inv_begin: "tests_inv ns answer pg (test_all_begin ns pg)"
proof -
  have "sum_list (map awaited (replicate k Ready)) = {#}" for k by (induction k) (simp_all add: awaited_def)
  then show ?thesis by (simp add: tests_inv_def test_all_begin_def)
qed

lemma tests_inv_step:
  assumes "test_step (length ns) answer t t'" "tests_inv ns answer pg t"
  shows "tests_inv ns answer pg t'"
  using assms
proof (induction rule: test_step.induct)
  case (take_name i t n rest)
  have "sum_list (map awaited ((testers t)[i := Awaiting n])) = sum_list (map awaited (testers t)) + {#n#}"
    using sum_list_map_update[OF take_name(1), of awaited "Awaiting n"] take_name(2) by (simp add: awaited_def)
  moreover have "Quit \<notin> set ((testers t)[i := Awaiting n])"
    using take_name by (auto simp: tests_inv_def dest!: subsetD[OF set_update_subset_insert])
  ultimately show ?case using take_name(3,4) by (auto simp: tests_inv_def)
next
  case (quit i t)
  have "sum_list (map awaited ((testers t)[i := Quit])) = sum_list (map awaited (testers t))"
    using sum_list_map_update[OF quit(1), of awaited Quit] quit(2) by (simp add: awaited_def)
  then show ?case using quit(3,4) by (auto simp: tests_inv_def)
next
  case (reply i t n)
  obtain tested where tested: "mset tested + sum_list (map awaited (testers t)) + mset (to_test t) = mset ns"
    "on_page t = pg\<lparr>pg_nodes := refreshed answer (set tested) (pg_nodes pg), testingAll := Some (length tested, length ns)\<rparr>"
    "done_count t = length tested"
    "case firstError t of None \<Rightarrow> \<forall>n \<in> set tested. \<exists>d. answer n = Inr d | Some e \<Rightarrow> \<exists>n \<in> set tested. answer n = Inl e"
    using reply(3) by (auto simp: tests_inv_def)
  have awaiting: "sum_list (map awaited ((testers t)[i := Ready])) + {#n#} = sum_list (map awaited (testers t))"
    using sum_list_map_update[OF reply(1), of awaited Ready] reply(2) by (simp add: awaited_def)
  have count: "mset (n # tested) + sum_list (map awaited ((testers t)[i := Ready])) + mset (to_test t) = mset ns"
    using tested(1) unfolding awaiting[symmetric] by simp
  have idle: "Quit \<in> set ((testers t)[i := Ready]) \<Longrightarrow> Quit \<in> set (testers t)"
    by (auto dest!: subsetD[OF set_update_subset_insert])
  have page: "on_page (take_reply (length ns) n (answer n) t)
      = pg\<lparr>pg_nodes := refreshed answer (set (n # tested)) (pg_nodes pg), testingAll := Some (length (n # tested), length ns)\<rparr>"
    by (simp add: take_reply_def Let_def tested(2,3) refreshed_insert[of _ _ _ _ pg] set_delay_def split: sum.splits)
  have err: "case firstError (take_reply (length ns) n (answer n) t) of
      None \<Rightarrow> \<forall>n \<in> set (n # tested). \<exists>d. answer n = Inr d | Some e \<Rightarrow> \<exists>n \<in> set (n # tested). answer n = Inl e"
    using tested(4) by (auto simp: take_reply_def Let_def split: sum.splits option.splits)
  have "length (testers t) = min 8 (length ns)" "Quit \<in> set (testers t) \<longrightarrow> to_test t = []"
    using reply(3) by (simp_all add: tests_inv_def)
  moreover have "done_count (take_reply (length ns) n (answer n) t) = length (n # tested)"
    "to_test (take_reply (length ns) n (answer n) t) = to_test t"
    by (simp_all add: take_reply_def Let_def tested(3) split: sum.splits)
  ultimately show ?case using count page err idle unfolding tests_inv_def by (intro conjI exI[of _ "n # tested"]) auto
qed

lemma tests_inv_reach:
  "(test_step (length ns) answer)\<^sup>*\<^sup>* t t' \<Longrightarrow> tests_inv ns answer pg t \<Longrightarrow> tests_inv ns answer pg t'"
  by (induction rule: rtranclp_induct) (auto intro: tests_inv_step)

definition tester_cost :: "tester \<Rightarrow> nat" where
  "tester_cost w = (case w of Ready \<Rightarrow> 1 | Awaiting n \<Rightarrow> 2 | Quit \<Rightarrow> 0)"

definition tests_left :: "test_all \<Rightarrow> nat" where
  "tests_left t = 2 * length (to_test t) + sum_list (map tester_cost (testers t))"

lemma take_reply_queue: "to_test (take_reply k n r t) = to_test t"
  by (simp add: take_reply_def Let_def split: sum.splits)

lemma tests_left_step: "test_step k answer t t' \<Longrightarrow> tests_left t' < tests_left t"
proof (induction rule: test_step.induct)
  case (take_name i t n rest)
  then show ?case using sum_list_map_update[OF take_name(1), of tester_cost "Awaiting n"]
    by (simp add: tests_left_def tester_cost_def)
next
  case (quit i t)
  then show ?case using sum_list_map_update[OF quit(1), of tester_cost Quit]
    by (simp add: tests_left_def tester_cost_def)
next
  case (reply i t n)
  then show ?case using sum_list_map_update[OF reply(1), of tester_cost Ready]
    by (simp add: tests_left_def tester_cost_def take_reply_queue)
qed

lemma tester_moves:
  assumes "\<exists>w \<in> set (testers t). w \<noteq> Quit"
  shows "\<exists>t'. test_step k answer t t'"
proof -
  obtain i where i: "i < length (testers t)" "testers t ! i \<noteq> Quit" using assms by (metis in_set_conv_nth)
  then show ?thesis
  proof (cases "testers t ! i")
    case Ready
    then show ?thesis using i(1) test_step.take_name[of i t] test_step.quit[of i t]
      by (cases "to_test t") blast+
  qed (use i test_step.reply in blast)+
qed

lemma test_step_active: "test_step k answer t t' \<Longrightarrow> \<exists>w \<in> set (testers t). w \<noteq> Quit"
  by (induction rule: test_step.induct) (metis nth_mem tester.distinct)+

interpretation test_run: run_down "test_step k answer" tests_left "\<lambda>t. \<forall>w \<in> set (testers t). w = Quit" for k answer
  by unfold_locales (use tests_left_step tester_moves test_step_active in blast)+

lemma tests_finished:
  assumes inv: "tests_inv ns answer pg t" and some: "ns \<noteq> []" and fin: "\<forall>w \<in> set (testers t). w = Quit"
  shows "done_count t = length ns
    \<and> (\<exists>shown. test_all_end t = pg\<lparr>pg_nodes := refreshed answer (set ns) (pg_nodes pg), testingAll := None, actionError := shown\<rparr>
        \<and> (if \<forall>n \<in> set ns. \<exists>d. answer n = Inr d then shown = actionError pg
           else \<exists>n \<in> set ns. \<exists>e. answer n = Inl e \<and> shown = Some (error_message e)))"
proof -
  have "sum_list (map awaited ws) = {#}" if "\<forall>w \<in> set ws. w = Quit" for ws
    using that by (induction ws) (simp_all add: awaited_def)
  then have none: "sum_list (map awaited (testers t)) = {#}" using fin by blast
  have "length (testers t) = min 8 (length ns)" using inv unfolding tests_inv_def by blast
  then have "0 < length (testers t)" using some by (cases ns) simp_all
  then have "testers t ! 0 \<in> set (testers t)" by (rule nth_mem)
  then have "Quit \<in> set (testers t)" using fin by metis
  then have empty: "to_test t = []" using inv by (simp add: tests_inv_def)
  obtain tested where tested: "mset tested = mset ns"
    "on_page t = pg\<lparr>pg_nodes := refreshed answer (set tested) (pg_nodes pg), testingAll := Some (length tested, length ns)\<rparr>"
    "done_count t = length tested"
    "case firstError t of None \<Rightarrow> \<forall>n \<in> set tested. \<exists>d. answer n = Inr d | Some e \<Rightarrow> \<exists>n \<in> set tested. answer n = Inl e"
    using inv unfolding tests_inv_def none empty by auto
  note same = mset_eq_setD[OF tested(1)] mset_eq_length[OF tested(1)]
  have count: "done_count t = length ns" by (simp only: tested(3) same)
  have shows_end: "test_all_end t = pg\<lparr>pg_nodes := refreshed answer (set ns) (pg_nodes pg), testingAll := None,
      actionError := (case firstError t of None \<Rightarrow> actionError pg | Some e \<Rightarrow> Some (error_message e))\<rparr>"
    unfolding test_all_end_def tested(2) same by (simp split: option.split)
  show ?thesis
  proof (cases "firstError t")
    case None
    then have "\<forall>n \<in> set ns. \<exists>d. answer n = Inr d" using tested(4) unfolding same by (simp only: option.case)
    then show ?thesis using shows_end None count by auto
  next
    case (Some e)
    then have "\<exists>n \<in> set ns. answer n = Inl e" using tested(4) unfolding same by (simp only: option.case)
    moreover from this have "\<not> (\<forall>n \<in> set ns. \<exists>d. answer n = Inr d)" by (metis Inl_Inr_False)
    ultimately show ?thesis using Some shows_end count by auto
  qed
qed




section \<open>The page and the manager\<close>

text \<open>How the page reads the reply of \<open>proxies\<close>.\<close>

definition nat_prop :: "jsval \<Rightarrow> string \<Rightarrow> nat option" where
  "nat_prop v k = (case get_prop v k of JNum (Fin m e) \<Rightarrow> if e = 0 \<and> 0 \<le> m then Some (nat m) else None | _ \<Rightarrow> None)"

definition read_node :: "jsval \<Rightarrow> page_node" where
  "read_node v =
     \<lparr>pn_name = (case get_prop v ''name'' of JStr s \<Rightarrow> s | _ \<Rightarrow> []), pn_type = get_prop v ''type'',
      pn_delay = nat_prop v ''delay'',
      pn_alive = (case get_prop v ''alive'' of JBool b \<Rightarrow> Some b | _ \<Rightarrow> None)\<rparr>"

definition read_proxies :: "jsval \<Rightarrow> jsval list \<times> page_node list" where
  "read_proxies v = (elems (get_prop v ''groups''), map read_node (elems (get_prop v ''nodes'')))"

lemma state_name_eq: "state_name s = ''running'' \<longleftrightarrow> s = Running" "state_name s = ''no-subscription'' \<longleftrightarrow> s = NoSubscription"
  by (cases s; simp)+

lemma read_node_view: "pn_name (read_node (node_view lat p)) = fst p"
  "pn_delay (read_node (node_view lat p)) = (case lat (fst p) of Some d \<Rightarrow> d | None \<Rightarrow> None)"
  by (auto simp: case_prod_beta read_node_def node_view_def nat_prop_def j_nat_def split: option.splits)

lemma read_mgr_proxies:
  "snd (read_proxies (mgr_proxies E m)) = map (\<lambda>p. read_node (node_view (m_latencies m) p)) (nodeMap (map_option body (subscription m)))"
  by (simp add: read_proxies_def mgr_proxies_def Let_def comp_def elems_def)

lemma status_props:
  "get_prop (mgr_status u cfg m) ''state'' = JStr (state_name (m_state m))"
  "get_prop (mgr_status u cfg m) ''selected'' = j_opt (selected m)"
  "mgr_status u cfg m \<noteq> JNull" "member (mgr_status u cfg m) ''state'' = Inr (JStr (state_name (m_state m)))"
  by (simp_all add: mgr_status_def member_def is_nullish_def)

lemma rows_sorted: "sorted (map delay_key (sorted_rows ns))"
  by (simp add: sorted_rows_def)

lemma rows_all: "mset (sorted_rows ns) = mset ns"
  by (simp add: sorted_rows_def)

lemma tick_running:
  assumes "tk_status t = Inr (mgr_status u cfg m)" "tk_proxies t = Inr (gs, ns)" "\<not> gone_first t" "\<not> gone_proxies t"
    "m_state m = Running"
  shows "pg_nodes (tick t pg) = ns" "status (tick t pg) = Some (mgr_status u cfg m)"
  using assms by (auto simp: tick_def status_props Let_def split: sum.splits)

lemma tick_status:
  assumes "tk_status t = Inr (mgr_status u cfg m)" "\<not> gone_first t"
  shows "status (tick t pg) = Some (mgr_status u cfg m)"
  using assms by (auto simp: tick_def status_props Let_def split: sum.splits)

lemma which_cards:
  "(\<exists>c \<in> set (cards num_str dict time_str sec pg). is_NodesCard c) \<longleftrightarrow> page_state pg = JStr ''running''"
  "(\<exists>c \<in> set (cards num_str dict time_str sec pg). is_HintCard c) \<longleftrightarrow> page_state pg = JStr ''no-subscription''"
  by (cases "page_state pg = JStr ''running''"; cases "pg_groups pg = []";
      auto simp: cards_def Let_def overview_card_def subscription_card_def traffic_card_def nodes_card_def)+

text \<open>C36. The page shows the manager: after an update from the API of a manager the cards of a running proxy are shown
  exactly if it runs and the hint exactly if it has no subscription, and while it runs the rows are its nodes, one
  each, marked as its selection and with its latencies, fastest first and unmeasured ones last.\<close>

theorem page_shows_the_manager:
  assumes "tk_status t = Inr (mgr_status (e_url_env E) (e_cfg E) m)" "tk_proxies t = Inr (read_proxies (mgr_proxies E m))"
    "\<not> gone_first t" "\<not> gone_proxies t"
  shows "((\<exists>c \<in> set (cards num_str dict time_str sec (tick t pg)). is_NodesCard c) \<longleftrightarrow> m_state m = Running)
    \<and> ((\<exists>c \<in> set (cards num_str dict time_str sec (tick t pg)). is_HintCard c) \<longleftrightarrow> m_state m = NoSubscription)
    \<and> (m_state m = Running \<longrightarrow>
         mset (map (\<lambda>r. (row_label r, row_selected r, row_delay r)) (page_rows dict (tick t pg)))
         = mset (map (\<lambda>(n, node). (take 34 n, selected m = Some n, case m_latencies m n of Some d \<Rightarrow> d | None \<Rightarrow> None))
             (nodeMap (map_option body (subscription m))))
       \<and> sorted (map (\<lambda>r. case row_delay r of None \<Rightarrow> \<infinity> | Some d \<Rightarrow> enat d) (page_rows dict (tick t pg))))"
proof (intro conjI impI)
  have state: "page_state (tick t pg) = JStr (state_name (m_state m))"
    using tick_status[OF assms(1,3)] by (simp add: page_state_def status_props or_else_def is_nullish_def)
  show "(\<exists>c \<in> set (cards num_str dict time_str sec (tick t pg)). is_NodesCard c) \<longleftrightarrow> m_state m = Running"
    "(\<exists>c \<in> set (cards num_str dict time_str sec (tick t pg)). is_HintCard c) \<longleftrightarrow> m_state m = NoSubscription"
    by (simp_all add: which_cards state state_name_eq)
  assume run: "m_state m = Running"
  obtain gs ns where reply: "read_proxies (mgr_proxies E m) = (gs, ns)" by fastforce
  note page = tick_running[OF assms(1) assms(2)[unfolded reply] assms(3,4) run]
  have ns: "ns = map (\<lambda>p. read_node (node_view (m_latencies m) p)) (nodeMap (map_option body (subscription m)))"
    using read_mgr_proxies[of E m] reply by simp
  have row: "(row_label (node_row dict (tick t pg) n), row_selected (node_row dict (tick t pg) n), row_delay (node_row dict (tick t pg) n))
      = (take 34 (pn_name n), selected m = Some (pn_name n), pn_delay n)" for n
    by (auto simp: node_row_def status_prop_def page(2) status_props Let_def j_opt_def split: option.splits)
  show "mset (map (\<lambda>r. (row_label r, row_selected r, row_delay r)) (page_rows dict (tick t pg)))
      = mset (map (\<lambda>(n, node). (take 34 n, selected m = Some n, case m_latencies m n of Some d \<Rightarrow> d | None \<Rightarrow> None))
          (nodeMap (map_option body (subscription m))))"
    unfolding page_rows_def map_map comp_def row page(1) mset_map rows_all ns
    by (simp add: image_mset.compositionality comp_def read_node_view case_prod_beta')
  have "(\<lambda>r. case row_delay r of None \<Rightarrow> \<infinity> | Some d \<Rightarrow> enat d) (node_row dict p n) = delay_key n" for p n
    by (simp add: node_row_def Let_def delay_key_def)
  then show "sorted (map (\<lambda>r. case row_delay r of None \<Rightarrow> \<infinity> | Some d \<Rightarrow> enat d) (page_rows dict (tick t pg)))"
    using rows_sorted by (simp add: page_rows_def comp_def)
qed

theorem page_shows_the_manager_witness:
  "let m = loaded_manager\<lparr>m_state := Running\<rparr>;
       t = \<lparr>tk_status = Inr (mgr_status (e_url_env sample_env) (e_cfg sample_env) m), tk_traffic = Inl TypeError,
            tk_proxies = Inr (read_proxies (mgr_proxies sample_env m)), gone_first = False, gone_proxies = False, gone_error = False\<rparr>
   in (\<exists>c \<in> set (cards (\<lambda>_. []) id (\<lambda>_. []) JUndef (tick t initial_page)). is_NodesCard c)"
proof -
  let ?m = "loaded_manager\<lparr>m_state := Running\<rparr>"
  let ?t = "\<lparr>tk_status = Inr (mgr_status (e_url_env sample_env) (e_cfg sample_env) ?m), tk_traffic = Inl TypeError,
            tk_proxies = Inr (read_proxies (mgr_proxies sample_env ?m)), gone_first = False, gone_proxies = False, gone_error = False\<rparr>"
  have "(\<exists>c \<in> set (cards (\<lambda>_. []) id (\<lambda>_. []) JUndef (tick ?t initial_page)). is_NodesCard c) \<longleftrightarrow> m_state ?m = Running"
    by (rule page_shows_the_manager[where E = sample_env and m = ?m, THEN conjunct1]) simp_all
  then show ?thesis by (simp add: Let_def)
qed

text \<open>An update with an answer takes away the error the last action has left, and an update of a page that is gone
  changes nothing.\<close>

theorem tick_clears_errors:
  "(gone_first t \<and> gone_error t \<longrightarrow> tick t pg = pg)
   \<and> (\<forall>st s. tk_status t = Inr st \<and> member st ''state'' = Inr s \<and> \<not> gone_first t \<longrightarrow> actionError (tick t pg) = None)"
  by (auto simp: tick_def tick_failed_def Let_def split: sum.splits)

end
