(* ===== verification/PageLife.thy ===== *)
theory PageLife
  imports Client
begin

text \<open>
  \<open>lib/client.js\<close>: the life of the mounted settings page. The effect with its interval and its overlapping ticks as a
  machine over what the host and the network do, related to the function \<open>tick\<close> of \<open>Client\<close>; the error boundary, the
  entry for the settings dialog, the dictionaries with the keys the page asks for, the badge.
\<close>

section \<open>The effect of the mounted page\<close>

text \<open>
  One running \<open>tick\<close>: waiting for the reply to \<open>clear-latencies\<close>, for those to \<open>status\<close> and \<open>traffic\<close> (each
  with the value that is there already), for the one to \<open>proxies\<close>, or over.
\<close>

datatype tick_phase = Clearing | Polling "jsval option" "jsval option" | Fetching | Over

text \<open>
  The closure of the effect, the page's state, the interval, the ticks in the order of their starts, and the calls
  made so far.
\<close>

record mounted =
  shown :: page
  cancelled :: bool
  cleared :: bool
  interval_on :: bool
  ticks :: "tick_phase list"
  sent_calls :: "(string \<times> string) list"

definition poll_calls :: "(string \<times> string) list" where
  "poll_calls = [(''status'', ''GET''), (''traffic'', ''GET'')]"

definition clear_call :: "string \<times> string" where
  "clear_call = (''clear-latencies'', ''POST'')"

text \<open>\<open>tick()\<close> up to its first await.\<close>

definition start_tick :: "mounted \<Rightarrow> mounted" where
  "start_tick s =
     (if \<not> cleared s
      then s\<lparr>cleared := True, ticks := ticks s @ [Clearing], sent_calls := sent_calls s @ [clear_call]\<rparr>
      else s\<lparr>ticks := ticks s @ [Polling None None], sent_calls := sent_calls s @ poll_calls\<rparr>)"

definition mount :: "page \<Rightarrow> mounted" where
  "mount pg = (start_tick \<lparr>shown = pg, cancelled = False, cleared = False, interval_on = False, ticks = [], sent_calls = []\<rparr>)
     \<lparr>interval_on := True\<rparr>"

text \<open>The function the effect returns.\<close>

definition unmount :: "mounted \<Rightarrow> mounted" where
  "unmount s = s\<lparr>cancelled := True, interval_on := False\<rparr>"

text \<open>The \<open>catch\<close> of tick \<open>i\<close>.\<close>

definition tick_caught :: "nat \<Rightarrow> error \<Rightarrow> mounted \<Rightarrow> mounted" where
  "tick_caught i e s =
     (let s1 = s\<lparr>ticks := (ticks s)[i := Over]\<rparr> in
      if \<not> cancelled s then s1\<lparr>shown := (shown s)\<lparr>actionError := Some (error_message e)\<rparr>\<rparr> else s1)"

text \<open>What it does with both values of \<open>Promise.all\<close>; a failed call of \<open>traffic\<close> gives null.\<close>

definition polled :: "nat \<Rightarrow> jsval \<Rightarrow> jsval \<Rightarrow> mounted \<Rightarrow> mounted" where
  "polled i st tr s =
     (if cancelled s then s\<lparr>ticks := (ticks s)[i := Over]\<rparr>
      else
        let pg1 = (shown s)\<lparr>status := if st = JNull then None else Some st\<rparr>;
            pg2 = (if tr \<noteq> JNull then pg1\<lparr>pg_traffic := tr\<rparr> else pg1);
            s1 = s\<lparr>shown := pg2\<lparr>actionError := None\<rparr>\<rparr>
        in (case member st ''state'' of
              Inl e \<Rightarrow> tick_caught i e s1
            | Inr v \<Rightarrow>
                (if v = JStr ''running'' then s1\<lparr>ticks := (ticks s)[i := Fetching], sent_calls := sent_calls s @ [(''proxies'', ''GET'')]\<rparr>
                 else s1\<lparr>ticks := (ticks s)[i := Over]\<rparr>)))"

text \<open>What happens to a mounted page: the interval fires, it is taken off, a reply to a call of tick \<open>i\<close> arrives.\<close>

datatype page_event =
    Fires
  | Unmounts
  | ClearReply nat
  | StatusReply nat "error + jsval"
  | TrafficReply nat "error + jsval"
  | ProxiesReply nat "error + jsval list \<times> page_node list"

text \<open>\<open>None\<close>: the event cannot occur now.\<close>

fun on_event :: "page_event \<Rightarrow> mounted \<Rightarrow> mounted option" where
  "on_event Fires s = (if interval_on s then Some (start_tick s) else None)"
| "on_event Unmounts s = (if cancelled s then None else Some (unmount s))"
| "on_event (ClearReply i) s =
     (if i < length (ticks s) \<and> ticks s ! i = Clearing
      then Some (s\<lparr>ticks := (ticks s)[i := Polling None None], sent_calls := sent_calls s @ poll_calls\<rparr>) else None)"
| "on_event (StatusReply i r) s =
     (if i < length (ticks s)
      then (case ticks s ! i of
              Polling None tr \<Rightarrow>
                (case r of
                   Inl e \<Rightarrow> Some (tick_caught i e s)
                 | Inr st \<Rightarrow>
                     (case tr of
                        None \<Rightarrow> Some (s\<lparr>ticks := (ticks s)[i := Polling (Some st) None]\<rparr>)
                      | Some v \<Rightarrow> Some (polled i st v s)))
            | _ \<Rightarrow> None)
      else None)"
| "on_event (TrafficReply i r) s =
     (if i < length (ticks s)
      then (case ticks s ! i of
              Polling st None \<Rightarrow>
                (let v = (case r of Inr v \<Rightarrow> v | Inl _ \<Rightarrow> JNull) in
                 case st of
                   None \<Rightarrow> Some (s\<lparr>ticks := (ticks s)[i := Polling None (Some v)]\<rparr>)
                 | Some st \<Rightarrow> Some (polled i st v s))
            | _ \<Rightarrow> None)
      else None)"
| "on_event (ProxiesReply i r) s =
     (if i < length (ticks s) \<and> ticks s ! i = Fetching
      then (let s1 = s\<lparr>ticks := (ticks s)[i := Over]\<rparr> in
            case r of
              Inr (gs, ns) \<Rightarrow> Some (if \<not> cancelled s then s1\<lparr>shown := (shown s)\<lparr>pg_groups := gs, pg_nodes := ns\<rparr>\<rparr> else s1)
            | Inl _ \<Rightarrow> Some s1)
      else None)"

inductive page_step :: "mounted \<Rightarrow> mounted \<Rightarrow> bool" where
  "on_event e s = Some t \<Longrightarrow> page_step s t"

fun page_run :: "page_event list \<Rightarrow> mounted \<Rightarrow> mounted option" where
  "page_run [] s = Some s"
| "page_run (e # es) s = (case on_event e s of Some t \<Rightarrow> page_run es t | None \<Rightarrow> None)"

lemma page_run_steps: "page_run es s = Some t \<Longrightarrow> page_step\<^sup>*\<^sup>* s t"
  by (induction es arbitrary: s) (auto split: option.splits intro: page_step.intros converse_rtranclp_into_rtranclp)

lemmas page_changes = start_tick_def unmount_def tick_caught_def polled_def Let_def

inductive_cases page_stepE: "page_step s t"

section \<open>A page that is gone\<close>

definition gone :: "mounted \<Rightarrow> bool" where
  "gone s \<longleftrightarrow> cancelled s \<and> \<not> interval_on s"

lemma gone_event:
  "on_event e s = Some t \<Longrightarrow> gone s \<Longrightarrow> gone t \<and> shown t = shown s \<and> length (ticks t) = length (ticks s)"
  by (cases e) (auto simp: gone_def page_changes split: if_splits option.splits tick_phase.splits sum.splits)

definition replies_due :: "tick_phase \<Rightarrow> nat" where
  "replies_due p =
     (case p of Clearing \<Rightarrow> 3 | Polling st tr \<Rightarrow> (if st = None then 1 else 0) + (if tr = None then 1 else 0) | Fetching \<Rightarrow> 1 | Over \<Rightarrow> 0)"

definition all_due :: "mounted \<Rightarrow> nat" where
  "all_due s = sum_list (map replies_due (ticks s))"

lemma sum_list_less_update:
  fixes f :: "'a \<Rightarrow> nat"
  shows "i < length xs \<Longrightarrow> f y < f (xs ! i) \<Longrightarrow> sum_list (map f (xs[i := y])) < sum_list (map f xs)"
  using sum_list_map_update[of i xs f y] by linarith

lemma gone_event_due: "on_event e s = Some t \<Longrightarrow> gone s \<Longrightarrow> all_due t < all_due s"
  by (cases e) (auto simp: gone_def all_due_def page_changes replies_due_def intro!: sum_list_less_update
      split: if_splits option.splits tick_phase.splits sum.splits)

lemma reply_comes:
  assumes "i < length (ticks s)" "0 < replies_due (ticks s ! i)"
  shows "\<exists>e t. on_event e s = Some t"
proof (cases "ticks s ! i")
  case Clearing
  then have "on_event (ClearReply i) s \<noteq> None" using assms by simp
  then show ?thesis by blast
next
  case (Polling st tr)
  then have "on_event (StatusReply i (Inl TypeError)) s \<noteq> None \<or> on_event (TrafficReply i (Inl TypeError)) s \<noteq> None"
    using assms by (auto simp: replies_due_def split: option.splits if_splits)
  then show ?thesis by blast
next
  case Fetching
  then have "on_event (ProxiesReply i (Inl TypeError)) s \<noteq> None" using assms by simp
  then show ?thesis by blast
qed (use assms in \<open>simp add: replies_due_def\<close>)

lemma due_tick: "0 < all_due s \<Longrightarrow> \<exists>i < length (ticks s). 0 < replies_due (ticks s ! i)"
proof -
  have "0 < sum_list (map f xs) \<Longrightarrow> \<exists>x \<in> set xs. 0 < f x" for f :: "'a \<Rightarrow> nat" and xs by (induction xs) auto
  then show "0 < all_due s \<Longrightarrow> \<exists>i < length (ticks s). 0 < replies_due (ticks s ! i)"
    unfolding all_due_def by (metis in_set_conv_nth)
qed

definition gone_step :: "mounted \<Rightarrow> mounted \<Rightarrow> bool" where
  "gone_step s t \<longleftrightarrow> gone s \<and> page_step s t"

interpretation gone_page: run_down gone_step all_due "\<lambda>s. gone s \<longrightarrow> all_due s = 0"
proof
  show "gone_step s t \<Longrightarrow> all_due t < all_due s" for s t
    by (auto simp: gone_step_def elim!: page_stepE intro: gone_event_due)
  show "\<not> (gone s \<longrightarrow> all_due s = 0) \<Longrightarrow> \<exists>t. gone_step s t" for s
    using due_tick reply_comes by (fastforce simp: gone_step_def intro: page_step.intros)
  show "gone_step s t \<Longrightarrow> \<not> (gone s \<longrightarrow> all_due s = 0)" for s t
    using gone_event_due by (fastforce simp: gone_step_def elim!: page_stepE)
qed

section \<open>A page that is mounted\<close>

text \<open>The invariant of a mounted page.\<close>

fun tick_ok :: "tick_phase \<Rightarrow> bool" where
  "tick_ok (Polling (Some _) (Some _)) \<longleftrightarrow> False"
| "tick_ok _ \<longleftrightarrow> True"

definition page_inv :: "mounted \<Rightarrow> bool" where
  "page_inv s \<longleftrightarrow> (cancelled s \<longleftrightarrow> \<not> interval_on s) \<and> cleared s \<and> ticks s \<noteq> [] \<and> (\<forall>p \<in> set (ticks s). tick_ok p)
     \<and> (\<forall>p \<in> set (tl (ticks s)). p \<noteq> Clearing) \<and> (\<exists>cs. sent_calls s = clear_call # cs \<and> clear_call \<notin> set cs)"

lemma page_inv_mount: "page_inv (mount pg)"
  by (simp add: page_inv_def mount_def start_tick_def)

lemma set_tl_update: "set (tl (xs[i := y])) \<subseteq> insert y (set (tl xs))"
  by (cases xs; cases i) (auto dest: set_update_subset_insert[THEN subsetD])

lemma calls_differ: "clear_call \<notin> set poll_calls" "clear_call \<noteq> (''proxies'', ''GET'')"
  by (simp_all add: clear_call_def poll_calls_def)


lemma page_inv_update:
  assumes "page_inv s" "cancelled t = cancelled s" "interval_on t = interval_on s" "cleared t = cleared s"
    "ticks t = (ticks s)[i := p]" "sent_calls t = sent_calls s @ cs" "tick_ok p" "p \<noteq> Clearing" "clear_call \<notin> set cs"
  shows "page_inv t"
  using assms set_update_subset_insert[of "ticks s" i p] set_tl_update[of "ticks s" i p]
  unfolding page_inv_def by (auto dest: subsetD)

lemma page_inv_moves:
  "page_inv s \<Longrightarrow> tick_ok p \<Longrightarrow> p \<noteq> Clearing \<Longrightarrow> page_inv (s\<lparr>ticks := (ticks s)[i := p]\<rparr>)"
  "page_inv s \<Longrightarrow> tick_ok p \<Longrightarrow> p \<noteq> Clearing \<Longrightarrow> page_inv (s\<lparr>shown := pg, ticks := (ticks s)[i := p]\<rparr>)"
  by (rule page_inv_update[where i = i and p = p and cs = "[]"]; simp)+

lemma page_inv_shown [simp]: "page_inv (s\<lparr>shown := pg\<rparr>) \<longleftrightarrow> page_inv s"
  by (simp add: page_inv_def)

lemma page_inv_caught: "page_inv s \<Longrightarrow> page_inv (tick_caught i e s)"
  by (simp add: tick_caught_def Let_def page_inv_moves)

lemma page_inv_polled:
  assumes "page_inv s"
  shows "page_inv (polled i st tr s)"
proof -
  have "page_inv (s\<lparr>shown := pg, ticks := (ticks s)[i := Fetching], sent_calls := sent_calls s @ [(''proxies'', ''GET'')]\<rparr>)" for pg
    using calls_differ(2)
    by (intro page_inv_update[OF assms, where i = i and p = Fetching and cs = "[(''proxies'', ''GET'')]"]) simp_all
  moreover have "page_inv (s\<lparr>shown := pg, ticks := (ticks s)[i := Over]\<rparr>)" for pg
    using page_inv_moves(2)[OF assms] by simp
  ultimately show ?thesis
    using assms by (simp add: polled_def Let_def page_inv_moves page_inv_caught split: sum.split)
qed

lemma page_inv_start:
  assumes "page_inv s"
  shows "page_inv (start_tick s)"
  using assms calls_differ(1) by (cases "ticks s") (auto simp: page_inv_def start_tick_def)

lemma page_inv_event:
  assumes "on_event e s = Some t" "page_inv s"
  shows "page_inv t"
proof (cases e)
  case (ClearReply i)
  then show ?thesis
    using assms calls_differ(1)
    by (auto split: if_splits intro!: page_inv_update[OF assms(2), where i = i and p = "Polling None None" and cs = poll_calls])
next
  case (StatusReply i r)
  then show ?thesis
    using assms
    by (auto simp: page_inv_caught page_inv_polled page_inv_moves split: if_splits tick_phase.splits option.splits sum.splits)
next
  case (TrafficReply i r)
  then show ?thesis
    using assms
    by (auto simp: page_inv_polled page_inv_moves Let_def split: if_splits tick_phase.splits option.splits sum.splits)
next
  case (ProxiesReply i r)
  then show ?thesis using assms by (auto simp: page_inv_moves Let_def split: if_splits sum.splits)
next
  case Fires
  then show ?thesis using assms page_inv_start[OF assms(2)] by (simp split: if_splits)
next
  case Unmounts
  then show ?thesis using assms by (auto simp: unmount_def page_inv_def split: if_splits)
qed

lemma page_inv_run: "page_run es s = Some t \<Longrightarrow> page_inv s \<Longrightarrow> page_inv t"
  by (induction es arbitrary: s) (auto split: option.splits intro: page_inv_event)

lemma gone_run: "page_run es s = Some t \<Longrightarrow> gone s \<Longrightarrow> gone t \<and> shown t = shown s \<and> length es + all_due t \<le> all_due s"
proof (induction es arbitrary: s)
  case (Cons e es)
  then obtain u where u: "on_event e s = Some u" "page_run es u = Some t" by (auto split: option.splits)
  show ?case using gone_event[OF u(1) Cons.prems(2)] gone_event_due[OF u(1) Cons.prems(2)] Cons.IH[OF u(2)] by simp
qed simp

section \<open>What the machine shows\<close>

lemma gone_steps_run: "gone_step\<^sup>*\<^sup>* s t \<Longrightarrow> \<exists>es. page_run es s = Some t"
proof (induction rule: converse_rtranclp_induct)
  case base
  have "page_run [] t = Some t" by simp
  then show ?case by blast
next
  case (step s u)
  then obtain e es where "on_event e s = Some u" "page_run es u = Some t" by (auto simp: gone_step_def elim!: page_stepE)
  then have "page_run (e # es) s = Some t" by simp
  then show ?case by blast
qed

lemma all_due_bound: "all_due s \<le> 3 * length (ticks s)"
proof -
  have "sum_list (map replies_due ps) \<le> 3 * length ps" for ps
    by (induction ps) (auto simp: replies_due_def split: tick_phase.split)
  then show ?thesis by (simp add: all_due_def)
qed

lemma no_due_over: "page_inv s \<Longrightarrow> all_due s = 0 \<Longrightarrow> \<forall>p \<in> set (ticks s). p = Over"
  unfolding page_inv_def all_due_def
  by (fastforce simp: replies_due_def split: tick_phase.splits if_splits option.splits elim!: tick_ok.elims)

text \<open>C37. A page that was taken off stays as it was: whatever replies still arrive, nothing it shows changes, no tick starts,
  at most three more replies come per tick, and all ticks come to their end.\<close>

theorem unmounted_page_rests:
  assumes "page_run es (mount pg) = Some s" "cancelled s" "page_run es' s = Some t"
  shows "shown t = shown s \<and> length es' \<le> 3 * length (ticks s)
    \<and> (\<exists>es'' u. page_run es'' t = Some u \<and> (\<forall>p \<in> set (ticks u). p = Over))"
proof -
  have inv: "page_inv s" "page_inv t"
    using page_inv_run[OF assms(1) page_inv_mount] page_inv_run[OF assms(3)] by blast+
  have g: "gone s" using inv(1) assms(2) by (simp add: gone_def page_inv_def)
  note rest = gone_run[OF assms(3) g]
  obtain u where u: "gone_step\<^sup>*\<^sup>* t u" "gone u \<longrightarrow> all_due u = 0" using gone_page.can_finish by blast
  obtain es'' where es'': "page_run es'' t = Some u" using gone_steps_run[OF u(1)] by blast
  have "gone u" "page_inv u" using gone_run[OF es''] rest page_inv_run[OF es'' inv(2)] by blast+
  then have "\<forall>p \<in> set (ticks u). p = Over" using u(2) no_due_over by blast
  then show ?thesis using rest all_due_bound[of s] es'' by fastforce
qed

text \<open>However the interval fires and the replies interleave, the latencies on the server are cleared once per mounted
  page, by its first call.\<close>

theorem latencies_cleared_once:
  assumes "page_run es (mount pg) = Some s"
  shows "\<exists>cs. sent_calls s = clear_call # cs \<and> clear_call \<notin> set cs"
  using page_inv_run[OF assms page_inv_mount] by (simp add: page_inv_def)

text \<open>The replies to one tick, those of \<open>Promise.all\<close> in either order.\<close>

definition poll_replies :: "bool \<Rightarrow> nat \<Rightarrow> tick_run \<Rightarrow> page_event list" where
  "poll_replies traffic_first i t =
     (if traffic_first then [TrafficReply i (tk_traffic t), StatusReply i (tk_status t)]
      else StatusReply i (tk_status t) # (case tk_status t of Inl _ \<Rightarrow> [] | Inr _ \<Rightarrow> [TrafficReply i (tk_traffic t)]))
     @ (case tk_status t of
          Inr st \<Rightarrow> if member st ''state'' = Inr (JStr ''running'') then [ProxiesReply i (tk_proxies t)] else []
        | Inl _ \<Rightarrow> [])"

lemma page_run_append: "page_run (es @ es') s = (case page_run es s of Some t \<Rightarrow> page_run es' t | None \<Rightarrow> None)"
  by (induction es arbitrary: s) (auto split: option.splits)

lemmas poll_defs = poll_replies_def start_tick_def polled_def tick_caught_def tick_def tick_failed_def Let_def nth_append

text \<open>A tick that no other one overlaps is the function \<open>tick\<close> of its outcomes.\<close>

theorem lone_tick_is_tick:
  assumes "interval_on s" "cleared s" "\<not> cancelled s" "\<not> gone_first t" "\<not> gone_proxies t" "\<not> gone_error t"
  shows "\<exists>u. page_run (Fires # poll_replies traffic_first (length (ticks s)) t) s = Some u
    \<and> shown u = tick t (shown s) \<and> ticks u = ticks s @ [Over]"
proof (cases "tk_status t")
  case (Inl e)
  then show ?thesis using assms by (cases traffic_first) (simp_all add: poll_defs)
next
  case (Inr st)
  obtain tr where tr: "(case tk_traffic t of Inr v \<Rightarrow> v | Inl _ \<Rightarrow> JNull) = tr" by simp
  show ?thesis
  proof (cases "member st ''state''")
    case Inl
    then show ?thesis using assms Inr by (cases traffic_first) (simp_all add: poll_defs split: sum.split)
  next
    case (Inr v)
    then show ?thesis
      using assms \<open>tk_status t = Inr st\<close>
      by (cases traffic_first; cases "v = JStr ''running''"; cases "tk_proxies t")
        (auto simp: poll_defs split: sum.split prod.split)
  qed
qed

text \<open>Ticks overlap: an earlier one whose answers come later puts its older status over the newer one on the page.\<close>

theorem older_answer_overwrites:
  assumes "interval_on s" "cleared s" "\<not> cancelled s" "i = length (ticks s)"
    "member old ''state'' = Inr v" "v \<noteq> JStr ''running''" "member new ''state'' = Inr w" "w \<noteq> JStr ''running''"
  shows "\<exists>u u'. page_run [Fires, Fires, StatusReply (i + 1) (Inr new), TrafficReply (i + 1) tr] s = Some u
    \<and> page_run [StatusReply i (Inr old), TrafficReply i tr'] u = Some u'
    \<and> status (shown u) = Some new \<and> status (shown u') = Some old"
proof -
  have "new \<noteq> JNull" "old \<noteq> JNull" using assms(5,7) by (auto simp: member_def is_nullish_def)
  then show ?thesis using assms by (simp add: start_tick_def polled_def Let_def nth_append list_update_append)
qed

text \<open>Nothing bounds the number of ticks waiting for a server that does not answer.\<close>

theorem ticks_pile_up:
  assumes "interval_on s" "cleared s"
  shows "page_run (replicate n Fires) s
    = Some (s\<lparr>ticks := ticks s @ replicate n (Polling None None), sent_calls := sent_calls s @ concat (replicate n poll_calls)\<rparr>)"
  using assms
proof (induction n arbitrary: s)
  case (Suc n)
  have "interval_on (start_tick s)" "cleared (start_tick s)" using Suc.prems by (simp_all add: start_tick_def)
  from Suc.IH[OF this] show ?case using Suc.prems by (simp add: start_tick_def)
qed simp

section \<open>The error boundary\<close>

text \<open>What rendering may throw; the state of the boundary is the value kept, null at the start.\<close>

datatype thrown = AnError error | AValue jsval

definition boundary_start :: thrown where
  "boundary_start = AValue JNull"

definition getDerivedStateFromError :: "thrown \<Rightarrow> thrown" where
  "getDerivedStateFromError e = e"

text \<open>\<open>render\<close>: the message, or the children.\<close>

definition boundary_render :: "(jsnum \<Rightarrow> string) \<Rightarrow> string \<Rightarrow> thrown \<Rightarrow> 'a \<Rightarrow> string + 'a" where
  "boundary_render num_str label e children =
     (if e \<noteq> AValue JNull
      then Inl (''['' @ label @ ''] render error: ''
                @ (case e of AnError x \<Rightarrow> error_message x | AValue v \<Rightarrow> js_String num_str v))
      else Inr children)"

section \<open>The entry for the settings dialog\<close>

record section_slot =
  slot_name :: string
  slot_id :: string
  slot_order :: nat
  slot_label :: string
  slot_locale :: string

text \<open>What \<open>apply\<close> registers, given the bound dictionary, and what its component renders: the section inside a boundary, for
  the state the boundary is in.\<close>

definition NS :: string where
  "NS = ''clash-proxy''"

definition apply_slot :: "(string \<Rightarrow> string) \<Rightarrow> section_slot" where
  "apply_slot t = \<lparr>slot_name = ''settings.section'', slot_id = ''clash-proxy'', slot_order = 20, slot_label = t ''nav'', slot_locale = NS\<rparr>"

definition ClashSectionBound :: "(jsnum \<Rightarrow> string) \<Rightarrow> thrown \<Rightarrow> 'a \<Rightarrow> string + 'a" where
  "ClashSectionBound num_str e inner = boundary_render num_str ''clash-proxy'' e inner"

text \<open>An error of the section is shown with its message in place of it.\<close>

lemma section_error_shown:
  "ClashSectionBound num_str boundary_start inner = Inr inner"
  "ClashSectionBound num_str (getDerivedStateFromError (AnError x)) inner = Inl (''[clash-proxy] render error: '' @ error_message x)"
  by (simp_all add: ClashSectionBound_def boundary_render_def boundary_start_def getDerivedStateFromError_def)

section \<open>The dictionaries\<close>

text \<open>
  The keys of both dictionaries in the order of the source, and the English texts, whose typographic characters
  beyond U+00FF are left out (the ellipsis of \<open>testing\<close>).
\<close>

definition en :: "(string \<times> string) list" where
  "en =
    [(''nav'', ''Smart Routing''),
     (''title'', ''Smart Routing Proxy''),
     (''description'', ''A self-contained, zero-config rule-splitting proxy confined to the DeepSeek Harness process tree: domestic traffic goes direct, international traffic routes through subscription nodes (hysteria2/vless-reality via a bundled native connector).''),
     (''state'', ''State''),
     (''running'', ''Running''),
     (''starting'', ''Starting''),
     (''stopped'', ''Stopped''),
     (''failed'', ''Failed''),
     (''disabled'', ''Disabled''),
     (''noSubscription'', ''No subscription''),
     (''enabled'', ''Proxy enabled''),
     (''disable'', ''Disable''),
     (''enable'', ''Enable''),
     (''restart'', ''Restart proxy''),
     (''updateSubscription'', ''Update subscription''),
     (''subscription'', ''Subscription''),
     (''subscriptionUrlLabel'', ''Subscription URL''),
     (''saveAndUpdate'', ''Save & update''),
     (''urlHint'', ''Paste the subscription link from your provider above, then click '' @ [CHR 0x22] @ ''Save & update'' @ [CHR 0x22] @ ''. The CLASH_SUBSCRIPTION_URL environment variable also works; if the URL itself is unreachable, configure fetchProxyUrl.''),
     (''lastUpdate'', ''Last update''),
     (''never'', ''never''),
     (''nodes'', ''nodes''),
     (''noUrl'', ''No subscription URL configured''),
     (''configureHint'', ''Fill in subscriptionUrl in the settings (or set the CLASH_SUBSCRIPTION_URL environment variable), then click '' @ [CHR 0x22] @ ''Update subscription'' @ [CHR 0x22] @ ''.''),
     (''traffic'', ''Traffic''),
     (''upload'', ''Upload''),
     (''download'', ''Download''),
     (''groups'', ''Proxy groups''),
     (''nodeList'', ''Nodes''),
     (''latency'', ''Latency''),
     (''test'', ''Test''),
     (''testing'', ''Testing''),
     (''testAll'', ''Test all''),
     (''testingAll'', ''Testing''),
     (''select'', ''Select''),
     (''current'', ''current''),
     (''type'', ''Type''),
     (''error'', ''Error''),
     (''refreshFailed'', ''Status refresh failed''),
     (''scoped'', ''Scoped to the harness environment only (system proxy untouched)''),
     (''bytes'', ''bytes'')]"

definition zh_keys :: "string list" where
  "zh_keys =
    [''nav'', ''title'', ''description'', ''state'', ''running'', ''starting'', ''stopped'', ''failed'', ''disabled'',
     ''noSubscription'', ''enabled'', ''disable'', ''enable'', ''restart'', ''updateSubscription'', ''subscription'',
     ''subscriptionUrlLabel'', ''saveAndUpdate'', ''urlHint'', ''lastUpdate'', ''never'', ''nodes'', ''noUrl'', ''configureHint'',
     ''traffic'', ''upload'', ''download'', ''groups'', ''nodeList'', ''latency'', ''test'', ''testing'', ''testAll'',
     ''testingAll'', ''select'', ''current'', ''type'', ''error'', ''refreshFailed'', ''scoped'', ''bytes'']"

lemma same_keys: "map fst en = zh_keys" "distinct zh_keys"
  by code_simp+

text \<open>The texts of a card that do not depend on the state, beside those in \<open>card\<close>.\<close>

fun fixed_keys :: "card \<Rightarrow> string list" where
  "fixed_keys (OverviewCard _ _ _ _ _) = [''title'', ''description'', ''scoped'']"
| "fixed_keys (SubscriptionCard _ _ _ _) = [''subscriptionUrlLabel'', ''saveAndUpdate'', ''urlHint'', ''lastUpdate'']"
| "fixed_keys (TrafficCard _ _ _) = [''traffic'']"
| "fixed_keys (GroupsCard _) = [''groups'']"
| "fixed_keys (NodesCard _ _ _) = [''nodeList'']"
| "fixed_keys (HintCard _) = []"

definition section_view ::
  "(jsnum \<Rightarrow> string) \<Rightarrow> (string \<Rightarrow> string) \<Rightarrow> (jsval \<Rightarrow> string) \<Rightarrow> jsval \<Rightarrow> page \<Rightarrow> (string list \<times> card) list" where
  "section_view num_str t time_str sec pg = map (\<lambda>c. (map t (fixed_keys c), c)) (cards num_str t time_str sec pg)"

text \<open>Whatever it shows of a manager, the page asks the dictionary only for keys that both languages have.\<close>

theorem texts_are_in_the_dictionaries:
  assumes "\<forall>k \<in> set zh_keys. t k = t' k" "page_state pg = JStr (state_name st)"
  shows "section_view num_str t time_str sec pg = section_view num_str t' time_str sec pg \<and> apply_slot t = apply_slot t'"
proof -
  have "state_key (state_name st) \<in> set zh_keys" by (cases st) (simp_all add: state_key_def zh_keys_def)
  then have badge: "t (state_key (js_String num_str (page_state pg))) = t' (state_key (js_String num_str (page_state pg)))"
    using assms by simp
  have k: "t k = t' k" if "k \<in> {''error'', ''enable'', ''disable'', ''restart'', ''updateSubscription'', ''never'', ''nodes'', ''download'', ''upload'',
      ''current'', ''testingAll'', ''testAll'', ''testing'', ''test'', ''select'', ''configureHint'', ''nav''}" for k
    using that assms(1) by (auto simp: zh_keys_def)
  have keys: "map t (fixed_keys c) = map t' (fixed_keys c)" for c
    using assms(1) by (cases c) (simp_all add: zh_keys_def)
  have "node_row t = node_row t'" by (intro ext) (simp add: node_row_def Let_def k)
  then have rows: "page_rows t = page_rows t'" by (intro ext) (simp add: page_rows_def)
  have groups: "group_row num_str t = group_row num_str t'" by (intro ext) (simp add: group_row_def Let_def k)
  have "overview_card num_str t sec pg = overview_card num_str t' sec pg"
    "subscription_card num_str t time_str sec pg = subscription_card num_str t' time_str sec pg"
    "traffic_card num_str t pg = traffic_card num_str t' pg" "nodes_card t pg = nodes_card t' pg"
    by (simp_all add: overview_card_def subscription_card_def traffic_card_def nodes_card_def Let_def badge k rows split: option.split)
  then have "cards num_str t time_str sec pg = cards num_str t' time_str sec pg"
    by (simp add: cards_def Let_def groups k)
  then show ?thesis by (simp add: section_view_def keys apply_slot_def k)
qed

section \<open>The badge\<close>

text \<open>Background and text colour.\<close>

definition BADGE_COLORS :: "(string \<times> string \<times> string) list" where
  "BADGE_COLORS =
    [(''running'', ''rgba(60,180,90,.18)'', ''#3cb45a''),
     (''starting'', ''rgba(230,160,60,.18)'', ''#e6a03c''),
     (''stopped'', ''rgba(128,128,128,.2)'', ''#999''),
     (''disabled'', ''rgba(128,128,128,.2)'', ''#999''),
     (''no-subscription'', ''rgba(230,160,60,.18)'', ''#e6a03c''),
     (''failed'', ''rgba(220,80,80,.18)'', ''#dc5050'')]"

definition badge_colours :: "(jsnum \<Rightarrow> string) \<Rightarrow> page \<Rightarrow> string \<times> string" where
  "badge_colours num_str pg =
     (case map_of BADGE_COLORS (js_String num_str (page_state pg)) of
        Some c \<Rightarrow> c
      | None \<Rightarrow> the (map_of BADGE_COLORS ''stopped''))"

text \<open>Every state of the manager has an entry of its own, and only a running proxy is green.\<close>

lemma badge_of_states:
  assumes "page_state pg = JStr (state_name st)"
  shows "map_of BADGE_COLORS (state_name st) = Some (badge_colours num_str pg)"
    and "badge_colours num_str pg = (''rgba(60,180,90,.18)'', ''#3cb45a'') \<longleftrightarrow> st = Running"
  using assms by (cases st; simp add: badge_colours_def BADGE_COLORS_def)+

section \<open>Examples\<close>

definition example_mounted :: mounted where
  "example_mounted = (mount initial_page)\<lparr>ticks := []\<rparr>"

theorem unmounted_page_rests_witness:
  "shown (unmount (mount initial_page)) = initial_page \<and> length [ClearReply 0, StatusReply 0 (Inl TypeError)] \<le> 3 * (1 :: nat)
    \<and> (\<exists>es'' u. page_run es'' ((unmount (mount initial_page))\<lparr>ticks := [Over], sent_calls := clear_call # poll_calls\<rparr>) = Some u
         \<and> (\<forall>p \<in> set (ticks u). p = Over))"
proof -
  have "page_run [Unmounts] (mount initial_page) = Some (unmount (mount initial_page))"
    "page_run [ClearReply 0, StatusReply 0 (Inl TypeError)] (unmount (mount initial_page))
     = Some ((unmount (mount initial_page))\<lparr>ticks := [Over], sent_calls := clear_call # poll_calls\<rparr>)"
    by (simp_all add: mount_def start_tick_def unmount_def tick_caught_def Let_def poll_calls_def)
  from unmounted_page_rests[OF this(1) _ this(2)] show ?thesis
    by (simp add: mount_def start_tick_def unmount_def)
qed

theorem latencies_cleared_once_witness:
  "\<exists>s cs. page_run [Fires, ClearReply 0, StatusReply 1 (Inl TypeError), Fires] (mount initial_page) = Some s
    \<and> sent_calls s = clear_call # cs \<and> clear_call \<notin> set cs"
proof -
  have "page_run [Fires, ClearReply 0, StatusReply 1 (Inl TypeError), Fires] (mount initial_page) \<noteq> None"
    by (simp add: mount_def start_tick_def tick_caught_def Let_def)
  then obtain s where s: "page_run [Fires, ClearReply 0, StatusReply 1 (Inl TypeError), Fires] (mount initial_page) = Some s" by auto
  show ?thesis using latencies_cleared_once[OF s] s by blast
qed

lemma stopped_status: "member (JObj [(''state'', JStr s)]) ''state'' = Inr (JStr s)"
  by (simp add: member_def is_nullish_def)

theorem lone_tick_is_tick_witness:
  "let t = \<lparr>tk_status = Inr (JObj [(''state'', JStr ''running'')]), tk_traffic = Inl TypeError, tk_proxies = Inr ([], []),
            gone_first = False, gone_proxies = False, gone_error = False\<rparr>
   in \<exists>u. page_run (Fires # poll_replies True (length (ticks example_mounted)) t) example_mounted = Some u
     \<and> shown u = tick t (shown example_mounted) \<and> ticks u = ticks example_mounted @ [Over]"
  unfolding Let_def
  by (rule lone_tick_is_tick) (simp_all add: example_mounted_def mount_def start_tick_def)

theorem older_answer_overwrites_witness:
  "\<exists>u u'. page_run [Fires, Fires, StatusReply (0 + 1) (Inr (JObj [(''state'', JStr ''stopped'')])), TrafficReply (0 + 1) (Inl TypeError)]
        example_mounted = Some u
    \<and> page_run [StatusReply 0 (Inr (JObj [(''state'', JStr ''starting'')])), TrafficReply 0 (Inl TypeError)] u = Some u'
    \<and> status (shown u) = Some (JObj [(''state'', JStr ''stopped'')]) \<and> status (shown u') = Some (JObj [(''state'', JStr ''starting'')])"
  by (rule older_answer_overwrites[OF _ _ _ _ stopped_status _ stopped_status])
    (simp_all add: example_mounted_def mount_def start_tick_def)

definition english :: "string \<Rightarrow> string \<Rightarrow> string" where
  "english missing k = (case map_of en k of Some s \<Rightarrow> s | None \<Rightarrow> missing)"

theorem texts_are_in_the_dictionaries_witness:
  "let pg = initial_page\<lparr>status := Some (JObj [(''state'', JStr ''running'')])\<rparr>
   in section_view (\<lambda>_. []) (english ''?'') (\<lambda>_. []) JUndef pg = section_view (\<lambda>_. []) (english []) (\<lambda>_. []) JUndef pg
     \<and> apply_slot (english ''?'') = apply_slot (english [])"
proof -
  have "english ''?'' k = english [] k" if "k \<in> set zh_keys" for k
  proof -
    have "map_of en k \<noteq> None" using that unfolding same_keys(1)[symmetric] by (auto simp: map_of_eq_None_iff)
    then show ?thesis by (auto simp: english_def)
  qed
  then show ?thesis
    unfolding Let_def
    by (intro texts_are_in_the_dictionaries[where st = Running]) (simp_all add: page_state_def or_else_def is_nullish_def)
qed

theorem ticks_pile_up_witness:
  "page_run (replicate 3 Fires) example_mounted
    = Some (example_mounted\<lparr>ticks := ticks example_mounted @ replicate 3 (Polling None None),
        sent_calls := sent_calls example_mounted @ concat (replicate 3 poll_calls)\<rparr>)"
  by (rule ticks_pile_up) (simp_all add: example_mounted_def mount_def start_tick_def)

end
