(* ===== verification/Spec2Isabelle.thy ===== *)
theory Spec2Isabelle
  imports Rules Ws Shadowsocks Vmess Transports Subscription Inject Nodes Manager OpQueue ProxyServer
    CnData ManagerApi Dialing Inbound Peers Faces Replies Plugin Client PageLife
begin

text \<open>
  A model of dsh-clash-proxy, a plugin that runs a rule-based proxy inside a desktop host. It downloads a Clash
  subscription, listens on a loopback port for SOCKS5 and HTTP clients, decides for each target host whether to
  connect directly, through a node of the subscription, or not at all, and points the environment variables and
  the \<open>fetch\<close> of its own process at that port. A settings page drives it through a JSON API.

  The parts and how they meet. \<open>lib/index.js\<close> makes one \<open>ClashManager\<close> (\<open>lib/core/manager.js\<close>), which loads the
  subscription (\<open>subscription.js\<close>), builds a \<open>RuleEngine\<close> (\<open>rules.js\<close>, over tables that
  \<open>scripts/build-cn-data.mjs\<close> makes), starts a \<open>ProxyServer\<close> (\<open>proxy-server.js\<close>) and injects the process
  (\<open>inject.js\<close>). The server asks the engine for an action and the manager for the node in use, and dials with
  \<open>connectThrough\<close> (\<open>transports.js\<close>, \<open>vmess.js\<close>, \<open>ws.js\<close>). The page (\<open>client.js\<close>) calls \<open>handleHttp\<close> of the
  manager. In the theories the calls run the same way; what lies outside the sources is an argument.

  \<^item> \<open>Prelude\<close>, \<open>JsString\<close>, \<open>JsNumber\<close>, \<open>JsValue\<close>: bytes, results with exceptions as values, and what the program
    uses of the language: strings as lists of code units up to U+00FF, \<open>Number\<close>, binary64 values as an integer
    over a power of two, 32-bit operations, untyped values with property access, object insertion order.
  \<^item> \<open>Rules\<close> (\<open>rules.js\<close>): address parsing, compiling and matching of rules, the scans of the domestic tables,
    \<open>decide\<close>. The three loops of \<open>matchHost\<close>, \<open>matchIp\<close>, \<open>matchIp6\<close> share the locale \<open>first_match\<close>.
  \<^item> \<open>CnData\<close> (\<open>build-cn-data.mjs\<close>): the tables as functions of the downloaded texts, the run of the script, and the
    loading of its files by the engine.
  \<^item> \<open>AddrCodec\<close>: \<open>encodeAddr\<close>, \<open>vmessEncodeAddr\<close>, \<open>readSocks5Request\<close>.
  \<^item> \<open>SocketBuffer\<close>: the class \<open>SocketBuffer\<close> as a machine over socket events and calls, \<open>iterableSource\<close>, the
    header loop. The locale \<open>byte_source\<close> is what every protocol above relies on (a read of \<open>n\<close> bytes returns the
    next \<open>n\<close> available ones); it is interpreted on both sources.
  \<^item> \<open>Ws\<close> (\<open>ws.js\<close>), \<open>ChunkCodec\<close> with \<open>Shadowsocks\<close> and \<open>Vmess\<close> (\<open>vmess.js\<close>): framings over a byte source. The
    locale \<open>chunk_codec\<close> extends \<open>byte_source\<close> and holds the round trip of an encrypted chunk stream once; both
    transports interpret it.
  \<^item> \<open>Transports\<close>, \<open>Dialing\<close>, \<open>Faces\<close>, \<open>Replies\<close> (\<open>transports.js\<close>): handshakes, requests, readers, the choice by node
    type; the promises of connecting and writing, carriers, the native child, latency measurement; writing to a face and
    closing it; what a face yields of a server's answer, and the pump that carries it to the client.
  \<^item> \<open>ProxyServer\<close>, \<open>Inbound\<close> (\<open>proxy-server.js\<close>): a handler maps what a client sends to the list of actions on the
    client and the dialled face; relay and counters as a step function. In \<open>Inbound\<close> a connection is a machine over its
    stream and the dial, which acts as the handler says in every interleaving, inside a server that is started and stopped.
  \<^item> \<open>Peers\<close>: the program against its peers: another instance behind it, and the server of each node type.
  \<^item> \<open>Subscription\<close>, \<open>Inject\<close>, \<open>Nodes\<close>: parsing; injection and its undoing (locales \<open>undoable\<close>, \<open>nested_undo\<close>); node
    table, groups, selection, the pool of latency tests.
  \<^item> \<open>Manager\<close>, \<open>OpQueue\<close>, \<open>ManagerApi\<close>, \<open>Plugin\<close> (\<open>manager.js\<close>, \<open>index.js\<close>): the fields of \<open>ClashManager\<close> with the part of
    the process they act on as one record, its operations, the promise chain that orders them as a step relation,
    the endpoints of the API, and the calls the host makes.
  \<^item> \<open>Client\<close>, \<open>PageLife\<close> (\<open>client.js\<close>): the state of the page, its actions, what it shows; the life of the mounted page
    with its overlapping ticks, the error boundary, the dictionaries, the entry for the settings dialog.
  \<^item> This theory: the engine, the node in use and the server wired as \<open>startCore\<close> wires them, and the calls of the
    page against the endpoints.

  What the lemmas show. Decisions: rules in order, suffixes by labels, networks by 32-bit masks, scans exact on the
  tables the script builds. Streams: reads settle in call order and conserve bytes, however the socket cuts them;
  each framing is a round trip or delivers the sender's payloads; nonces and counters within their bounds. Requests:
  what a server reads is the client's target. Life cycle: one invariant of the manager, kept by every operation,
  request and host call, from which a stop restores the process. Pools and queues: progress, termination and
  outcome over all interleavings (both pools of workers and a page that was taken off interpret the locale
  \<open>run_down\<close> of \<open>Prelude\<close>). The page shows the manager's state. Composition: a client's request through the rules and a
  node of any type to what the node's server reads of it, and the data behind it through the relay and the face;
  and back, the data of the node's server through the face and the pump.

  Bounds and loops. Recursion is structural or has a measure; loops over a connection are partial functions into
  an option, with their return proved (each turn consumes input), and \<open>raw_chunks\<close> takes the number of its turns,
  any number of which is covered. Byte counts are below \<open>2 ^ 53\<close>, where binary64 is exact. The header loop reads at
  most 65537 bytes. A VMess direction has 65536 chunks; nonces of Shadowsocks are distinct for \<open>2 ^ 53\<close> chunks.

  Parameters. The ciphers and digests of \<open>node:crypto\<close> (the record \<open>crypto\<close>; correctness means that decryption
  undoes encryption and lengths are fixed; an additive cipher is the instance), random bytes, the YAML, JSON and URL parsers, base64
  decoding, \<open>fetch\<close>, the files, the clock, \<open>toLocaleString\<close>, the text of numbers, the embedded tables.

  Not modelled. The native connector is a program in another language, reached through a child process. \<open>pipeSockets\<close>
  and \<open>pickFreePort\<close> are never called. Opening sockets, name resolution, TLS, the certificate check and gzip are I/O. Of
  the page, the style objects are data nothing reads, and of the Chinese dictionary only the keys are there. Log output and
  the debug line of \<open>#connect\<close> are left out. Characters beyond U+00FF do not occur in the modelled strings, and back
  pressure is only modelled where it decides an outcome. Of Node.js the machines use what its documentation says of event
  order: a promise is continued before the next event of a socket, a stream that once had a listener for data goes on
  emitting without one, a destroyed socket takes no more data, a closed server accepts nobody and keeps its connections.
\<close>

section \<open>A running proxy\<close>

fun verdict_of :: "action \<Rightarrow> verdict" where
  "verdict_of action.Direct = GoDirect"
| "verdict_of Proxy = GoProxy"
| "verdict_of Reject = GoReject"

definition current_node :: "(jsnum \<Rightarrow> string) \<Rightarrow> config \<Rightarrow> manager \<Rightarrow> jsval option" where
  "current_node num_str cfg m =
     resolveNode num_str (groupType cfg) (nodeMap (map_option body (subscription m))) (selected m) (m_latencies m)"

definition serving ::
  "cn_data \<Rightarrow> engine \<Rightarrow> (jsnum \<Rightarrow> string) \<Rightarrow> config \<Rightarrow> manager
     \<Rightarrow> (jsval option \<Rightarrow> string \<Rightarrow> jsnum \<Rightarrow> error + unit) \<Rightarrow> surroundings" where
  "serving D e num_str cfg m dialled =
     \<lparr>surroundings.decide = (\<lambda>host. verdict_of (Rules.decide D e host)), current = current_node num_str cfg m, dial = dialled\<rparr>"

lemma map_of_resolve: "resolveNode num_str gt ns sel lat = Some node \<Longrightarrow> \<exists>name. (name, node) \<in> set ns"
  by (auto simp: resolveNode_def split: if_splits option.splits prod.splits dest: map_of_SomeD)

lemma verdict_of_eq: "verdict_of a = GoReject \<longleftrightarrow> a = Reject" "verdict_of a = GoProxy \<longleftrightarrow> a = Proxy"
  by (cases a; simp)+

text \<open>C2. A running proxy dials by the rules and the subscription: whatever a client sends, each host it dials is one
  the engine lets go direct, or one to be proxied while a node of the subscription is in use.\<close>

theorem running_proxy_dials:
  assumes "Dial h p \<in> set (handle decode parse_url (serving D e num_str cfg m dialled) first later)"
  shows "Rules.decide D e h = action.Direct
    \<or> Rules.decide D e h = Proxy
      \<and> (\<exists>name node. current_node num_str cfg m = Some node
           \<and> (name, node) \<in> set (nodeMap (map_option body (subscription m))) \<and> \<not> is_nullish node)"
proof -
  have "connect (serving D e num_str cfg m dialled) h p = Inr ()"
    using assms dial_connected(1) dial_connected_http
    by (fastforce simp: handle_def split: if_splits option.splits list.splits prod.splits)
  then show ?thesis
    using map_of_resolve
    by (cases "Rules.decide D e h")
      (fastforce simp: connect_def connect_node_def serving_def current_node_def split: option.splits if_splits)+
qed


text \<open>A manager with one trojan node.\<close>

definition trojan_named :: jsval where
  "trojan_named = JObj [(''name'', JStr ''n''), (''type'', JStr ''trojan''), (''server'', JStr ''s''), (''port'', JNum (Fin 443 0)),
     (''password'', JStr ''p'')]"

definition trojan_manager :: manager where
  "trojan_manager = (new_manager sample_world)\<lparr>subscription :=
     Some \<lparr>updatedAt = JNull, body = \<lparr>sub_proxies = [trojan_named], sub_groups = [], sub_rules = [], sub_names = [''n'']\<rparr>\<rparr>\<rparr>"

lemma trojan_current: "current_node (\<lambda>_. []) default_config trojan_manager = Some trojan_named"
proof -
  have "nodeMap (Some \<lparr>sub_proxies = [trojan_named], sub_groups = [], sub_rules = [], sub_names = [''n'']\<rparr>) = [(''n'', trojan_named)]"
    by code_simp
  moreover have "isSupported (\<lambda>_. []) trojan_named" by code_simp
  ultimately show ?thesis
    by (simp add: current_node_def trojan_manager_def new_manager_def resolveNode_def supported_names_def split: option.split)
qed

lemma example_proxied:
  "Rules.decide \<lparr>cn_suffixes = [], cn_cidrs4 = [], cn_cidrs6 = []\<rparr> (mk_engine [] [] []) ''example.com'' = Proxy"
  by code_simp

theorem running_proxy_dials_witness:
  "Rules.decide \<lparr>cn_suffixes = [], cn_cidrs4 = [], cn_cidrs6 = []\<rparr> (mk_engine [] [] []) ''example.com'' = action.Direct
    \<or> Rules.decide \<lparr>cn_suffixes = [], cn_cidrs4 = [], cn_cidrs6 = []\<rparr> (mk_engine [] [] []) ''example.com'' = Proxy
      \<and> (\<exists>name node. current_node (\<lambda>_. []) default_config trojan_manager = Some node
           \<and> (name, node) \<in> set (nodeMap (map_option body (subscription trojan_manager))) \<and> \<not> is_nullish node)"
proof -
  let ?S = "serving \<lparr>cn_suffixes = [], cn_cidrs4 = [], cn_cidrs6 = []\<rparr> (mk_engine [] [] []) (\<lambda>_. []) default_config trojan_manager
      (\<lambda>_ _ _. Inr ())"
  have "connect ?S ''example.com'' (Fin (int 80) 0) = Inr ()"
    by (simp add: connect_def connect_node_def serving_def example_proxied trojan_current)
      (simp add: trojan_named_def is_nullish_def)
  then have d: "Dial ''example.com'' (Fin (int 80) 0) \<in> set (handle (map (\<lambda>b. unit_char (unat b))) (\<lambda>_. None) ?S
      ([5, of_nat (length [0::byte])] @ [0]) [[5, 1, 0] @ encodeAddr ''example.com'' (Fin (int 80) 0) @ []])"
    by (subst socks5_client_reaches_target[OF example_host _ _ ascii_decoder]) simp_all
  show ?thesis by (rule running_proxy_dials[OF d])
qed

lemma trojan_current_plain: "current_node plain_str default_config trojan_manager = Some trojan_named"
proof -
  have "nodeMap (Some \<lparr>sub_proxies = [trojan_named], sub_groups = [], sub_rules = [], sub_names = [''n'']\<rparr>) = [(''n'', trojan_named)]"
    by code_simp
  moreover have "isSupported plain_str trojan_named" by code_simp
  ultimately show ?thesis
    by (simp add: current_node_def trojan_manager_def new_manager_def resolveNode_def supported_names_def split: option.split)
qed


section \<open>The data behind the request\<close>

text \<open>C4. What a client sends behind its request reaches the node: for every schedule of its connection that lost no early
  bytes, the server of the node, whatever its kind and carrier, takes off the wire what has been relayed, and this is the
  client's bytes from the end of the request to those the stream still holds.\<close>

theorem proxied_data_reaches_the_node:
  assumes "aead_correct C" "keys_ok key" "wire f0 = []" "\<not> destroyed f0"
    "c = conn_run decode parse_url S es" "phase c = Relaying" "lost c = []" "length (arrived es) < 2 ^ 53"
    "face_run C key (map Writes (relayed c)) f0 = (f, None)"
  shows "\<exists>payload n ps. taken_off (over f0) (concat (wire f)) = Some payload \<and> node_parts C (Faces.writer f0) n payload = Some ps
    \<and> arrived es = request_of decode c @ concat ps @ concat (stream c)"
proof -
  have "bytes_inv decode [] new_connection" by (simp add: bytes_inv_def new_connection_def)
  from bytes_inv_run[OF this, of es parse_url S] have a: "arrived es = request_of decode c @ concat (relayed c) @ concat (stream c)"
    using assms(5-7) by (auto simp: conn_run_def bytes_inv_def)
  have "length d \<le> length (concat (relayed c))" if "d \<in> set (relayed c)" for d
    using that by (simp add: length_concat member_le_sum_list)
  moreover have "length (concat (relayed c)) \<le> length (arrived es)" unfolding a by simp
  ultimately have "\<forall>d \<in> set (relayed c). length d < 2 ^ 53" using assms(8) by fastforce
  from relayed_data_reaches_the_node[OF assms(1-4) this assms(9)] show ?thesis using a by metis
qed

lemma tunnel_relayed:
  "phase (conn_run plain_decode (\<lambda>_. None) open_surroundings [Arrives tunnel_head, Emits, Settles, Emits, Arrives [7], Emits]) = Relaying
   \<and> lost (conn_run plain_decode (\<lambda>_. None) open_surroundings [Arrives tunnel_head, Emits, Settles, Emits, Arrives [7], Emits]) = []
   \<and> relayed (conn_run plain_decode (\<lambda>_. None) open_surroundings [Arrives tunnel_head, Emits, Settles, Emits, Arrives [7], Emits]) = [[1, 2], [7]]
   \<and> length (arrived [Arrives tunnel_head, Emits, Settles, Emits, Arrives [7], Emits]) = 29"
  by code_simp

theorem proxied_data_reaches_the_node_witness:
  "\<exists>(f :: face) payload n ps. taken_off (over (example_face 0)) (concat (wire f)) = Some payload
    \<and> node_parts sum_crypto (Faces.writer (example_face 0)) n payload = Some ps
    \<and> arrived [Arrives tunnel_head, Emits, Settles, Emits, Arrives [7], Emits]
      = request_of plain_decode (conn_run plain_decode (\<lambda>_. None) open_surroundings [Arrives tunnel_head, Emits, Settles, Emits, Arrives [7], Emits])
        @ concat ps
        @ concat (stream (conn_run plain_decode (\<lambda>_. None) open_surroundings [Arrives tunnel_head, Emits, Settles, Emits, Arrives [7], Emits]))"
proof -
  obtain f where f: "face_run sum_crypto (\<lambda>_. [1, 2, 3, 4]) (map Writes [[1, 2], [7]]) (example_face 0) = (f, None)"
    by (simp add: example_face_def face_write_def vmess_write_slices slices_small vmess_chunk_eq[OF sum_crypto_correct(1)]
        put_all_def put_def split: prod.split)
  note run = tunnel_relayed
  show ?thesis
    using proxied_data_reaches_the_node[OF sum_crypto_correct(1) _ _ _ refl run[THEN conjunct1] run[THEN conjunct2, THEN conjunct1],
        of "\<lambda>_. [1, 2, 3, 4]" "example_face 0" f] f run
    by (simp add: keys_ok_def example_face_def) blast
qed

section \<open>The page's calls\<close>

text \<open>The calls \<open>api(path, options)\<close> of the page, with their methods.\<close>

definition page_calls :: "(string \<times> string) list" where
  "page_calls =
     [(''clear-latencies'', ''POST''), (''status'', ''GET''), (''traffic'', ''GET''), (''proxies'', ''GET''),
      (''delay'', ''POST''), (''select'', ''POST''), (''update-subscription'', ''POST''), (''restart'', ''POST'')]"

lemma page_paths: "(path, meth) \<in> set page_calls \<Longrightarrow> sub_path (''/clash-proxy/'' @ path) = path \<and> toUpperCase meth = meth"
proof -
  have "list_all (\<lambda>(path, meth). sub_path (''/clash-proxy/'' @ path) = path \<and> toUpperCase meth = meth) page_calls"
    by code_simp
  then show "(path, meth) \<in> set page_calls \<Longrightarrow> sub_path (''/clash-proxy/'' @ path) = path \<and> toUpperCase meth = meth"
    by (fastforce simp: list_all_iff)
qed

text \<open>Every call of the page is an endpoint of the manager, with its method: none is answered with 404 or 405.\<close>

theorem page_calls_are_served:
  assumes "(path, meth) \<in> set page_calls" "rq_path r = ''/clash-proxy/'' @ path" "rq_method r = Some meth"
    "handle_api E r m = (m', Some (c, v))"
  shows "c \<noteq> 404 \<and> c \<noteq> 405"
proof -
  have p: "sub_path (rq_path r) = path" "req_method r = meth"
    using page_paths[OF assms(1)] assms(2,3) by (simp_all add: req_method_def)
  show ?thesis
    using assms(1,4) unfolding page_calls_def
    by (auto simp: handle_api_def p only_def api_defs mgr_traffic_def split: if_splits option.splits sum.splits prod.splits jsval.splits)
qed

end
